(* ===== verification/Prelude.thy ===== *)
theory Prelude
  imports Complex_Main "HOL-Library.Word" "HOL-Library.List_Lexorder"
begin

text \<open>
  Shared vocabulary of the development: the machine integers the crate uses, the outcome
  of code that may panic, the lemma collections, and generic facts on lists, maps and
  words that several components need. Byte strings and character strings are lists, and
  \<open>List_Lexorder\<close> makes \<open><\<close> on them the lexicographic order Rust gives
  slices.
\<close>

section \<open>Machine integers\<close>

type_synonym u8 = "8 word"
type_synonym u32 = "32 word"
type_synonym u64 = "64 word"
type_synonym byte = u8

section \<open>Panics\<close>

text \<open>
  A Rust panic unwinds to the caller. Code that may panic returns a \<open>res\<close>; the state
  it had already written when it panicked is kept by returning the state next to it.
\<close>

datatype panic =
    TruncateBoundary  \<comment> \<open>\<open>String::truncate\<close> inside a character\<close>
  | SliceBoundary     \<comment> \<open>\<open>&s[..n]\<close> inside a character or past the end\<close>
  | LabelCardinality  \<comment> \<open>\<open>with_label_values\<close> with a wrong number of values\<close>
  | ChronoOverflow    \<comment> \<open>\<open>DateTime - Duration\<close> out of range\<close>

datatype 'a res = Ret 'a | Panicked panic

fun map_res :: "('a \<Rightarrow> 'b) \<Rightarrow> 'a res \<Rightarrow> 'b res" where
  "map_res f (Ret x) = Ret (f x)"
| "map_res f (Panicked p) = Panicked p"

fun bind_res :: "'a res \<Rightarrow> ('a \<Rightarrow> 'b res) \<Rightarrow> 'b res" where
  "bind_res (Ret x) f = f x"
| "bind_res (Panicked p) f = Panicked p"

fun returns :: "'a res \<Rightarrow> bool" where
  "returns (Ret x) = True"
| "returns (Panicked p) = False"

lemma returns_iff: "returns r \<longleftrightarrow> (\<exists>x. r = Ret x)"
  by (cases r) auto

lemma returns_map_res [simp]: "returns (map_res f r) = returns r"
  by (cases r) auto

lemma map_res_eq_Ret [simp]: "map_res f r = Ret y \<longleftrightarrow> (\<exists>x. r = Ret x \<and> y = f x)"
  by (cases r) auto

lemma bind_res_eq_Ret [simp]: "bind_res r f = Ret y \<longleftrightarrow> (\<exists>x. r = Ret x \<and> f x = Ret y)"
  by (cases r) auto

section \<open>Locks\<close>

text \<open>
  A \<open>Mutex\<close> or \<open>RwLock\<close>: the guarded value, and whether a thread panicked
  while it held the lock for writing, after which locking fails.
\<close>

record 'a lock =
  guarded :: 'a
  poisoned :: bool

definition lock_new :: "'a \<Rightarrow> 'a lock" where
  "lock_new x = \<lparr>guarded = x, poisoned = False\<rparr>"

section \<open>Lemma collections\<close>

named_theorems ascii_simps "facts on the ASCII classes of the standard library"
named_theorems codec_simps "round trips of the encoders"

section \<open>Lists\<close>

lemma list_less_append_same [simp]:
  "(xs @ ys :: 'a::linorder list) < xs @ zs \<longleftrightarrow> ys < zs"
  by (induction xs) simp_all

lemma list_less_append_fixed:
  fixes xs xs' :: "'a::linorder list"
  assumes "length xs = length xs'"
  shows "xs @ ys < xs' @ zs \<longleftrightarrow> xs < xs' \<or> (xs = xs' \<and> ys < zs)"
  using assms by (induction xs xs' rule: list_induct2) auto

lemma not_less_prefix [simp]: "\<not> (xs @ ys :: 'a::linorder list) < xs"
  by (induction xs) simp_all

lemma map_less_iff:
  fixes f :: "'a::linorder \<Rightarrow> 'b::linorder"
  assumes "\<And>x y. x \<in> set xs \<union> set ys \<Longrightarrow> y \<in> set xs \<union> set ys \<Longrightarrow> f x < f y \<longleftrightarrow> x < y"
  shows "map f xs < map f ys \<longleftrightarrow> xs < ys"
  using assms
proof (induction xs arbitrary: ys)
  case Nil
  show ?case by (cases ys) simp_all
next
  case (Cons x xs)
  show ?case
  proof (cases ys)
    case (Cons y zs)
    have tail: "map f xs < map f zs \<longleftrightarrow> xs < zs"
      using Cons Cons.prems by (intro Cons.IH) auto
    have "f x = f y \<longleftrightarrow> x = y"
      using Cons.prems [of x y] Cons.prems [of y x] Cons by (auto simp: not_less_iff_gr_or_eq)
    with tail show ?thesis
      using Cons Cons.prems [of x y] by simp
  qed simp
qed

section \<open>Words\<close>

lemma unat_of_nat_small: "n < 2 ^ LENGTH('a) \<Longrightarrow> unat (of_nat n :: 'a::len word) = n"
  by (simp add: unat_of_nat take_bit_nat_eq_self)

lemma unat_u64_less: "unat (w :: u64) < 16 ^ 16"
  using unsigned_less [of w] by simp

lemma unat_u32_less: "unat (w :: u32) < 16 ^ 8"
  using unsigned_less [of w] by simp

lemma dropWhile_none: "(\<And>c. c \<in> set xs \<Longrightarrow> \<not> P c) \<Longrightarrow> dropWhile P xs = xs"
  by (cases xs) auto

section \<open>Runs\<close>

text \<open>
  A system that a list of events drives: what every schedule keeps, what it never changes,
  and how far the occurrences of one event bring a measure down.
\<close>

locale event_system =
  fixes step :: "'ev \<Rightarrow> 'x \<Rightarrow> 'x" and run :: "'ev list \<Rightarrow> 'x \<Rightarrow> 'x"
  assumes run_nil: "run [] x = x" and run_cons: "run (ev # evs) x = run evs (step ev x)"
begin

lemma run_append: "run (evs @ evs') x = run evs' (run evs x)"
  by (induction evs arbitrary: x) (simp_all add: run_nil run_cons)

lemma run_keeps:
  assumes "\<And>ev x. P x \<Longrightarrow> P (step ev x)"
  shows "P x \<Longrightarrow> P (run evs x)"
  by (induction evs arbitrary: x) (simp_all add: run_nil run_cons assms)

lemma run_same:
  assumes "\<And>ev x. f (step ev x) = f x"
  shows "f (run evs x) = f x"
  using run_keeps [of "\<lambda>y. f y = f x"] assms by simp

lemma run_measure:
  assumes keeps: "\<And>ev x. P x \<Longrightarrow> P (step ev x)"
    and falls: "\<And>ev x. P x \<Longrightarrow> mu (step ev x) \<le> mu x - (if ev = e then 1 else 0 :: nat)"
  shows "P x \<Longrightarrow> mu (run evs x) \<le> mu x - count_list evs e"
proof (induction evs arbitrary: x)
  case (Cons ev evs)
  have "mu (run evs (step ev x)) \<le> mu (step ev x) - count_list evs e"
    by (rule Cons.IH [OF keeps [OF Cons.prems]])
  then show ?case using falls [OF Cons.prems, of ev] by (simp add: run_cons split: if_splits)
qed (simp add: run_nil)

end

end
