(* ===== verification/RustStr.thy ===== *)
theory RustStr
  imports Prelude
begin

text \<open>
  The part of Rust's \<open>str\<close>, \<open>String\<close> and \<open>char\<close> the crate uses. A string is
  the list of its characters (Unicode scalar values, as natural numbers); the byte
  length, the UTF-8 encoding and its strict decoder are functions of it. What Rust
  counts in bytes (\<open>len\<close>, \<open>truncate\<close>, slicing) is counted in bytes here,
  so that a cut inside a character is the panic it is in Rust.
\<close>

type_synonym rstr = "nat list"

definition lit :: "string \<Rightarrow> rstr" where
  "lit s = map of_char s"

definition is_scalar :: "nat \<Rightarrow> bool" where
  "is_scalar c \<longleftrightarrow> c < 0xD800 \<or> 0xE000 \<le> c \<and> c < 0x110000"

definition valid_str :: "rstr \<Rightarrow> bool" where
  "valid_str s \<longleftrightarrow> list_all is_scalar s"

definition is_ascii :: "rstr \<Rightarrow> bool" where
  "is_ascii s \<longleftrightarrow> list_all (\<lambda>c. c < 128) s"

section \<open>Character classes\<close>

definition is_ascii_upper :: "nat \<Rightarrow> bool" where
  "is_ascii_upper c \<longleftrightarrow> 65 \<le> c \<and> c \<le> 90"

definition is_ascii_lower :: "nat \<Rightarrow> bool" where
  "is_ascii_lower c \<longleftrightarrow> 97 \<le> c \<and> c \<le> 122"

definition is_ascii_digit :: "nat \<Rightarrow> bool" where
  "is_ascii_digit c \<longleftrightarrow> 48 \<le> c \<and> c \<le> 57"

definition is_ascii_alphabetic :: "nat \<Rightarrow> bool" where
  "is_ascii_alphabetic c \<longleftrightarrow> is_ascii_upper c \<or> is_ascii_lower c"

definition is_ascii_alphanumeric :: "nat \<Rightarrow> bool" where
  "is_ascii_alphanumeric c \<longleftrightarrow> is_ascii_alphabetic c \<or> is_ascii_digit c"

text \<open>\<open>char::is_whitespace\<close>: the Unicode property White\_Space.\<close>

definition is_whitespace :: "nat \<Rightarrow> bool" where
  "is_whitespace c \<longleftrightarrow> 9 \<le> c \<and> c \<le> 13 \<or> c = 32 \<or> c = 0x85 \<or> c = 0xA0 \<or> c = 0x1680
     \<or> 0x2000 \<le> c \<and> c \<le> 0x200A \<or> c = 0x2028 \<or> c = 0x2029 \<or> c = 0x202F \<or> c = 0x205F
     \<or> c = 0x3000"

definition trim :: "rstr \<Rightarrow> rstr" where
  "trim s = rev (dropWhile is_whitespace (rev (dropWhile is_whitespace s)))"

definition ascii_upper :: "nat \<Rightarrow> nat" where
  "ascii_upper c = (if is_ascii_lower c then c - 32 else c)"

definition to_ascii_uppercase :: "rstr \<Rightarrow> rstr" where
  "to_ascii_uppercase s = map ascii_upper s"

lemmas ascii_defs = is_ascii_upper_def is_ascii_lower_def is_ascii_digit_def
  is_ascii_alphabetic_def is_ascii_alphanumeric_def

section \<open>Byte lengths and cuts\<close>

definition utf8_len :: "nat \<Rightarrow> nat" where
  "utf8_len c = (if c < 0x80 then 1 else if c < 0x800 then 2 else if c < 0x10000 then 3 else 4)"

definition str_len :: "rstr \<Rightarrow> nat" where
  "str_len s = sum_list (map utf8_len s)"

text \<open>The first \<open>n\<close> bytes, if byte \<open>n\<close> is a character boundary of the string.\<close>

fun take_bytes :: "nat \<Rightarrow> rstr \<Rightarrow> rstr option" where
  "take_bytes 0 s = Some []"
| "take_bytes (Suc n) [] = None"
| "take_bytes (Suc n) (c # cs) =
     (if utf8_len c \<le> Suc n
      then map_option ((#) c) (take_bytes (Suc n - utf8_len c) cs) else None)"

definition str_truncate :: "nat \<Rightarrow> rstr \<Rightarrow> rstr res" where
  "str_truncate n s =
     (if n \<le> str_len s
      then (case take_bytes n s of Some t \<Rightarrow> Ret t | None \<Rightarrow> Panicked TruncateBoundary)
      else Ret s)"

definition str_slice_to :: "nat \<Rightarrow> rstr \<Rightarrow> rstr res" where
  "str_slice_to n s =
     (case take_bytes n s of Some t \<Rightarrow> Ret t | None \<Rightarrow> Panicked SliceBoundary)"

text \<open>\<open>s.split(sep).next()\<close>: the part before the first separator, all of it if none.\<close>

definition split_first :: "nat \<Rightarrow> rstr \<Rightarrow> rstr" where
  "split_first sep s = takeWhile (\<lambda>c. c \<noteq> sep) s"

section \<open>UTF-8\<close>

definition utf8_char :: "nat \<Rightarrow> byte list" where
  "utf8_char c =
     (if c < 0x80 then [of_nat c]
      else if c < 0x800 then [of_nat (0xC0 + c div 64), of_nat (0x80 + c mod 64)]
      else if c < 0x10000 then
        [of_nat (0xE0 + c div 4096), of_nat (0x80 + c div 64 mod 64), of_nat (0x80 + c mod 64)]
      else
        [of_nat (0xF0 + c div 262144), of_nat (0x80 + c div 4096 mod 64),
         of_nat (0x80 + c div 64 mod 64), of_nat (0x80 + c mod 64)])"

definition utf8 :: "rstr \<Rightarrow> byte list" where
  "utf8 s = concat (map utf8_char s)"

definition cont_byte :: "byte \<Rightarrow> bool" where
  "cont_byte b \<longleftrightarrow> 0x80 \<le> unat b \<and> unat b < 0xC0"

text \<open>
  \<open>std::str::from_utf8\<close>: rejects stray continuation bytes, truncated and overlong
  sequences, surrogates and anything above U+10FFFF.
\<close>

fun from_utf8 :: "byte list \<Rightarrow> rstr option" where
  "from_utf8 [] = Some []"
| "from_utf8 (b # bs) =
     (if unat b < 0x80 then map_option ((#) (unat b)) (from_utf8 bs)
      else if unat b < 0xC2 then None
      else if unat b < 0xE0 then
        (case bs of
           b1 # r \<Rightarrow>
             if cont_byte b1
             then map_option ((#) ((unat b - 0xC0) * 64 + (unat b1 - 0x80))) (from_utf8 r)
             else None
         | _ \<Rightarrow> None)
      else if unat b < 0xF0 then
        (case bs of
           b1 # b2 # r \<Rightarrow>
             let c = (unat b - 0xE0) * 4096 + (unat b1 - 0x80) * 64 + (unat b2 - 0x80)
             in if cont_byte b1 \<and> cont_byte b2 \<and> 0x800 \<le> c \<and> is_scalar c
                then map_option ((#) c) (from_utf8 r) else None
         | _ \<Rightarrow> None)
      else if unat b < 0xF5 then
        (case bs of
           b1 # b2 # b3 # r \<Rightarrow>
             let c = (unat b - 0xF0) * 262144 + (unat b1 - 0x80) * 4096
                       + (unat b2 - 0x80) * 64 + (unat b3 - 0x80)
             in if cont_byte b1 \<and> cont_byte b2 \<and> cont_byte b3 \<and> 0x10000 \<le> c \<and> is_scalar c
                then map_option ((#) c) (from_utf8 r) else None
         | _ \<Rightarrow> None)
      else None)"

section \<open>Facts\<close>

lemma str_len_simps [simp]:
  "str_len [] = 0" "str_len (c # cs) = utf8_len c + str_len cs"
  "str_len (s @ t) = str_len s + str_len t"
  by (simp_all add: str_len_def)

lemma utf8_len_pos [simp]: "0 < utf8_len c"
  by (simp add: utf8_len_def)

lemma utf8_len_ge_1 [simp]: "Suc 0 \<le> utf8_len c"
  by (simp add: utf8_len_def)

lemma length_le_str_len: "length s \<le> str_len s"
proof (induction s)
  case (Cons c cs)
  then show ?case using utf8_len_ge_1 [of c] by (simp del: utf8_len_ge_1)
qed simp

lemma is_ascii_simps [simp]:
  "is_ascii []" "is_ascii (c # cs) \<longleftrightarrow> c < 128 \<and> is_ascii cs"
  "is_ascii (s @ t) \<longleftrightarrow> is_ascii s \<and> is_ascii t"
  by (simp_all add: is_ascii_def)

lemma is_ascii_iff: "is_ascii s \<longleftrightarrow> (\<forall>c\<in>set s. c < 128)"
  by (simp add: is_ascii_def list_all_iff)

lemma str_len_ascii: "is_ascii s \<Longrightarrow> str_len s = length s"
  by (induction s) (auto simp: utf8_len_def)

lemma valid_str_simps [simp]:
  "valid_str []" "valid_str (c # cs) \<longleftrightarrow> is_scalar c \<and> valid_str cs"
  "valid_str (s @ t) \<longleftrightarrow> valid_str s \<and> valid_str t"
  by (simp_all add: valid_str_def)

lemma is_ascii_valid: "is_ascii s \<Longrightarrow> valid_str s"
  by (auto simp: is_ascii_def valid_str_def list_all_iff is_scalar_def)

lemma is_ascii_take [intro]: "is_ascii s \<Longrightarrow> is_ascii (take n s)"
  by (auto simp: is_ascii_iff dest: in_set_takeD)

lemma take_bytes_ascii: "is_ascii s \<Longrightarrow> n \<le> length s \<Longrightarrow> take_bytes n s = Some (take n s)"
  by (induction n s rule: take_bytes.induct) (auto simp: utf8_len_def)

lemma take_bytes_ascii_append:
  "is_ascii s \<Longrightarrow> take_bytes (length s + n) (s @ t) = map_option ((@) s) (take_bytes n t)"
  by (cases "take_bytes n t"; induction s) (auto simp: utf8_len_def)

lemma take_bytes_Some:
  "take_bytes n s = Some t \<Longrightarrow> str_len t = n \<and> t = take (length t) s"
  by (induction n s arbitrary: t rule: take_bytes.induct) (auto split: if_splits)

lemma take_bytes_append: "take_bytes (str_len t) (t @ u) = Some t"
proof (induction t)
  case (Cons c cs)
  obtain m where m: "utf8_len c + str_len cs = Suc m"
    using utf8_len_pos [of c] by (metis add_is_0 not0_implies_Suc not_gr0)
  then have "utf8_len c \<le> Suc m" "Suc m - utf8_len c = str_len cs" by simp_all
  with Cons show ?case by (simp add: m)
qed simp

lemma take_bytes_iff_boundary:
  "(\<exists>t. take_bytes n s = Some t) \<longleftrightarrow> (\<exists>t u. s = t @ u \<and> str_len t = n)"
proof
  assume "\<exists>t. take_bytes n s = Some t"
  then obtain t where "take_bytes n s = Some t" ..
  from take_bytes_Some [OF this]
  show "\<exists>t u. s = t @ u \<and> str_len t = n" by (metis append_take_drop_id)
next
  assume "\<exists>t u. s = t @ u \<and> str_len t = n"
  then show "\<exists>t. take_bytes n s = Some t" using take_bytes_append by blast
qed

lemma str_truncate_ascii: "is_ascii s \<Longrightarrow> str_truncate n s = Ret (take n s)"
  by (auto simp: str_truncate_def str_len_ascii take_bytes_ascii)

lemma str_truncate_Ret:
  "str_truncate n s = Ret t \<Longrightarrow> str_len t \<le> n \<and> t = take (length t) s"
  by (auto simp: str_truncate_def split: if_splits option.splits dest: take_bytes_Some)

lemma trim_nil [simp]: "trim [] = []"
  by (simp add: trim_def)

lemma utf8_simps [simp]:
  "utf8 [] = []" "utf8 (c # cs) = utf8_char c @ utf8 cs" "utf8 (s @ t) = utf8 s @ utf8 t"
  by (simp_all add: utf8_def)

lemma length_utf8_char: "length (utf8_char c) = utf8_len c"
  by (simp add: utf8_char_def utf8_len_def)

lemma length_utf8: "length (utf8 s) = str_len s"
  by (induction s) (auto simp: length_utf8_char)

lemma utf8_ascii: "is_ascii s \<Longrightarrow> utf8 s = map of_nat s"
  by (induction s) (auto simp: utf8_char_def)

section \<open>Decoding what was encoded\<close>

lemma unat_byte: "n < 256 \<Longrightarrow> unat (of_nat n :: byte) = n"
  by (rule unat_of_nat_small) simp

lemma digits_64:
  fixes c :: nat
  shows "c div 4096 * 4096 + c div 64 mod 64 * 64 + c mod 64 = c"
    and "c div 262144 * 262144 + c div 4096 mod 64 * 4096 + c div 64 mod 64 * 64 + c mod 64 = c"
proof -
  have a: "c = c div 64 * 64 + c mod 64" by simp
  have b: "c div 64 = c div 4096 * 64 + c div 64 mod 64"
    using div_mult_mod_eq [of "c div 64" 64] by (simp add: div_mult2_eq [symmetric])
  have d: "c div 4096 = c div 262144 * 64 + c div 4096 mod 64"
    using div_mult_mod_eq [of "c div 4096" 64] by (simp add: div_mult2_eq [symmetric])
  show "c div 4096 * 4096 + c div 64 mod 64 * 64 + c mod 64 = c" using a b by linarith
  then show "c div 262144 * 262144 + c div 4096 mod 64 * 4096 + c div 64 mod 64 * 64 + c mod 64 = c"
    using d by linarith
qed

lemma from_utf8_1:
  assumes "x < 0x80"
  shows "from_utf8 (of_nat x # bs) = map_option ((#) x) (from_utf8 bs)"
proof -
  have b: "unat (of_nat x :: byte) = x" using assms by (intro unat_byte) linarith
  show ?thesis unfolding from_utf8.simps b using assms by (simp only: if_True)
qed

lemma from_utf8_2:
  assumes "2 \<le> x" "x < 32" "y < 64"
  shows "from_utf8 (of_nat (0xC0 + x) # of_nat (0x80 + y) # bs)
    = map_option ((#) (x * 64 + y)) (from_utf8 bs)"
proof -
  have b: "unat (of_nat (0xC0 + x) :: byte) = 0xC0 + x" "unat (of_nat (0x80 + y) :: byte) = 0x80 + y"
    using assms by (intro unat_byte; linarith)+
  show ?thesis unfolding from_utf8.simps cont_byte_def list.case b using assms by simp
qed

lemma from_utf8_3:
  assumes "x < 16" "y < 64" "z < 64" and c: "c = x * 4096 + y * 64 + z" "0x800 \<le> c" "is_scalar c"
  shows "from_utf8 (of_nat (0xE0 + x) # of_nat (0x80 + y) # of_nat (0x80 + z) # bs)
    = map_option ((#) c) (from_utf8 bs)"
proof -
  have b: "unat (of_nat (0xE0 + x) :: byte) = 0xE0 + x" "unat (of_nat (0x80 + y) :: byte) = 0x80 + y"
    "unat (of_nat (0x80 + z) :: byte) = 0x80 + z"
    using assms(1-3) by (intro unat_byte; linarith)+
  have v: "(0xE0 + x - 0xE0) * 4096 + (0x80 + y - 0x80) * 64 + (0x80 + z - 0x80) = c"
    by (simp add: c)
  show ?thesis
    unfolding from_utf8.simps cont_byte_def list.case b v Let_def using assms(1-3) c(2,3) by simp
qed

lemma from_utf8_4:
  assumes "x < 5" "y < 64" "z < 64" "w < 64"
    and c: "c = x * 262144 + y * 4096 + z * 64 + w" "0x10000 \<le> c" "is_scalar c"
  shows "from_utf8 (of_nat (0xF0 + x) # of_nat (0x80 + y) # of_nat (0x80 + z) # of_nat (0x80 + w) # bs)
    = map_option ((#) c) (from_utf8 bs)"
proof -
  have b: "unat (of_nat (0xF0 + x) :: byte) = 0xF0 + x" "unat (of_nat (0x80 + y) :: byte) = 0x80 + y"
    "unat (of_nat (0x80 + z) :: byte) = 0x80 + z" "unat (of_nat (0x80 + w) :: byte) = 0x80 + w"
    using assms(1-4) by (intro unat_byte; linarith)+
  have v: "(0xF0 + x - 0xF0) * 262144 + (0x80 + y - 0x80) * 4096 + (0x80 + z - 0x80) * 64
    + (0x80 + w - 0x80) = c"
    by (simp add: c)
  show ?thesis
    unfolding from_utf8.simps cont_byte_def list.case b v Let_def using assms(1-4) c(2,3) by simp
qed

lemma from_utf8_char:
  assumes "is_scalar c"
  shows "from_utf8 (utf8_char c @ bs) = map_option ((#) c) (from_utf8 bs)"
proof -
  have lim: "c < 0x110000" using assms by (auto simp: is_scalar_def)
  consider "c < 0x80" | "0x80 \<le> c" "c < 0x800" | "0x800 \<le> c" "c < 0x10000" | "0x10000 \<le> c"
    by linarith
  then show ?thesis
  proof cases
    case 1
    then show ?thesis by (simp add: utf8_char_def from_utf8_1 del: from_utf8.simps)
  next
    case 2
    have "c div 64 < 32" "2 \<le> c div 64"
      using 2 by (auto intro: less_mult_imp_div_less simp: less_eq_div_iff_mult_less_eq)
    from from_utf8_2 [OF this(2,1), of "c mod 64" bs] 2 show ?thesis
      by (simp add: utf8_char_def del: from_utf8.simps of_nat_add)
  next
    case 3
    have "c div 4096 < 16" using 3 by (auto intro: less_mult_imp_div_less)
    from from_utf8_3 [OF this _ _ digits_64(1) [symmetric] 3(1) assms] 3 show ?thesis
      by (simp add: utf8_char_def del: from_utf8.simps of_nat_add)
  next
    case 4
    have "c div 262144 < 5" using lim by (auto intro: less_mult_imp_div_less)
    from from_utf8_4 [OF this _ _ _ digits_64(2) [symmetric] 4 assms] 4 show ?thesis
      by (simp add: utf8_char_def del: from_utf8.simps of_nat_add)
  qed
qed

lemma from_utf8_utf8 [codec_simps]: "valid_str s \<Longrightarrow> from_utf8 (utf8 s) = Some s"
  by (induction s) (simp_all add: from_utf8_char)

end
