(* ===== verification/Types.thy ===== *)
theory Types
  imports RustStr
begin

text \<open>
  \<open>src/error.rs\<close> and \<open>src/types.rs\<close>: the crate's error type, the metric entry
  that flows through the pipeline, and the sanitizing of names and labels done when an
  entry is built. Floating point samples are carried, never computed with, by this part;
  \<open>f64\<close> keeps the finite values apart from the infinities and NaN because the
  JSON payload does.
\<close>

section \<open>Errors\<close>

datatype error =
    AlreadyInitialized
  | NotInitialized
  | InvalidConfig rstr
  | Storage rstr
  | Prometheus rstr
  | Io rstr
  | ChannelClosed

definition error_display :: "error \<Rightarrow> rstr" where
  "error_display e =
     (case e of
        AlreadyInitialized \<Rightarrow> lit ''tonggeret already initialized''
      | NotInitialized \<Rightarrow> lit ''tonggeret not initialized; call tonggeret::init() first''
      | InvalidConfig m \<Rightarrow> lit ''invalid config: '' @ m
      | Storage m \<Rightarrow> lit ''storage error: '' @ m
      | Prometheus m \<Rightarrow> lit ''prometheus error: '' @ m
      | Io m \<Rightarrow> lit ''io error: '' @ m
      | ChannelClosed \<Rightarrow> lit ''metrics pipeline closed'')"

text \<open>\<open>impl From<std::io::Error> for Error\<close>, an I/O error being its message.\<close>

definition error_from_io :: "rstr \<Rightarrow> error" where
  "error_from_io e = Io e"

section \<open>Metric types and entries\<close>

datatype metric_type = Counter | Gauge | Histogram

definition as_str :: "metric_type \<Rightarrow> rstr" where
  "as_str m =
     (case m of
        Counter \<Rightarrow> lit ''counter''
      | Gauge \<Rightarrow> lit ''gauge''
      | Histogram \<Rightarrow> lit ''histogram'')"

text \<open>\<open>Display\<close>\<close>

definition metric_type_display :: "metric_type \<Rightarrow> rstr" where
  "metric_type_display m = as_str m"

definition metric_type_from_str :: "rstr \<Rightarrow> error + metric_type" where
  "metric_type_from_str s =
     (if s = lit ''counter'' then Inr Counter
      else if s = lit ''gauge'' then Inr Gauge
      else if s = lit ''histogram'' then Inr Histogram
      else Inl (InvalidConfig
        (lit ''unknown metric type `'' @ s @ lit ''`, expected counter|gauge|histogram'')))"

datatype f64 = Fin real | PosInf | NegInf | NaN

type_synonym label = "rstr \<times> rstr"

text \<open>\<open>SystemTime\<close> is nanoseconds relative to the Unix epoch, possibly negative.\<close>

record metric_entry =
  timestamp :: int
  name :: rstr
  sample :: f64
  metric_kind :: metric_type
  labels :: "label list"

datatype pipeline_msg = Metric metric_entry | Shutdown

section \<open>Sanitizing\<close>

definition name_char_ok :: "nat \<Rightarrow> nat \<Rightarrow> bool" where
  "name_char_ok i c =
     (if i = 0 then is_ascii_alphabetic c \<or> c = 95 \<or> c = 58
      else is_ascii_alphanumeric c \<or> c = 95 \<or> c = 58)"

fun sanitize_chars :: "nat \<Rightarrow> rstr \<Rightarrow> rstr" where
  "sanitize_chars i [] = []"
| "sanitize_chars i (c # cs) = (if name_char_ok i c then c else 95) # sanitize_chars (Suc i) cs"

definition sanitize_metric_name :: "rstr \<Rightarrow> rstr" where
  "sanitize_metric_name nm =
     (let out = sanitize_chars 0 nm in if out = [] then lit ''_unnamed'' else out)"

definition MAX_PAIRS :: nat where "MAX_PAIRS = 16"
definition MAX_KEY :: nat where "MAX_KEY = 128"
definition MAX_VAL :: nat where "MAX_VAL = 256"

text \<open>
  The closure of \<open>filter_map\<close>: \<open>None\<close> drops the pair. \<open>truncate\<close> panics
  inside a character.
\<close>

definition sanitize_pair :: "label \<Rightarrow> label option res" where
  "sanitize_pair kv =
     (let k = fst kv; v = snd kv; key = sanitize_metric_name (trim k)
      in if key = [] \<or> key = lit ''_unnamed'' \<and> trim k = [] then Ret None
         else
           bind_res (if MAX_KEY < str_len key then str_truncate MAX_KEY key else Ret key) (\<lambda>key'.
           bind_res (if MAX_VAL < str_len v then str_truncate MAX_VAL v else Ret v) (\<lambda>val.
             Ret (Some (key', val)))))"

text \<open>
  \<open>filter_map(..).take(n).collect()\<close>: the iterator is lazy, so once \<open>n\<close> pairs
  are kept the closure is not run on the rest.
\<close>

fun sanitize_take :: "nat \<Rightarrow> label list \<Rightarrow> label list res" where
  "sanitize_take 0 kvs = Ret []"
| "sanitize_take (Suc n) [] = Ret []"
| "sanitize_take (Suc n) (kv # kvs) =
     bind_res (sanitize_pair kv) (\<lambda>r.
       case r of
         None \<Rightarrow> sanitize_take (Suc n) kvs
       | Some q \<Rightarrow> map_res ((#) q) (sanitize_take n kvs))"

definition sanitize_labels :: "label list \<Rightarrow> label list res" where
  "sanitize_labels kvs = sanitize_take MAX_PAIRS kvs"

definition label_names_and_values :: "label list \<Rightarrow> rstr list \<times> rstr list" where
  "label_names_and_values ls = (map fst ls, map snd ls)"

text \<open>\<open>MetricEntry::new\<close>; the clock reading \<open>now\<close> is an argument.\<close>

definition metric_entry_new ::
  "int \<Rightarrow> rstr \<Rightarrow> f64 \<Rightarrow> metric_type \<Rightarrow> label list \<Rightarrow> metric_entry res" where
  "metric_entry_new now nm v mt ls =
     map_res (\<lambda>ls'. \<lparr>timestamp = now, name = sanitize_metric_name nm, sample = v,
                     metric_kind = mt, labels = ls'\<rparr>)
       (sanitize_labels ls)"

section \<open>What sanitizing promises\<close>

text \<open>The exposition format's \<open>[a-zA-Z_:][a-zA-Z0-9_:]*\<close>.\<close>

definition name_tail_ok :: "nat \<Rightarrow> bool" where
  "name_tail_ok c \<longleftrightarrow> is_ascii_alphanumeric c \<or> c = 95 \<or> c = 58"

fun valid_name :: "rstr \<Rightarrow> bool" where
  "valid_name [] = False"
| "valid_name (c # cs) \<longleftrightarrow> name_char_ok 0 c \<and> list_all name_tail_ok cs"

lemma name_char_ok_underscore [simp]: "name_char_ok i 95"
  by (simp add: name_char_ok_def)

lemma name_tail_ok_underscore [simp]: "name_tail_ok 95"
  by (simp add: name_tail_ok_def)

lemma name_char_ok_Suc [simp]: "name_char_ok (Suc i) c = name_tail_ok c"
  by (simp add: name_char_ok_def name_tail_ok_def)

lemma name_char_ok_ascii: "name_char_ok i c \<Longrightarrow> c < 128"
  by (auto simp: name_char_ok_def ascii_defs split: if_splits)

lemma name_tail_ok_ascii: "name_tail_ok c \<Longrightarrow> c < 128"
  by (auto simp: name_tail_ok_def ascii_defs)

lemma length_sanitize_chars [simp]: "length (sanitize_chars i cs) = length cs"
  by (induction cs arbitrary: i) auto

lemma sanitize_chars_eq_Nil [simp]: "sanitize_chars i cs = [] \<longleftrightarrow> cs = []"
  by (cases cs) auto

lemma sanitize_chars_tail: "list_all name_tail_ok (sanitize_chars (Suc i) cs)"
  by (induction cs arbitrary: i) auto

lemma sanitize_chars_id: "list_all name_tail_ok cs \<Longrightarrow> sanitize_chars (Suc i) cs = cs"
  by (induction cs arbitrary: i) auto

lemma valid_name_unnamed [simp]: "valid_name (lit ''_unnamed'')"
  by (simp add: lit_def name_char_ok_def name_tail_ok_def ascii_defs)

lemma valid_name_sanitize_chars: "nm \<noteq> [] \<Longrightarrow> valid_name (sanitize_chars 0 nm)"
  by (cases nm) (use sanitize_chars_tail [of 0] in auto)

lemma sanitize_name_valid [simp]: "valid_name (sanitize_metric_name nm)"
  by (auto simp: sanitize_metric_name_def Let_def valid_name_sanitize_chars)

lemma sanitize_name_id: "valid_name nm \<Longrightarrow> sanitize_metric_name nm = nm"
  by (cases nm) (auto simp: sanitize_metric_name_def Let_def sanitize_chars_id)

lemma sanitize_name_not_Nil [simp]: "sanitize_metric_name nm \<noteq> []"
  using sanitize_name_valid [of nm] by (cases "sanitize_metric_name nm") simp_all

lemma valid_name_ascii: "valid_name nm \<Longrightarrow> is_ascii nm"
  by (cases nm) (auto simp: is_ascii_iff list_all_iff dest: name_char_ok_ascii name_tail_ok_ascii)

lemma valid_name_take: "valid_name nm \<Longrightarrow> 0 < n \<Longrightarrow> valid_name (take n nm)"
  by (cases nm; cases n) (auto simp: list_all_iff dest: in_set_takeD)

lemma length_sanitize_name: "nm \<noteq> [] \<Longrightarrow> length (sanitize_metric_name nm) = length nm"
  by (simp add: sanitize_metric_name_def Let_def)

lemma sanitize_name_Nil: "sanitize_metric_name [] = lit ''_unnamed''"
  by (simp add: sanitize_metric_name_def)

text \<open>
  What a kept pair becomes, and when its value can be cut: the shape of the result of
  \<open>sanitize_labels\<close> without the iterator.
\<close>

definition has_cut :: "nat \<Rightarrow> rstr \<Rightarrow> bool" where
  "has_cut n s \<longleftrightarrow> str_len s \<le> n \<or> take_bytes n s \<noteq> None"

definition cut_to :: "nat \<Rightarrow> rstr \<Rightarrow> rstr" where
  "cut_to n s = (if str_len s \<le> n then s else case take_bytes n s of Some t \<Rightarrow> t | None \<Rightarrow> s)"

definition named_pair :: "label \<Rightarrow> bool" where
  "named_pair kv \<longleftrightarrow> trim (fst kv) \<noteq> []"

definition clean_pair :: "label \<Rightarrow> label" where
  "clean_pair kv = (take 128 (sanitize_metric_name (trim (fst kv))), cut_to 256 (snd kv))"

lemma str_len_cut_to: "has_cut n s \<Longrightarrow> str_len (cut_to n s) \<le> n"
  by (auto simp: has_cut_def cut_to_def dest: take_bytes_Some split: option.splits)

lemma has_cut_ascii: "is_ascii s \<Longrightarrow> has_cut n s"
  by (auto simp: has_cut_def str_len_ascii take_bytes_ascii)

lemma truncated_value:
  "(if n < str_len s then str_truncate n s else Ret s)
     = (if has_cut n s then Ret (cut_to n s) else Panicked TruncateBoundary)"
  by (auto simp: str_truncate_def has_cut_def cut_to_def split: option.splits)

lemma truncated_key:
  "(if MAX_KEY < str_len (sanitize_metric_name k) then str_truncate MAX_KEY (sanitize_metric_name k)
    else Ret (sanitize_metric_name k)) = Ret (take 128 (sanitize_metric_name k))"
  using valid_name_ascii [OF sanitize_name_valid [of k]]
  by (simp add: MAX_KEY_def str_truncate_ascii str_len_ascii)

lemma sanitize_pair_eq:
  "sanitize_pair kv =
     (if \<not> named_pair kv then Ret None
      else if has_cut 256 (snd kv) then Ret (Some (clean_pair kv))
      else Panicked TruncateBoundary)"
  unfolding sanitize_pair_def Let_def truncated_key
  unfolding truncated_value
  by (simp add: named_pair_def sanitize_name_Nil clean_pair_def MAX_VAL_def)

lemma sanitize_take_eq:
  "sanitize_take n kvs =
     (if list_all (\<lambda>kv. has_cut 256 (snd kv)) (take n (filter named_pair kvs))
      then Ret (map clean_pair (take n (filter named_pair kvs)))
      else Panicked TruncateBoundary)"
  by (induction n kvs rule: sanitize_take.induct) (auto simp: sanitize_pair_eq)

definition wf_label :: "label \<Rightarrow> bool" where
  "wf_label kv \<longleftrightarrow> valid_name (fst kv) \<and> str_len (fst kv) \<le> 128 \<and> str_len (snd kv) \<le> 256"

definition wf_entry :: "metric_entry \<Rightarrow> bool" where
  "wf_entry e \<longleftrightarrow> valid_name (name e) \<and> length (labels e) \<le> 16 \<and> list_all wf_label (labels e)"

lemma wf_clean_pair: "has_cut 256 (snd kv) \<Longrightarrow> wf_label (clean_pair kv)"
proof -
  assume cut: "has_cut 256 (snd kv)"
  let ?k = "take 128 (sanitize_metric_name (trim (fst kv)))"
  have "valid_name ?k" by (simp add: valid_name_take)
  then show ?thesis
    using cut str_len_cut_to [OF cut] str_len_ascii [OF valid_name_ascii [of ?k]]
    by (simp add: wf_label_def clean_pair_def)
qed

text \<open>Well-formed labels are left as they are.\<close>

lemma trim_none: "list_all (\<lambda>c. \<not> is_whitespace c) s \<Longrightarrow> trim s = s"
proof -
  assume "list_all (\<lambda>c. \<not> is_whitespace c) s"
  then have "dropWhile is_whitespace s = s" "dropWhile is_whitespace (rev s) = rev s"
    by (auto intro!: dropWhile_none simp: list_all_iff)
  then show ?thesis by (simp add: trim_def)
qed

lemma trim_valid_name: "valid_name k \<Longrightarrow> trim k = k"
proof (rule trim_none)
  assume "valid_name k"
  then have "c \<in> set k \<Longrightarrow> name_tail_ok c" for c
    by (cases k) (auto simp: list_all_iff name_tail_ok_def name_char_ok_def ascii_defs)
  then show "list_all (\<lambda>c. \<not> is_whitespace c) k"
    by (fastforce simp: list_all_iff name_tail_ok_def ascii_defs is_whitespace_def)
qed

lemma clean_pair_id: "wf_label kv \<Longrightarrow> clean_pair kv = kv \<and> named_pair kv \<and> has_cut 256 (snd kv)"
proof -
  assume wf: "wf_label kv"
  then have "valid_name (fst kv)" "length (fst kv) \<le> 128"
    using length_le_str_len [of "fst kv"] by (simp_all add: wf_label_def)
  then show ?thesis
    using wf by (cases kv) (auto simp: clean_pair_def named_pair_def trim_valid_name sanitize_name_id
        cut_to_def wf_label_def has_cut_def)
qed

lemma sanitize_labels_id:
  assumes "list_all wf_label ls" "length ls \<le> 16"
  shows "sanitize_labels ls = Ret ls"
proof -
  have "filter named_pair ls = ls" "map clean_pair ls = ls" "list_all (\<lambda>kv. has_cut 256 (snd kv)) ls"
    using assms(1) clean_pair_id by (auto simp: list_all_iff intro!: map_idI)
  then show ?thesis using assms(2) by (simp add: sanitize_labels_def sanitize_take_eq MAX_PAIRS_def)
qed

lemma sanitize_labels_wf:
  "sanitize_labels kvs = Ret out \<Longrightarrow> length out \<le> 16 \<and> list_all wf_label out"
  by (auto simp: sanitize_labels_def sanitize_take_eq MAX_PAIRS_def list.pred_map comp_def
      elim!: list.pred_mono_strong intro!: wf_clean_pair split: if_splits)

lemma metric_entry_new_Ret:
  "metric_entry_new now nm v mt ls = Ret e \<longleftrightarrow>
     (\<exists>ls'. sanitize_labels ls = Ret ls' \<and>
        e = \<lparr>timestamp = now, name = sanitize_metric_name nm, sample = v, metric_kind = mt, labels = ls'\<rparr>)"
  by (auto simp: metric_entry_new_def)

lemmas str_eval = lit_def str_len_def utf8_len_def trim_def is_whitespace_def
  sanitize_metric_name_def name_char_ok_def name_tail_ok_def ascii_defs

section \<open>Properties\<close>

text \<open>
  C34: a sanitized metric name always matches the exposition format's grammar, and
  sanitizing changes a name exactly when the name does not match it; so it is idempotent.
\<close>

theorem sanitize_metric_name_canonical:
  "valid_name (sanitize_metric_name nm) \<and> (sanitize_metric_name nm = nm \<longleftrightarrow> valid_name nm)"
  by (metis sanitize_name_valid sanitize_name_id)

text \<open>
  C32: \<open>sanitize_labels\<close> keeps the first sixteen pairs whose trimmed key is not empty,
  in order, each with its key sanitized and cut to 128 bytes and its value cut to 256
  bytes; it panics exactly when one of those sixteen values has more than 256 bytes and
  byte 256 is inside a character. Pairs after the sixteenth cannot make it panic.
\<close>

theorem sanitize_labels_spec:
  "sanitize_labels kvs =
     (let kept = take 16 (filter named_pair kvs)
      in if list_all (\<lambda>kv. has_cut 256 (snd kv)) kept then Ret (map clean_pair kept)
         else Panicked TruncateBoundary)"
  by (simp add: sanitize_labels_def sanitize_take_eq MAX_PAIRS_def Let_def)

text \<open>
  C33: every entry that \<open>MetricEntry::new\<close> returns is within the cardinality and
  memory limits: a valid name, at most 16 labels, valid keys of at most 128 bytes, values
  of at most 256 bytes; and it is a fixed point, so that building an entry from its name
  and labels again changes nothing.
\<close>

theorem metric_entry_new_wf:
  assumes "metric_entry_new now nm v mt ls = Ret e"
  shows "wf_entry e \<and> metric_entry_new now (name e) v mt (labels e) = Ret e"
proof -
  obtain ls' where ls': "sanitize_labels ls = Ret ls'"
    "e = \<lparr>timestamp = now, name = sanitize_metric_name nm, sample = v, metric_kind = mt, labels = ls'\<rparr>"
    using assms by (auto simp: metric_entry_new_Ret)
  from sanitize_labels_wf [OF ls'(1)] have wf: "length ls' \<le> 16" "list_all wf_label ls'" by simp_all
  then show ?thesis
    using sanitize_labels_id [OF wf(2,1)] by (simp add: ls'(2) wf_entry_def metric_entry_new_def sanitize_name_id)
qed

theorem metric_entry_new_wf_witness:
  "wf_entry \<lparr>timestamp = 5, name = lit ''http_total'', sample = Fin 1, metric_kind = Counter,
     labels = [(lit ''a_b'', lit ''x'')]\<rparr>"
proof (rule conjunct1 [OF metric_entry_new_wf])
  show "metric_entry_new 5 (lit ''http.total'') (Fin 1) Counter [(lit '' '', []), (lit ''a-b '', lit ''x'')]
    = Ret \<lparr>timestamp = 5, name = lit ''http_total'', sample = Fin 1, metric_kind = Counter,
     labels = [(lit ''a_b'', lit ''x'')]\<rparr>"
    by (simp add: metric_entry_new_Ret sanitize_labels_def sanitize_take_eq MAX_PAIRS_def
        named_pair_def clean_pair_def has_cut_def cut_to_def str_eval)
qed

text \<open>
  A label value of 257 bytes whose last character starts at byte 255 makes
  building the entry panic, although the macros are documented never to fail: the limit
  is counted in bytes and \<open>String::truncate\<close> asserts a character boundary.
\<close>

lemma metric_entry_new_panics:
  "metric_entry_new now nm v mt [(lit ''k'', replicate 255 97 @ [233])] = Panicked TruncateBoundary"
proof -
  have "take_bytes 256 (replicate 255 97 @ [233]) = None"
    using take_bytes_ascii_append [of "replicate 255 97" 1 "[233]"]
    by (simp add: is_ascii_iff utf8_len_def)
  then show ?thesis
    by (simp add: metric_entry_new_def sanitize_labels_def sanitize_take_eq MAX_PAIRS_def
        named_pair_def has_cut_def utf8_len_def str_len_def lit_def trim_def is_whitespace_def
        sum_list_replicate)
qed

text \<open>
  Parsing a metric type accepts exactly the three canonical identifiers, and
  inverts \<open>as_str\<close>.
\<close>

lemma metric_type_from_str_iff: "metric_type_from_str s = Inr m \<longleftrightarrow> s = as_str m"
  by (cases m) (auto simp: metric_type_from_str_def as_str_def lit_def)

text \<open>What \<open>Display\<close> prints, \<open>FromStr\<close> reads back.\<close>

lemma metric_type_roundtrip: "metric_type_from_str (metric_type_display m) = Inr m"
  by (simp add: metric_type_from_str_iff metric_type_display_def)

end
