(* ===== verification/Config.thy ===== *)
theory Config
  imports Types
begin

text \<open>
  \<open>src/config.rs\<close>: the configuration records, their defaults and builders, the
  effective cold directory, the memory budget and the validation \<open>init\<close> runs first.
  Cargo features select code at compile time; a \<open>features\<close> record carries the two
  that matter to the core. \<open>usize\<close> fields are only stored and compared and are
  natural numbers; a \<open>Duration\<close> is a number of nanoseconds.
\<close>

record features =
  fjall_backend :: bool
  prometheus_exporter :: bool

section \<open>Paths\<close>

text \<open>A \<open>PathBuf\<close> as its components (\<open>std::path::Component\<close>).\<close>

datatype path_component = RootDir | CurDir | ParentDir | Normal rstr

type_synonym path = "path_component list"

definition path_parent :: "path \<Rightarrow> path option" where
  "path_parent p =
     (case rev p of
        [] \<Rightarrow> None
      | RootDir # _ \<Rightarrow> None
      | _ # r \<Rightarrow> Some (rev r))"

definition path_join :: "path \<Rightarrow> rstr \<Rightarrow> path" where
  "path_join p file = p @ [Normal file]"

text \<open>\<open>Path::display\<close> of a path in this form.\<close>

fun component_str :: "path_component \<Rightarrow> rstr" where
  "component_str RootDir = []"
| "component_str CurDir = lit ''.''"
| "component_str ParentDir = lit ''..''"
| "component_str (Normal s) = s"

fun path_display :: "path \<Rightarrow> rstr" where
  "path_display [] = []"
| "path_display [RootDir] = lit ''/''"
| "path_display [c] = component_str c"
| "path_display (c # p) = component_str c @ lit ''/'' @ path_display p"

section \<open>Configuration records\<close>

definition from_secs :: "nat \<Rightarrow> nat" where
  "from_secs n = n * 1000000000"

record fjall_config =
  dir :: path
  cache_size_bytes :: u64
  memtable_bytes :: u32
  cold_storage_dir :: "path option"
  enable_compaction :: bool
  compaction_interval :: nat
  retention :: nat
  batch_rows :: nat

definition fjall_config_default :: fjall_config where
  "fjall_config_default =
     \<lparr>dir = [CurDir, Normal (lit ''data''), Normal (lit ''fjall'')],
      cache_size_bytes = 8 * 1024 * 1024,
      memtable_bytes = 2 * 1024 * 1024,
      cold_storage_dir = None,
      enable_compaction = True,
      compaction_interval = from_secs 3600,
      retention = from_secs (24 * 3600),
      batch_rows = 1000\<rparr>"

definition fjall_config_new :: "path \<Rightarrow> fjall_config" where
  "fjall_config_new d = fjall_config_default\<lparr>dir := d\<rparr>"

definition cold_dir :: "fjall_config \<Rightarrow> path" where
  "cold_dir c =
     (case cold_storage_dir c of
        Some d \<Rightarrow> d
      | None \<Rightarrow> (case path_parent (dir c) of None \<Rightarrow> [CurDir] | Some p \<Rightarrow> p))"

definition saturating_add :: "u64 \<Rightarrow> u64 \<Rightarrow> u64" where
  "saturating_add a b = (if unat a + unat b < 2 ^ 64 then a + b else - 1)"

definition memory_budget_bytes :: "fjall_config \<Rightarrow> u64" where
  "memory_budget_bytes c = saturating_add (cache_size_bytes c) (ucast (memtable_bytes c))"

definition fjall_validate :: "fjall_config \<Rightarrow> error + unit" where
  "fjall_validate c =
     (if cache_size_bytes c < 1024 * 1024
      then Inl (InvalidConfig (lit ''fjall.cache_size_bytes must be >= 1 MiB''))
      else if memtable_bytes c < 256 * 1024
      then Inl (InvalidConfig (lit ''fjall.memtable_bytes must be >= 256 KiB''))
      else if batch_rows c = 0
      then Inl (InvalidConfig (lit ''fjall.batch_rows must be > 0''))
      else Inr ())"

record prometheus_config =
  default_histogram_buckets :: "f64 list"

definition prometheus_config_default :: prometheus_config where
  "prometheus_config_default =
     \<lparr>default_histogram_buckets =
        [Fin 5, Fin 10, Fin 25, Fin 50, Fin 100, Fin 250, Fin 500, Fin 1000, Fin 2500]\<rparr>"

record config =
  channel_capacity :: nat
  fjall :: "fjall_config option"
  prometheus :: prometheus_config

text \<open>\<open>#[derive(Default)]\<close>: every field its own default.\<close>

definition config_derived_default :: config where
  "config_derived_default =
     \<lparr>channel_capacity = 0, fjall = None, prometheus = prometheus_config_default\<rparr>"

definition default_light :: config where
  "default_light =
     \<lparr>channel_capacity = 16384, fjall = None, prometheus = prometheus_config_default\<rparr>"

definition default_full :: "path \<Rightarrow> config" where
  "default_full d =
     \<lparr>channel_capacity = 16384, fjall = Some (fjall_config_new d),
      prometheus = prometheus_config_default\<rparr>"

definition with_channel_capacity :: "nat \<Rightarrow> config \<Rightarrow> config" where
  "with_channel_capacity cap c = c\<lparr>channel_capacity := cap\<rparr>"

definition with_fjall :: "fjall_config \<Rightarrow> config \<Rightarrow> config" where
  "with_fjall db c = c\<lparr>fjall := Some db\<rparr>"

definition config_validate :: "features \<Rightarrow> config \<Rightarrow> error + unit" where
  "config_validate ft c =
     (if channel_capacity c < 16
      then Inl (InvalidConfig (lit ''channel_capacity must be >= 16''))
      else if default_histogram_buckets (prometheus c) = []
      then Inl (InvalidConfig (lit ''prometheus.default_histogram_buckets must not be empty''))
      else if \<not> fjall_backend ft \<and> fjall c \<noteq> None
      then Inl (InvalidConfig
             (lit ''fjall config supplied but `fjall-backend` feature is not enabled''))
      else if fjall_backend ft
      then (case fjall c of None \<Rightarrow> Inr () | Some db \<Rightarrow> fjall_validate db)
      else Inr ())"

section \<open>Facts\<close>

definition usable_fjall :: "fjall_config \<Rightarrow> bool" where
  "usable_fjall db \<longleftrightarrow>
     2 ^ 20 \<le> unat (cache_size_bytes db) \<and> 2 ^ 18 \<le> unat (memtable_bytes db) \<and> 0 < batch_rows db"

lemma fjall_validate_iff: "fjall_validate db = Inr () \<longleftrightarrow> usable_fjall db"
  by (simp add: fjall_validate_def usable_fjall_def word_less_nat_alt linorder_not_less)

lemma usable_default: "usable_fjall (fjall_config_new d)"
  by (simp add: usable_fjall_def fjall_config_new_def fjall_config_default_def)

lemma path_parent_snoc: "c \<noteq> RootDir \<Longrightarrow> path_parent (p @ [c]) = Some p"
  by (cases c) (auto simp: path_parent_def)

lemma unat_saturating_add: "unat (saturating_add a b) = min (2 ^ 64 - 1) (unat a + unat b)"
  by (auto simp: saturating_add_def unat_word_ariths unsigned_minus_1_eq_mask mask_eq_exp_minus_1)

lemma config_validate_iff:
  "config_validate ft c = Inr () \<longleftrightarrow>
     16 \<le> channel_capacity c \<and> default_histogram_buckets (prometheus c) \<noteq> [] \<and>
     (case fjall c of None \<Rightarrow> True | Some db \<Rightarrow> fjall_backend ft \<and> usable_fjall db)"
  by (auto simp: config_validate_def fjall_validate_iff split: option.splits)

section \<open>Properties\<close>

text \<open>
  \<open>Config::validate\<close> accepts exactly the configurations with a channel of at
  least 16 slots, at least one histogram bucket, and, when a Fjall backend is requested,
  the feature compiled in, at least 1 MiB of cache, 256 KiB of memtable and one row per
  batch.
\<close>

lemma config_validate_exact:
  "config_validate ft c = Inr () \<longleftrightarrow>
     16 \<le> channel_capacity c \<and> default_histogram_buckets (prometheus c) \<noteq> [] \<and>
     (case fjall c of
        None \<Rightarrow> True
      | Some db \<Rightarrow> fjall_backend ft \<and> 2 ^ 20 \<le> unat (cache_size_bytes db) \<and>
          2 ^ 18 \<le> unat (memtable_bytes db) \<and> 0 < batch_rows db)"
  by (simp add: config_validate_iff usable_fjall_def split: option.split)

text \<open>
  The two named presets are accepted (the dual-mode one when the backend is
  compiled in), but \<open>Config::default()\<close>, which the derive makes public, is
  rejected by \<open>init\<close>: its channel capacity is zero.
\<close>

lemma presets_validate:
  "config_validate ft default_light = Inr () \<and>
   (config_validate ft (default_full d) = Inr () \<longleftrightarrow> fjall_backend ft) \<and>
   config_validate ft config_derived_default =
     Inl (InvalidConfig (lit ''channel_capacity must be >= 16''))"
proof -
  have "config_validate ft config_derived_default =
      Inl (InvalidConfig (lit ''channel_capacity must be >= 16''))"
    by (simp add: config_validate_def config_derived_default_def)
  then show ?thesis
    using usable_default [of d]
    by (simp add: config_validate_iff default_light_def default_full_def prometheus_config_default_def)
qed

text \<open>
  The reported memory budget is cache plus memtable, saturating instead of
  wrapping; for the defaults it is 10 MiB.
\<close>

lemma memory_budget_exact:
  "unat (memory_budget_bytes c) =
     min (2 ^ 64 - 1) (unat (cache_size_bytes c) + unat (memtable_bytes c)) \<and>
   unat (memory_budget_bytes (fjall_config_new d)) = 10 * 2 ^ 20"
proof -
  have "unat (ucast (m :: u32) :: u64) = unat m" for m
    using unat_u32_less [of m] by (simp add: unsigned_ucast_eq take_bit_nat_eq_self)
  then show ?thesis
    by (simp add: memory_budget_bytes_def unat_saturating_add fjall_config_new_def
        fjall_config_default_def)
qed

text \<open>
  Without an explicit cold directory the exports go to the parent of the
  keyspace directory, so never inside the keyspace itself.
\<close>

lemma cold_dir_default:
  "cold_dir (fjall_config_new (p @ [Normal n])) = p"
  by (simp add: cold_dir_def fjall_config_new_def fjall_config_default_def path_parent_snoc)

end
