(* ===== verification/PromRegistry.thy ===== *)
theory PromRegistry
  imports Types
begin

text \<open>
  \<open>src/prometheus.rs\<close>: the private registry with its three lazily filled collector
  maps. The \<open>prometheus\<close> crate is an argument: \<open>prom_api\<close> holds the calls the
  code makes, over an opaque world \<open>'pw\<close> (the registry and the shared metric
  storage) and opaque collector handles \<open>'h\<close>. What the code relies on is the
  predicate \<open>prom_spec\<close>, stated over a view of the world: which handle has which name
  and variable labels, which names are registered, and the samples applied to each series.
\<close>

section \<open>The crate's interface\<close>

record ('pw, 'h) prom_api =
  registry_new :: 'pw
  counter_with_opts :: "rstr \<Rightarrow> rstr \<Rightarrow> 'pw \<Rightarrow> (rstr + 'h) \<times> 'pw"
  counter_vec_new :: "rstr \<Rightarrow> rstr \<Rightarrow> rstr list \<Rightarrow> 'pw \<Rightarrow> (rstr + 'h) \<times> 'pw"
  gauge_vec_new :: "rstr \<Rightarrow> rstr \<Rightarrow> rstr list \<Rightarrow> 'pw \<Rightarrow> (rstr + 'h) \<times> 'pw"
  histogram_vec_new ::
    "rstr \<Rightarrow> rstr \<Rightarrow> f64 list \<Rightarrow> rstr list \<Rightarrow> 'pw \<Rightarrow> (rstr + 'h) \<times> 'pw"
  register :: "'h \<Rightarrow> 'pw \<Rightarrow> (rstr + unit) \<times> 'pw"
  counter_inc :: "'h \<Rightarrow> 'pw \<Rightarrow> 'pw"
  with_values_inc_by :: "'h \<Rightarrow> rstr list \<Rightarrow> f64 \<Rightarrow> 'pw \<Rightarrow> unit res \<times> 'pw"
  with_values_set :: "'h \<Rightarrow> rstr list \<Rightarrow> f64 \<Rightarrow> 'pw \<Rightarrow> unit res \<times> 'pw"
  with_values_observe :: "'h \<Rightarrow> rstr list \<Rightarrow> f64 \<Rightarrow> 'pw \<Rightarrow> unit res \<times> 'pw"
  gather_encode :: "'pw \<Rightarrow> rstr + byte list"

section \<open>The registry\<close>

record ('pw, 'h) prom_registry =
  registry :: 'pw
  counters :: "(rstr \<rightharpoonup> 'h) lock"
  gauges :: "(rstr \<rightharpoonup> 'h) lock"
  histograms :: "(rstr \<rightharpoonup> 'h) lock"
  dropped_counter :: 'h
  default_buckets :: "f64 list"

definition dropped_name :: rstr where
  "dropped_name = lit ''tonggeret_dropped_total''"

definition prom_registry_new ::
  "('pw, 'h) prom_api \<Rightarrow> f64 list \<Rightarrow> error + ('pw, 'h) prom_registry" where
  "prom_registry_new api buckets =
     (case counter_with_opts api dropped_name
             (lit ''Total metric samples dropped because the Fjall channel was full'')
             (registry_new api) of
        (Inl e, _) \<Rightarrow> Inl (Prometheus e)
      | (Inr h, w) \<Rightarrow>
          (case register api h w of
             (Inl e, _) \<Rightarrow> Inl (Prometheus e)
           | (Inr _, w') \<Rightarrow>
               Inr \<lparr>registry = w', counters = lock_new Map.empty, gauges = lock_new Map.empty,
                    histograms = lock_new Map.empty, dropped_counter = h,
                    default_buckets = buckets\<rparr>))"

text \<open>The three label checks: each accepts every call.\<close>

definition label_names_match :: "'h \<Rightarrow> rstr list \<Rightarrow> bool" where
  "label_names_match v names = True"

definition gauge_labels_match :: "'h \<Rightarrow> rstr list \<Rightarrow> bool" where
  "gauge_labels_match v names = True"

definition histogram_labels_match :: "'h \<Rightarrow> rstr list \<Rightarrow> bool" where
  "histogram_labels_match v names = True"

definition ensure_counter ::
  "('pw, 'h) prom_api \<Rightarrow> ('pw, 'h) prom_registry \<Rightarrow> rstr \<Rightarrow> rstr list
     \<Rightarrow> 'h option \<times> ('pw, 'h) prom_registry" where
  "ensure_counter api r nm names =
     (let fast = (if poisoned (counters r) then None
                  else case guarded (counters r) nm of
                         None \<Rightarrow> None
                       | Some v \<Rightarrow> Some (if label_names_match v names then Some v else None))
      in case fast of
           Some res \<Rightarrow> (res, r)
         | None \<Rightarrow>
             if poisoned (counters r) then (None, r)
             else (case guarded (counters r) nm of
                     Some v \<Rightarrow> (Some v, r)
                   | None \<Rightarrow>
                       (case counter_vec_new api nm (lit ''tonggeret counter '' @ nm) names (registry r) of
                          (Inl e, w) \<Rightarrow> (None, r\<lparr>registry := w\<rparr>)
                        | (Inr v, w) \<Rightarrow>
                            (case register api v w of
                               (Inl e, w') \<Rightarrow> (None, r\<lparr>registry := w'\<rparr>)
                             | (Inr _, w') \<Rightarrow>
                                 (Some v, r\<lparr>registry := w', counters :=
                                    (counters r)\<lparr>guarded := (guarded (counters r))(nm \<mapsto> v)\<rparr>\<rparr>)))))"

definition ensure_gauge ::
  "('pw, 'h) prom_api \<Rightarrow> ('pw, 'h) prom_registry \<Rightarrow> rstr \<Rightarrow> rstr list
     \<Rightarrow> 'h option \<times> ('pw, 'h) prom_registry" where
  "ensure_gauge api r nm names =
     (let fast = (if poisoned (gauges r) then None
                  else case guarded (gauges r) nm of
                         None \<Rightarrow> None
                       | Some v \<Rightarrow> Some (if gauge_labels_match v names then Some v else None))
      in case fast of
           Some res \<Rightarrow> (res, r)
         | None \<Rightarrow>
             if poisoned (gauges r) then (None, r)
             else (case guarded (gauges r) nm of
                     Some v \<Rightarrow> (Some v, r)
                   | None \<Rightarrow>
                       (case gauge_vec_new api nm (lit ''tonggeret gauge '' @ nm) names (registry r) of
                          (Inl e, w) \<Rightarrow> (None, r\<lparr>registry := w\<rparr>)
                        | (Inr v, w) \<Rightarrow>
                            (case register api v w of
                               (Inl e, w') \<Rightarrow> (None, r\<lparr>registry := w'\<rparr>)
                             | (Inr _, w') \<Rightarrow>
                                 (Some v, r\<lparr>registry := w', gauges :=
                                    (gauges r)\<lparr>guarded := (guarded (gauges r))(nm \<mapsto> v)\<rparr>\<rparr>)))))"

definition ensure_histogram ::
  "('pw, 'h) prom_api \<Rightarrow> ('pw, 'h) prom_registry \<Rightarrow> rstr \<Rightarrow> rstr list
     \<Rightarrow> 'h option \<times> ('pw, 'h) prom_registry" where
  "ensure_histogram api r nm names =
     (let fast = (if poisoned (histograms r) then None
                  else case guarded (histograms r) nm of
                         None \<Rightarrow> None
                       | Some v \<Rightarrow> Some (if histogram_labels_match v names then Some v else None))
      in case fast of
           Some res \<Rightarrow> (res, r)
         | None \<Rightarrow>
             if poisoned (histograms r) then (None, r)
             else (case guarded (histograms r) nm of
                     Some v \<Rightarrow> (Some v, r)
                   | None \<Rightarrow>
                       (case histogram_vec_new api nm (lit ''tonggeret histogram '' @ nm)
                               (default_buckets r) names (registry r) of
                          (Inl e, w) \<Rightarrow> (None, r\<lparr>registry := w\<rparr>)
                        | (Inr v, w) \<Rightarrow>
                            (case register api v w of
                               (Inl e, w') \<Rightarrow> (None, r\<lparr>registry := w'\<rparr>)
                             | (Inr _, w') \<Rightarrow>
                                 (Some v, r\<lparr>registry := w', histograms :=
                                    (histograms r)\<lparr>guarded := (guarded (histograms r))(nm \<mapsto> v)\<rparr>\<rparr>)))))"

definition observe_counter ::
  "('pw, 'h) prom_api \<Rightarrow> ('pw, 'h) prom_registry \<Rightarrow> metric_entry
     \<Rightarrow> unit res \<times> ('pw, 'h) prom_registry" where
  "observe_counter api r e =
     (let (names, vals) = label_names_and_values (labels e)
      in case ensure_counter api r (name e) names of
           (None, r') \<Rightarrow> (Ret (), r')
         | (Some v, r') \<Rightarrow>
             (case with_values_inc_by api v vals (sample e) (registry r') of
                (res, w) \<Rightarrow> (res, r'\<lparr>registry := w\<rparr>)))"

definition observe_gauge ::
  "('pw, 'h) prom_api \<Rightarrow> ('pw, 'h) prom_registry \<Rightarrow> metric_entry
     \<Rightarrow> unit res \<times> ('pw, 'h) prom_registry" where
  "observe_gauge api r e =
     (let (names, vals) = label_names_and_values (labels e)
      in case ensure_gauge api r (name e) names of
           (None, r') \<Rightarrow> (Ret (), r')
         | (Some v, r') \<Rightarrow>
             (case with_values_set api v vals (sample e) (registry r') of
                (res, w) \<Rightarrow> (res, r'\<lparr>registry := w\<rparr>)))"

definition observe_histogram ::
  "('pw, 'h) prom_api \<Rightarrow> ('pw, 'h) prom_registry \<Rightarrow> metric_entry
     \<Rightarrow> unit res \<times> ('pw, 'h) prom_registry" where
  "observe_histogram api r e =
     (let (names, vals) = label_names_and_values (labels e)
      in case ensure_histogram api r (name e) names of
           (None, r') \<Rightarrow> (Ret (), r')
         | (Some v, r') \<Rightarrow>
             (case with_values_observe api v vals (sample e) (registry r') of
                (res, w) \<Rightarrow> (res, r'\<lparr>registry := w\<rparr>)))"

definition update ::
  "('pw, 'h) prom_api \<Rightarrow> ('pw, 'h) prom_registry \<Rightarrow> metric_entry
     \<Rightarrow> unit res \<times> ('pw, 'h) prom_registry" where
  "update api r e =
     (case metric_kind e of
        Counter \<Rightarrow> observe_counter api r e
      | Gauge \<Rightarrow> observe_gauge api r e
      | Histogram \<Rightarrow> observe_histogram api r e)"

definition inc_dropped ::
  "('pw, 'h) prom_api \<Rightarrow> ('pw, 'h) prom_registry \<Rightarrow> ('pw, 'h) prom_registry" where
  "inc_dropped api r = r\<lparr>registry := counter_inc api (dropped_counter r) (registry r)\<rparr>"

definition gather_text ::
  "('pw, 'h) prom_api \<Rightarrow> ('pw, 'h) prom_registry \<Rightarrow> error + rstr" where
  "gather_text api r =
     (case gather_encode api (registry r) of
        Inl e \<Rightarrow> Inl (Prometheus e)
      | Inr buf \<Rightarrow>
          (case from_utf8 buf of
             None \<Rightarrow> Inl (Prometheus (lit ''invalid utf-8 sequence''))
           | Some s \<Rightarrow> Inr s))"

section \<open>A view of the crate and what the code relies on\<close>

record 'h prom_view =
  descs :: "'h \<rightharpoonup> rstr \<times> rstr list"
  registered :: "rstr set"
  series :: "'h \<Rightarrow> rstr list \<Rightarrow> f64 list"

definition add_desc :: "'h \<Rightarrow> rstr \<Rightarrow> rstr list \<Rightarrow> 'h prom_view \<Rightarrow> 'h prom_view" where
  "add_desc h nm ls v =
     v\<lparr>descs := (descs v)(h \<mapsto> (nm, ls)), series := (series v)(h := (\<lambda>_. []))\<rparr>"

definition add_sample :: "'h \<Rightarrow> rstr list \<Rightarrow> f64 \<Rightarrow> 'h prom_view \<Rightarrow> 'h prom_view" where
  "add_sample h vs x v =
     v\<lparr>series := (series v)(h := (series v h)(vs := series v h vs @ [x]))\<rparr>"

text \<open>
  Creating a collector succeeds exactly for the definitions the crate accepts and gives a
  fresh handle with no samples.
\<close>

definition creation_spec ::
  "('pw \<Rightarrow> 'h prom_view) \<Rightarrow> (rstr \<Rightarrow> rstr list \<Rightarrow> bool)
     \<Rightarrow> (rstr \<Rightarrow> rstr list \<Rightarrow> 'pw \<Rightarrow> (rstr + 'h) \<times> 'pw) \<Rightarrow> bool" where
  "creation_spec view ok mk \<longleftrightarrow>
     (\<forall>nm ls w. case mk nm ls w of
        (Inl e, w') \<Rightarrow> \<not> ok nm ls \<and> view w' = view w
      | (Inr h, w') \<Rightarrow> ok nm ls \<and> descs (view w) h = None \<and> view w' = add_desc h nm ls (view w))"

text \<open>Registering succeeds exactly when no collector of that name is registered yet.\<close>

definition register_spec ::
  "('pw \<Rightarrow> 'h prom_view) \<Rightarrow> ('h \<Rightarrow> 'pw \<Rightarrow> (rstr + unit) \<times> 'pw) \<Rightarrow> bool" where
  "register_spec view rg \<longleftrightarrow>
     (\<forall>h nm ls w. descs (view w) h = Some (nm, ls) \<longrightarrow>
        (case rg h w of
           (Inl e, w') \<Rightarrow> nm \<in> registered (view w) \<and> view w' = view w
         | (Inr u, w') \<Rightarrow> nm \<notin> registered (view w) \<and>
             view w' = (view w)\<lparr>registered := insert nm (registered (view w))\<rparr>))"

text \<open>
  \<open>with_label_values\<close> panics when the number of values is not the number of variable
  labels of the collector, and otherwise the sample reaches the series of those values.
\<close>

definition observe_spec ::
  "('pw \<Rightarrow> 'h prom_view) \<Rightarrow> (f64 \<Rightarrow> bool)
     \<Rightarrow> ('h \<Rightarrow> rstr list \<Rightarrow> f64 \<Rightarrow> 'pw \<Rightarrow> unit res \<times> 'pw) \<Rightarrow> bool" where
  "observe_spec view adm app \<longleftrightarrow>
     (\<forall>h nm ls vs x w. descs (view w) h = Some (nm, ls) \<longrightarrow> adm x \<longrightarrow>
        (case app h vs x w of
           (Ret u, w') \<Rightarrow> length vs = length ls \<and> view w' = add_sample h vs x (view w)
         | (Panicked p, w') \<Rightarrow> length vs \<noteq> length ls \<and> p = LabelCardinality \<and> view w' = view w))"

text \<open>Counters must not be decremented (the crate asserts it in debug builds).\<close>

fun nonneg :: "f64 \<Rightarrow> bool" where
  "nonneg (Fin r) \<longleftrightarrow> 0 \<le> r"
| "nonneg PosInf \<longleftrightarrow> True"
| "nonneg NegInf \<longleftrightarrow> False"
| "nonneg NaN \<longleftrightarrow> False"

definition admissible :: "metric_type \<Rightarrow> f64 \<Rightarrow> bool" where
  "admissible k x \<longleftrightarrow> (k = Counter \<longrightarrow> nonneg x)"

lemma creation_specD:
  assumes "creation_spec view ok mk"
  shows "case mk nm ls w of
      (Inl e, w') \<Rightarrow> \<not> ok nm ls \<and> view w' = view w
    | (Inr h, w') \<Rightarrow> ok nm ls \<and> descs (view w) h = None \<and> view w' = add_desc h nm ls (view w)"
  using assms [unfolded creation_spec_def, rule_format] .

lemma register_specD:
  assumes "register_spec view rg" and "descs (view w) h = Some (nm, ls)"
  shows "case rg h w of
      (Inl e, w') \<Rightarrow> nm \<in> registered (view w) \<and> view w' = view w
    | (Inr u, w') \<Rightarrow> nm \<notin> registered (view w) \<and>
        view w' = (view w)\<lparr>registered := insert nm (registered (view w))\<rparr>"
  using assms(1) [unfolded register_spec_def, rule_format, OF assms(2)] .

lemma observe_specD:
  assumes "observe_spec view adm app" and "descs (view w) h = Some (nm, ls)" and "adm x"
  shows "case app h vs x w of
      (Ret u, w') \<Rightarrow> length vs = length ls \<and> view w' = add_sample h vs x (view w)
    | (Panicked p, w') \<Rightarrow> length vs \<noteq> length ls \<and> p = LabelCardinality \<and> view w' = view w"
  using assms(1) [unfolded observe_spec_def, rule_format, OF assms(2,3)] .

definition prom_spec ::
  "('pw \<Rightarrow> 'h prom_view) \<Rightarrow> (metric_type \<Rightarrow> rstr \<Rightarrow> rstr list \<Rightarrow> bool)
     \<Rightarrow> ('pw, 'h) prom_api \<Rightarrow> bool" where
  "prom_spec view ok api \<longleftrightarrow>
     view (registry_new api) = \<lparr>descs = Map.empty, registered = {}, series = (\<lambda>_ _. [])\<rparr> \<and>
     ok Counter dropped_name [] \<and>
     (\<forall>nm hlp w. case counter_with_opts api nm hlp w of
        (Inl e, w') \<Rightarrow> \<not> ok Counter nm [] \<and> view w' = view w
      | (Inr h, w') \<Rightarrow> ok Counter nm [] \<and> descs (view w) h = None \<and>
          view w' = add_desc h nm [] (view w)) \<and>
     (\<forall>hlp. creation_spec view (ok Counter) (\<lambda>nm. counter_vec_new api nm (hlp nm))) \<and>
     (\<forall>hlp. creation_spec view (ok Gauge) (\<lambda>nm. gauge_vec_new api nm (hlp nm))) \<and>
     (\<forall>hlp bs. creation_spec view (ok Histogram) (\<lambda>nm. histogram_vec_new api nm (hlp nm) bs)) \<and>
     register_spec view (register api) \<and>
     (\<forall>h nm w. descs (view w) h = Some (nm, []) \<longrightarrow>
        view (counter_inc api h w) = add_sample h [] (Fin 1) (view w)) \<and>
     observe_spec view (admissible Counter) (with_values_inc_by api) \<and>
     observe_spec view (admissible Gauge) (with_values_set api) \<and>
     observe_spec view (admissible Histogram) (with_values_observe api)"

section \<open>The three collector families share one contract\<close>

text \<open>The ways one observation can go, for a family with its cache and its store.\<close>

inductive observed ::
  "('pw \<Rightarrow> 'h prom_view) \<Rightarrow> (rstr \<Rightarrow> rstr list \<Rightarrow> bool)
     \<Rightarrow> (('pw, 'h) prom_registry \<Rightarrow> rstr \<rightharpoonup> 'h)
     \<Rightarrow> (rstr \<Rightarrow> 'h \<Rightarrow> ('pw, 'h) prom_registry \<Rightarrow> ('pw, 'h) prom_registry)
     \<Rightarrow> ('pw, 'h) prom_registry \<Rightarrow> metric_entry
     \<Rightarrow> unit res \<Rightarrow> ('pw, 'h) prom_registry \<Rightarrow> bool"
  for view ok cache store r e
where
  hit: "cache r (name e) = Some h \<Longrightarrow> descs (view (registry r)) h = Some (nm, ls) \<Longrightarrow>
    length (labels e) = length ls \<Longrightarrow>
    view w' = add_sample h (map snd (labels e)) (sample e) (view (registry r)) \<Longrightarrow>
    observed view ok cache store r e (Ret ()) (r\<lparr>registry := w'\<rparr>)"
| mismatch: "cache r (name e) = Some h \<Longrightarrow> descs (view (registry r)) h = Some (nm, ls) \<Longrightarrow>
    length (labels e) \<noteq> length ls \<Longrightarrow> view w' = view (registry r) \<Longrightarrow>
    observed view ok cache store r e (Panicked LabelCardinality) (r\<lparr>registry := w'\<rparr>)"
| refused: "cache r (name e) = None \<Longrightarrow> \<not> ok (name e) (map fst (labels e)) \<Longrightarrow>
    view w' = view (registry r) \<Longrightarrow>
    observed view ok cache store r e (Ret ()) (r\<lparr>registry := w'\<rparr>)"
| taken: "cache r (name e) = None \<Longrightarrow> name e \<in> registered (view (registry r)) \<Longrightarrow>
    descs (view (registry r)) h = None \<Longrightarrow>
    view w' = add_desc h (name e) (map fst (labels e)) (view (registry r)) \<Longrightarrow>
    observed view ok cache store r e (Ret ()) (r\<lparr>registry := w'\<rparr>)"
| created: "cache r (name e) = None \<Longrightarrow> ok (name e) (map fst (labels e)) \<Longrightarrow>
    name e \<notin> registered (view (registry r)) \<Longrightarrow> descs (view (registry r)) h = None \<Longrightarrow>
    view w' = add_sample h (map snd (labels e)) (sample e)
      ((add_desc h (name e) (map fst (labels e)) (view (registry r)))
         \<lparr>registered := insert (name e) (registered (view (registry r)))\<rparr>) \<Longrightarrow>
    observed view ok cache store r e (Ret ()) (store (name e) h (r\<lparr>registry := w'\<rparr>))"

locale collector_family =
  fixes ensure :: "('pw, 'h) prom_registry \<Rightarrow> rstr \<Rightarrow> rstr list \<Rightarrow> 'h option \<times> ('pw, 'h) prom_registry"
    and cache :: "('pw, 'h) prom_registry \<Rightarrow> rstr \<rightharpoonup> 'h"
    and healthy :: "('pw, 'h) prom_registry \<Rightarrow> bool"
    and store :: "rstr \<Rightarrow> 'h \<Rightarrow> ('pw, 'h) prom_registry \<Rightarrow> ('pw, 'h) prom_registry"
    and create :: "f64 list \<Rightarrow> rstr \<Rightarrow> rstr list \<Rightarrow> 'pw \<Rightarrow> (rstr + 'h) \<times> 'pw"
    and enrol :: "'h \<Rightarrow> 'pw \<Rightarrow> (rstr + unit) \<times> 'pw"
    and app :: "'h \<Rightarrow> rstr list \<Rightarrow> f64 \<Rightarrow> 'pw \<Rightarrow> unit res \<times> 'pw"
    and observe :: "('pw, 'h) prom_registry \<Rightarrow> metric_entry \<Rightarrow> unit res \<times> ('pw, 'h) prom_registry"
  assumes ensure_law:
    "ensure r nm ls =
       (if \<not> healthy r then (None, r)
        else case cache r nm of
          Some h \<Rightarrow> (Some h, r)
        | None \<Rightarrow>
            (case create (default_buckets r) nm ls (registry r) of
               (Inl err, w) \<Rightarrow> (None, r\<lparr>registry := w\<rparr>)
             | (Inr h, w) \<Rightarrow>
                 (case enrol h w of
                    (Inl err, w') \<Rightarrow> (None, r\<lparr>registry := w'\<rparr>)
                  | (Inr u, w') \<Rightarrow> (Some h, store nm h (r\<lparr>registry := w'\<rparr>)))))"
    and observe_law:
    "observe r e =
       (case ensure r (name e) (map fst (labels e)) of
          (None, r') \<Rightarrow> (Ret (), r')
        | (Some h, r') \<Rightarrow>
            (case app h (map snd (labels e)) (sample e) (registry r') of
               (res, w) \<Rightarrow> (res, r'\<lparr>registry := w\<rparr>)))"
    and cache_store: "cache (store nm h r) = (cache r)(nm \<mapsto> h)"
    and cache_world: "cache (r\<lparr>registry := w\<rparr>) = cache r"
    and healthy_store: "healthy (store nm h r) = healthy r"
    and healthy_world: "healthy (r\<lparr>registry := w\<rparr>) = healthy r"
    and registry_store: "registry (store nm h r) = registry r"
    and store_world: "(store nm h r)\<lparr>registry := w\<rparr> = store nm h (r\<lparr>registry := w\<rparr>)"
begin

text \<open>Once a family has handed out a collector for a name, it hands out that one for ever.\<close>

lemma ensure_stable:
  assumes "ensure r nm ls = (Some h, r')"
  shows "healthy r' \<and> cache r' nm = Some h \<and> ensure r' nm ls' = (Some h, r')"
proof -
  have "healthy r' \<and> cache r' nm = Some h"
    using assms
    by (auto simp: ensure_law cache_store cache_world healthy_store healthy_world
        split: if_splits option.splits prod.splits sum.splits)
  then show ?thesis by (simp add: ensure_law)
qed

lemma ensure_monotone:
  assumes "ensure r nm ls = (res, r')" and "cache r nm' = Some h"
  shows "cache r' nm' = Some h"
  using assms
  by (auto simp: ensure_law cache_store cache_world
      split: if_splits option.splits prod.splits sum.splits)

lemma observe_observed:
  assumes cr: "creation_spec view ok (create (default_buckets r))"
    and rg: "register_spec view enrol"
    and ap: "observe_spec view adm app"
    and ok: "healthy r" "adm (sample e)"
    and desc: "\<And>h. cache r (name e) = Some h \<Longrightarrow> \<exists>nm ls. descs (view (registry r)) h = Some (nm, ls)"
  shows "case observe r e of (res, r') \<Rightarrow> observed view ok cache store r e res r'"
proof (cases "cache r (name e)")
  case (Some h)
  from desc [OF Some] obtain nm ls where d: "descs (view (registry r)) h = Some (nm, ls)" by blast
  have "case app h (map snd (labels e)) (sample e) (registry r) of
      (Ret u, w') \<Rightarrow> length (map snd (labels e)) = length ls \<and>
        view w' = add_sample h (map snd (labels e)) (sample e) (view (registry r))
    | (Panicked p, w') \<Rightarrow> length (map snd (labels e)) \<noteq> length ls \<and> p = LabelCardinality \<and>
        view w' = view (registry r)"
    by (rule observe_specD [OF ap d ok(2)])
  then show ?thesis
    using Some d ok(1)
    by (auto simp: observe_law ensure_law split: prod.splits res.splits
        intro: observed.hit observed.mismatch)
next
  case None
  let ?nm = "name e" and ?ls = "map fst (labels e)"
  obtain c w where c: "create (default_buckets r) ?nm ?ls (registry r) = (c, w)" by fastforce
  have cs: "case (c, w) of (Inl err, w') \<Rightarrow> \<not> ok ?nm ?ls \<and> view w' = view (registry r)
      | (Inr h, w') \<Rightarrow> ok ?nm ?ls \<and> descs (view (registry r)) h = None \<and>
          view w' = add_desc h ?nm ?ls (view (registry r))"
    using creation_specD [OF cr, of ?nm ?ls "registry r"] unfolding c .
  show ?thesis
  proof (cases c)
    case (Inl err)
    with cs None c ok(1) show ?thesis
      by (auto simp: observe_law ensure_law intro: observed.refused)
  next
    case (Inr h)
    with cs have h: "ok ?nm ?ls" "descs (view (registry r)) h = None"
      "view w = add_desc h ?nm ?ls (view (registry r))" by auto
    then have d: "descs (view w) h = Some (?nm, ?ls)" by (simp add: add_desc_def)
    obtain g w' where g: "enrol h w = (g, w')" by fastforce
    have gs: "case (g, w') of (Inl err, w') \<Rightarrow> ?nm \<in> registered (view w) \<and> view w' = view w
      | (Inr u, w') \<Rightarrow> ?nm \<notin> registered (view w) \<and>
          view w' = (view w)\<lparr>registered := insert ?nm (registered (view w))\<rparr>"
      using register_specD [OF rg d] unfolding g .
    show ?thesis
    proof (cases g)
      case (Inl err)
      with gs h None c Inr g ok(1) show ?thesis
        by (auto simp: observe_law ensure_law add_desc_def intro!: observed.taken)
    next
      case (Inr u)
      then have w': "?nm \<notin> registered (view w)"
        "view w' = (view w)\<lparr>registered := insert ?nm (registered (view w))\<rparr>"
        using gs by auto
      then have "descs (view w') h = Some (?nm, ?ls)" using d by simp
      then have "case app h (map snd (labels e)) (sample e) w' of
          (Ret u, w'') \<Rightarrow> length (map snd (labels e)) = length ?ls \<and>
            view w'' = add_sample h (map snd (labels e)) (sample e) (view w')
        | (Panicked p, w'') \<Rightarrow> length (map snd (labels e)) \<noteq> length ?ls \<and> p = LabelCardinality \<and>
            view w'' = view w'"
        by (intro observe_specD [OF ap _ ok(2)])
      moreover have "?nm \<notin> registered (view (registry r))"
        using w'(1) h(3) by (simp add: add_desc_def)
      ultimately show ?thesis
        using None c \<open>c = Inr h\<close> g Inr ok(1) h w'(2)
        by (auto simp: observe_law ensure_law registry_store store_world add_desc_def
            split: prod.splits res.splits intro!: observed.created)
    qed
  qed
qed

end

text \<open>The families by kind.\<close>

fun cache_of :: "metric_type \<Rightarrow> ('pw, 'h) prom_registry \<Rightarrow> rstr \<rightharpoonup> 'h" where
  "cache_of Counter r = guarded (counters r)"
| "cache_of Gauge r = guarded (gauges r)"
| "cache_of Histogram r = guarded (histograms r)"

fun healthy_of :: "metric_type \<Rightarrow> ('pw, 'h) prom_registry \<Rightarrow> bool" where
  "healthy_of Counter r \<longleftrightarrow> \<not> poisoned (counters r)"
| "healthy_of Gauge r \<longleftrightarrow> \<not> poisoned (gauges r)"
| "healthy_of Histogram r \<longleftrightarrow> \<not> poisoned (histograms r)"

fun store_of ::
  "metric_type \<Rightarrow> rstr \<Rightarrow> 'h \<Rightarrow> ('pw, 'h) prom_registry \<Rightarrow> ('pw, 'h) prom_registry" where
  "store_of Counter nm h r =
     r\<lparr>counters := (counters r)\<lparr>guarded := (guarded (counters r))(nm \<mapsto> h)\<rparr>\<rparr>"
| "store_of Gauge nm h r =
     r\<lparr>gauges := (gauges r)\<lparr>guarded := (guarded (gauges r))(nm \<mapsto> h)\<rparr>\<rparr>"
| "store_of Histogram nm h r =
     r\<lparr>histograms := (histograms r)\<lparr>guarded := (guarded (histograms r))(nm \<mapsto> h)\<rparr>\<rparr>"

interpretation counter_family: collector_family "ensure_counter api" "cache_of Counter"
  "healthy_of Counter" "store_of Counter"
  "\<lambda>bs nm. counter_vec_new api nm (lit ''tonggeret counter '' @ nm)" "register api"
  "with_values_inc_by api" "observe_counter api" for api
  by unfold_locales
    (auto simp: ensure_counter_def observe_counter_def label_names_match_def label_names_and_values_def
      split: option.split prod.split sum.split)

interpretation gauge_family: collector_family "ensure_gauge api" "cache_of Gauge"
  "healthy_of Gauge" "store_of Gauge"
  "\<lambda>bs nm. gauge_vec_new api nm (lit ''tonggeret gauge '' @ nm)" "register api"
  "with_values_set api" "observe_gauge api" for api
  by unfold_locales
    (auto simp: ensure_gauge_def observe_gauge_def gauge_labels_match_def label_names_and_values_def
      split: option.split prod.split sum.split)

interpretation histogram_family: collector_family "ensure_histogram api" "cache_of Histogram"
  "healthy_of Histogram" "store_of Histogram"
  "\<lambda>bs nm. histogram_vec_new api nm (lit ''tonggeret histogram '' @ nm) bs" "register api"
  "with_values_observe api" "observe_histogram api" for api
  by unfold_locales
    (auto simp: ensure_histogram_def observe_histogram_def histogram_labels_match_def
      label_names_and_values_def split: option.split prod.split sum.split)

section \<open>The invariant and the abstract registry\<close>

definition prom_inv :: "('pw \<Rightarrow> 'h prom_view) \<Rightarrow> ('pw, 'h) prom_registry \<Rightarrow> bool" where
  "prom_inv view r \<longleftrightarrow>
     (\<forall>k. healthy_of k r) \<and>
     (\<forall>k nm h. cache_of k r nm = Some h \<longrightarrow>
        (\<exists>ls. descs (view (registry r)) h = Some (nm, ls)) \<and>
        nm \<in> registered (view (registry r)) \<and> nm \<noteq> dropped_name) \<and>
     (\<forall>k k' nm h h'. cache_of k r nm = Some h \<longrightarrow> cache_of k' r nm = Some h' \<longrightarrow> k = k') \<and>
     (\<forall>nm. nm \<in> registered (view (registry r)) \<longrightarrow>
        nm = dropped_name \<or> (\<exists>k h. cache_of k r nm = Some h)) \<and>
     dropped_name \<in> registered (view (registry r)) \<and>
     descs (view (registry r)) (dropped_counter r) = Some (dropped_name, [])"

text \<open>
  The contract of the component: one family per name, of one kind, with the label names of
  its first use; a series is the list of the samples applied to it.
\<close>

record prom_abs =
  families :: "rstr \<rightharpoonup> metric_type \<times> rstr list"
  samples :: "rstr \<Rightarrow> rstr list \<Rightarrow> f64 list"

definition collector :: "('pw, 'h) prom_registry \<Rightarrow> rstr \<Rightarrow> (metric_type \<times> 'h) option" where
  "collector r nm =
     (case cache_of Counter r nm of
        Some h \<Rightarrow> Some (Counter, h)
      | None \<Rightarrow>
          (case cache_of Gauge r nm of
             Some h \<Rightarrow> Some (Gauge, h)
           | None \<Rightarrow> map_option (\<lambda>h. (Histogram, h)) (cache_of Histogram r nm)))"

definition abs_registry :: "('pw \<Rightarrow> 'h prom_view) \<Rightarrow> ('pw, 'h) prom_registry \<Rightarrow> prom_abs" where
  "abs_registry view r =
     \<lparr>families = (\<lambda>nm. case collector r nm of
        None \<Rightarrow> None
      | Some (k, h) \<Rightarrow> map_option (\<lambda>d. (k, snd d)) (descs (view (registry r)) h)),
      samples = (\<lambda>nm vs. case collector r nm of
        None \<Rightarrow> []
      | Some (k, h) \<Rightarrow> series (view (registry r)) h vs)\<rparr>"

definition abs_sample :: "metric_entry \<Rightarrow> prom_abs \<Rightarrow> prom_abs" where
  "abs_sample e A =
     A\<lparr>samples := (samples A)(name e := (samples A (name e))
         (map snd (labels e) := samples A (name e) (map snd (labels e)) @ [sample e]))\<rparr>"

definition abs_update ::
  "(metric_type \<Rightarrow> rstr \<Rightarrow> rstr list \<Rightarrow> bool) \<Rightarrow> metric_entry \<Rightarrow> prom_abs \<Rightarrow> unit res \<times> prom_abs" where
  "abs_update ok e A =
     (case families A (name e) of
        Some (k, ls) \<Rightarrow>
          if k \<noteq> metric_kind e then (Ret (), A)
          else if length (labels e) = length ls then (Ret (), abs_sample e A)
          else (Panicked LabelCardinality, A)
      | None \<Rightarrow>
          if name e = dropped_name \<or> \<not> ok (metric_kind e) (name e) (map fst (labels e))
          then (Ret (), A)
          else (Ret (), abs_sample e
            (A\<lparr>families := (families A)(name e \<mapsto> (metric_kind e, map fst (labels e)))\<rparr>)))"

subsection \<open>Lemmas\<close>

lemma cache_of_world [simp]: "cache_of k (r\<lparr>registry := w\<rparr>) = cache_of k r"
  by (cases k) simp_all

lemma cache_of_store [simp]:
  "cache_of k (store_of k' nm h r) = (if k = k' then (cache_of k r)(nm \<mapsto> h) else cache_of k r)"
  by (cases k; cases k') simp_all

lemma healthy_of_simps [simp]:
  "healthy_of k (r\<lparr>registry := w\<rparr>) = healthy_of k r"
  "healthy_of k (store_of k' nm h r) = healthy_of k r"
  by (cases k; cases k'; simp)+

lemma registry_store_of [simp]:
  "registry (store_of k nm h r) = registry r"
  "dropped_counter (store_of k nm h r) = dropped_counter r"
  by (cases k; simp)+

lemma add_view_simps [simp]:
  "descs (add_desc h nm ls v) = (descs v)(h \<mapsto> (nm, ls))"
  "registered (add_desc h nm ls v) = registered v"
  "series (add_desc h nm ls v) = (series v)(h := (\<lambda>_. []))"
  "descs (add_sample h vs x v) = descs v"
  "registered (add_sample h vs x v) = registered v"
  "series (add_sample h vs x v) = (series v)(h := (series v h)(vs := series v h vs @ [x]))"
  by (simp_all add: add_desc_def add_sample_def)

lemma collector_iff:
  assumes "prom_inv view r"
  shows "collector r nm = Some (k, h) \<longleftrightarrow> cache_of k r nm = Some h"
proof -
  have "cache_of k r nm = Some h \<Longrightarrow> cache_of k' r nm = Some h' \<Longrightarrow> k = k'" for k k' h h'
    using assms unfolding prom_inv_def by blast
  then show ?thesis
    by (cases k) (fastforce simp: collector_def simp del: cache_of.simps split: option.splits)+
qed

lemma collector_None:
  assumes "prom_inv view r"
  shows "collector r nm = None \<longleftrightarrow> (\<forall>k. cache_of k r nm = None)"
  using collector_iff [OF assms] by (metis not_None_eq prod.collapse)

lemma prom_invD:
  assumes "prom_inv view r" and "cache_of k r nm = Some h"
  shows "\<exists>ls. descs (view (registry r)) h = Some (nm, ls)"
    and "nm \<in> registered (view (registry r))" and "nm \<noteq> dropped_name"
  using assms unfolding prom_inv_def by blast+

lemma update_observed:
  assumes spec: "prom_spec view ok api" and inv: "prom_inv view r"
    and adm: "admissible (metric_kind e) (sample e)"
  shows "case update api r e of (res, r') \<Rightarrow>
    observed view (ok (metric_kind e)) (cache_of (metric_kind e)) (store_of (metric_kind e)) r e res r'"
proof -
  have h: "healthy_of k r" for k using inv unfolding prom_inv_def by blast
  have d: "cache_of k r (name e) = Some h \<Longrightarrow> \<exists>nm ls. descs (view (registry r)) h = Some (nm, ls)" for k h
    using prom_invD(1) [OF inv] by blast
  have rg: "register_spec view (register api)" using spec unfolding prom_spec_def by blast
  show ?thesis
  proof (cases "metric_kind e")
    case Counter
    have cr: "creation_spec view (ok Counter)
        (\<lambda>nm. counter_vec_new api nm (lit ''tonggeret counter '' @ nm))"
      using spec unfolding prom_spec_def by (elim conjE allE)
    have ap: "observe_spec view (admissible Counter) (with_values_inc_by api)"
      using spec unfolding prom_spec_def by (elim conjE)
    have adm': "admissible Counter (sample e)" using adm Counter by simp
    have "case observe_counter api r e of (res, r') \<Rightarrow>
        observed view (ok Counter) (cache_of Counter) (store_of Counter) r e res r'"
      using counter_family.observe_observed [OF cr rg ap h [of Counter] adm' d [of Counter]] .
    then show ?thesis by (simp only: update_def Counter metric_type.case)
  next
    case Gauge
    have cr: "creation_spec view (ok Gauge)
        (\<lambda>nm. gauge_vec_new api nm (lit ''tonggeret gauge '' @ nm))"
      using spec unfolding prom_spec_def by (elim conjE allE)
    have ap: "observe_spec view (admissible Gauge) (with_values_set api)"
      using spec unfolding prom_spec_def by (elim conjE)
    have adm': "admissible Gauge (sample e)" using adm Gauge by simp
    have "case observe_gauge api r e of (res, r') \<Rightarrow>
        observed view (ok Gauge) (cache_of Gauge) (store_of Gauge) r e res r'"
      using gauge_family.observe_observed [OF cr rg ap h [of Gauge] adm' d [of Gauge]] .
    then show ?thesis by (simp only: update_def Gauge metric_type.case)
  next
    case Histogram
    have cr: "creation_spec view (ok Histogram)
        (\<lambda>nm. histogram_vec_new api nm (lit ''tonggeret histogram '' @ nm) (default_buckets r))"
      using spec unfolding prom_spec_def by (elim conjE allE)
    have ap: "observe_spec view (admissible Histogram) (with_values_observe api)"
      using spec unfolding prom_spec_def by (elim conjE)
    have adm': "admissible Histogram (sample e)" using adm Histogram by simp
    have "case observe_histogram api r e of (res, r') \<Rightarrow>
        observed view (ok Histogram) (cache_of Histogram) (store_of Histogram) r e res r'"
      using histogram_family.observe_observed [OF cr rg ap h [of Histogram] adm' d [of Histogram]] .
    then show ?thesis by (simp only: update_def Histogram metric_type.case)
  qed
qed

lemma collector_world [simp]: "collector (r\<lparr>registry := w\<rparr>) = collector r"
  by (auto simp: collector_def fun_eq_iff split: option.split)

lemma collector_store:
  "(\<And>k. cache_of k r nm = None) \<Longrightarrow> collector (store_of k nm h r) = (collector r)(nm \<mapsto> (k, h))"
  by (cases k) (auto simp: collector_def fun_eq_iff simp del: cache_of.simps store_of.simps
      split: option.split)

lemma prom_inv_world:
  assumes inv: "prom_inv view r"
    and d: "\<And>h x. descs (view (registry r)) h = Some x \<Longrightarrow> descs (view w) h = Some x"
    and g: "registered (view w) = registered (view (registry r))"
  shows "prom_inv view (r\<lparr>registry := w\<rparr>)"
  using inv d unfolding prom_inv_def
  by (simp add: g) blast

lemma prom_inv_store:
  assumes inv: "prom_inv view r"
    and n: "nm \<notin> registered (view (registry r))"
    and d: "\<And>h x. descs (view (registry r)) h = Some x \<Longrightarrow> descs (view w) h = Some x"
    and g: "registered (view w) = insert nm (registered (view (registry r)))"
    and h: "descs (view w) h = Some (nm, ls)"
  shows "prom_inv view (store_of k nm h (r\<lparr>registry := w\<rparr>))"
proof -
  have none: "cache_of k' r nm = None" for k'
    using prom_invD(2) [OF inv] n by (metis not_None_eq)
  have nd: "nm \<noteq> dropped_name" using inv n unfolding prom_inv_def by blast
  have old: "(\<exists>ls. descs (view w) h' = Some (nm', ls)) \<and> nm' \<in> registered (view w) \<and> nm' \<noteq> dropped_name"
    if "cache_of k' r nm' = Some h'" for k' nm' h'
    using prom_invD [OF inv that] d by (auto simp: g)
  have one: "k1 = k2" if "cache_of k1 r nm' = Some h1" "cache_of k2 r nm' = Some h2" for k1 k2 nm' h1 h2
    using inv that unfolding prom_inv_def by blast
  have reg: "nm' = dropped_name \<or> (\<exists>k' h'. cache_of k' r nm' = Some h')"
    if "nm' \<in> registered (view (registry r))" for nm'
    using inv that unfolding prom_inv_def by blast
  have rest: "healthy_of k' r" "dropped_name \<in> registered (view (registry r))"
    "descs (view w) (dropped_counter r) = Some (dropped_name, [])" for k'
    using inv d unfolding prom_inv_def by blast+
  show ?thesis
    unfolding prom_inv_def
  proof (intro conjI allI impI)
    fix k' nm' h'
    assume "cache_of k' (store_of k nm h (r\<lparr>registry := w\<rparr>)) nm' = Some h'"
    then have "nm' = nm \<and> h' = h \<or> cache_of k' r nm' = Some h'" by (auto split: if_splits)
    then show "\<exists>ls. descs (view (registry (store_of k nm h (r\<lparr>registry := w\<rparr>)))) h' = Some (nm', ls)"
      "nm' \<in> registered (view (registry (store_of k nm h (r\<lparr>registry := w\<rparr>))))" "nm' \<noteq> dropped_name"
      using old h nd by (auto simp: g)
  next
    fix k1 k2 nm' h1 h2
    assume "cache_of k1 (store_of k nm h (r\<lparr>registry := w\<rparr>)) nm' = Some h1"
      and "cache_of k2 (store_of k nm h (r\<lparr>registry := w\<rparr>)) nm' = Some h2"
    then show "k1 = k2" using one none by (auto split: if_splits)
  next
    fix nm'
    assume "nm' \<in> registered (view (registry (store_of k nm h (r\<lparr>registry := w\<rparr>))))"
    then have "nm' = nm \<or> nm' = dropped_name \<or> (\<exists>k' h'. cache_of k' r nm' = Some h')"
      using reg by (auto simp: g)
    then show "nm' = dropped_name \<or>
        (\<exists>k' h'. cache_of k' (store_of k nm h (r\<lparr>registry := w\<rparr>)) nm' = Some h')"
    proof (elim disjE exE)
      assume "nm' = nm"
      then have "cache_of k (store_of k nm h (r\<lparr>registry := w\<rparr>)) nm' = Some h" by simp
      then show ?thesis by blast
    next
      fix k' h'
      assume c: "cache_of k' r nm' = Some h'"
      then have "nm' \<noteq> nm" using none by auto
      with c have "cache_of k' (store_of k nm h (r\<lparr>registry := w\<rparr>)) nm' = Some h'" by auto
      then show ?thesis by blast
    qed simp
  qed (use rest in \<open>simp_all add: g\<close>)
qed

lemma cached_handle_name:
  assumes "prom_inv view r" "collector r nm = Some (k, h)"
  shows "\<exists>ls. descs (view (registry r)) h = Some (nm, ls)"
  using assms collector_iff [OF assms(1)] prom_invD(1) by metis

lemma abs_world_same:
  assumes inv: "prom_inv view r"
    and d: "\<And>h x. descs (view (registry r)) h = Some x \<Longrightarrow>
      descs (view w) h = Some x \<and> series (view w) h = series (view (registry r)) h"
  shows "abs_registry view (r\<lparr>registry := w\<rparr>) = abs_registry view r"
  using d cached_handle_name [OF inv]
  by (fastforce simp: abs_registry_def fun_eq_iff split: option.splits)

lemma abs_families:
  assumes "prom_inv view r" "collector r nm = Some (k, h)"
    "descs (view (registry r)) h = Some (nm', ls)"
  shows "families (abs_registry view r) nm = Some (k, ls)"
  using assms by (simp add: abs_registry_def)

lemma abs_families_None:
  "collector r nm = None \<Longrightarrow> families (abs_registry view r) nm = None"
  by (simp add: abs_registry_def)

lemma abs_add_sample:
  assumes inv: "prom_inv view r" and c: "collector r (name e) = Some (k, h)"
    and w: "view w = add_sample h (map snd (labels e)) (sample e) (view (registry r))"
  shows "abs_registry view (r\<lparr>registry := w\<rparr>) = abs_sample e (abs_registry view r)"
proof -
  have other: "h' \<noteq> h" if "collector r nm = Some (k', h')" "nm \<noteq> name e" for nm k' h'
    using cached_handle_name [OF inv c] cached_handle_name [OF inv that(1)] that(2) by auto
  show ?thesis
    using c other by (auto simp: abs_registry_def abs_sample_def w fun_eq_iff split: option.splits)
qed

lemma abs_created:
  assumes inv: "prom_inv view r" and n: "name e \<notin> registered (view (registry r))"
    and f: "descs (view (registry r)) h = None"
    and w: "view w = add_sample h (map snd (labels e)) (sample e)
      ((add_desc h (name e) (map fst (labels e)) (view (registry r)))
         \<lparr>registered := insert (name e) (registered (view (registry r)))\<rparr>)"
  shows "abs_registry view (store_of k (name e) h (r\<lparr>registry := w\<rparr>))
    = abs_sample e ((abs_registry view r)
        \<lparr>families := (families (abs_registry view r))(name e \<mapsto> (k, map fst (labels e)))\<rparr>)"
proof -
  have none: "cache_of k' r (name e) = None" for k'
    using prom_invD(2) [OF inv] n by (metis not_None_eq)
  then have c: "collector (store_of k (name e) h (r\<lparr>registry := w\<rparr>)) = (collector r)(name e \<mapsto> (k, h))"
    by (subst collector_store) simp_all
  have n': "collector r (name e) = None" using none by (simp add: collector_None [OF inv])
  have other: "h' \<noteq> h" if "collector r nm = Some (k', h')" for nm k' h'
    using cached_handle_name [OF inv that] f by auto
  show ?thesis
    using other n' by (auto simp: abs_registry_def abs_sample_def c w fun_eq_iff split: option.splits)
qed

lemma observed_refines:
  assumes inv: "prom_inv view r" and k: "k = metric_kind e"
    and obs: "observed view (ok k) (cache_of k) (store_of k) r e res r'"
  shows "prom_inv view r' \<and> (res, abs_registry view r') = abs_update ok e (abs_registry view r)"
  using obs
proof cases
  case (hit h nm ls w')
  have c: "collector r (name e) = Some (k, h)" using hit by (simp add: collector_iff [OF inv])
  show ?thesis
    using hit abs_families [OF inv c hit(4)] abs_add_sample [OF inv c hit(6)] k
      prom_inv_world [OF inv, of w']
    by (simp add: abs_update_def)
next
  case (mismatch h nm ls w')
  have c: "collector r (name e) = Some (k, h)" using mismatch by (simp add: collector_iff [OF inv])
  show ?thesis
    using mismatch abs_families [OF inv c mismatch(4)] abs_world_same [OF inv, of w'] k
      prom_inv_world [OF inv, of w']
    by (simp add: abs_update_def)
next
  case (refused w')
  have "families (abs_registry view r) (name e) = Some (k', ls) \<Longrightarrow> k' \<noteq> k" for k' ls
    using refused(3) collector_iff [OF inv] by (auto simp: abs_registry_def split: option.splits)
  then show ?thesis
    using refused abs_world_same [OF inv, of w'] prom_inv_world [OF inv, of w'] k
    by (auto simp: abs_update_def split: option.splits)
next
  case (taken h w')
  have ext: "descs (view (registry r)) h' = Some x \<Longrightarrow>
      descs (view w') h' = Some x \<and> series (view w') h' = series (view (registry r)) h'" for h' x
    using taken by auto
  have other: "families (abs_registry view r) (name e) = Some (k', ls) \<Longrightarrow> k' \<noteq> k" for k' ls
    using taken(3) collector_iff [OF inv] by (auto simp: abs_registry_def split: option.splits)
  have none: "families (abs_registry view r) (name e) = None \<Longrightarrow> name e = dropped_name"
  proof -
    assume "families (abs_registry view r) (name e) = None"
    then have "collector r (name e) = None"
      using cached_handle_name [OF inv] by (fastforce simp: abs_registry_def split: option.splits)
    then show "name e = dropped_name"
      using inv taken(4) unfolding collector_None [OF inv] prom_inv_def by (metis option.distinct(1))
  qed
  have i: "prom_inv view (r\<lparr>registry := w'\<rparr>)"
    using ext taken by (intro prom_inv_world [OF inv]) simp_all
  have a: "abs_registry view (r\<lparr>registry := w'\<rparr>) = abs_registry view r"
    using ext by (intro abs_world_same [OF inv])
  show ?thesis
    using other none k taken i a by (auto simp: abs_update_def split: option.splits)
next
  case (created h w')
  have "cache_of k' r (name e) = None" for k'
    using prom_invD(2) [OF inv] created(5) by (metis not_None_eq)
  then have "families (abs_registry view r) (name e) = None"
    by (simp add: abs_families_None collector_None [OF inv])
  moreover have "name e \<noteq> dropped_name"
    using inv created(5) unfolding prom_inv_def by metis
  moreover have "descs (view (registry r)) h' = Some x \<Longrightarrow> descs (view w') h' = Some x" for h' x
    using created by auto
  then have "prom_inv view (store_of k (name e) h (r\<lparr>registry := w'\<rparr>))"
    using created by (intro prom_inv_store [OF inv created(5), of w' h]) simp_all
  ultimately show ?thesis
    using abs_created [OF inv created(5,6,7), of k] created k by (simp add: abs_update_def)
qed

lemma update_refines:
  assumes "prom_spec view ok api" "prom_inv view r" "admissible (metric_kind e) (sample e)"
  shows "case update api r e of (res, r') \<Rightarrow>
    prom_inv view r' \<and> (res, abs_registry view r') = abs_update ok e (abs_registry view r)"
  using update_observed [OF assms] observed_refines [OF assms(2) refl]
  by (auto split: prod.splits)

lemma prom_registry_new_ok:
  assumes "prom_spec view ok api"
  shows "\<exists>r. prom_registry_new api bs = Inr r \<and> prom_inv view r \<and>
    abs_registry view r = \<lparr>families = Map.empty, samples = (\<lambda>_ _. [])\<rparr> \<and>
    series (view (registry r)) (dropped_counter r) [] = []"
proof -
  let ?descr = "lit ''Total metric samples dropped because the Fjall channel was full''"
  have v0: "view (registry_new api) = \<lparr>descs = Map.empty, registered = {}, series = (\<lambda>_ _. [])\<rparr>"
    and ok: "ok Counter dropped_name []" and rg: "register_spec view (register api)"
    using assms unfolding prom_spec_def by blast+
  obtain c w where c: "counter_with_opts api dropped_name ?descr (registry_new api) = (c, w)" by fastforce
  have "case counter_with_opts api dropped_name ?descr (registry_new api) of
        (Inl e, w') \<Rightarrow> \<not> ok Counter dropped_name [] \<and> view w' = view (registry_new api)
      | (Inr h, w') \<Rightarrow> ok Counter dropped_name [] \<and> descs (view (registry_new api)) h = None \<and>
          view w' = add_desc h dropped_name [] (view (registry_new api))"
    using assms unfolding prom_spec_def by (elim conjE allE)
  then obtain h where h: "c = Inr h" "view w = add_desc h dropped_name [] (view (registry_new api))"
    using ok unfolding c by (auto split: sum.splits)
  then have d: "descs (view w) h = Some (dropped_name, [])" by simp
  obtain g w' where g: "register api h w = (g, w')" by fastforce
  have r: "registered (view w) = {}" using h v0 by simp
  obtain u where u: "g = Inr u" "view w' = (view w)\<lparr>registered := {dropped_name}\<rparr>"
    using register_specD [OF rg d] r unfolding g by (auto split: sum.splits)
  let ?r = "\<lparr>registry = w', counters = lock_new Map.empty, gauges = lock_new Map.empty,
    histograms = lock_new Map.empty, dropped_counter = h, default_buckets = bs\<rparr>"
  have new: "prom_registry_new api bs = Inr ?r"
    using c h(1) g u(1) by (simp add: prom_registry_new_def)
  have e: "cache_of k ?r = Map.empty" "healthy_of k ?r" for k
    by (cases k; simp add: lock_new_def)+
  have "prom_inv view ?r"
    unfolding prom_inv_def e using u(2) d e(2) by simp
  moreover have "collector ?r = Map.empty"
    by (simp add: collector_def fun_eq_iff e del: cache_of.simps)
  moreover have "series (view w') h [] = []"
    using u(2) h(2) by simp
  ultimately show ?thesis using new by (auto simp: abs_registry_def)
qed

lemma inc_dropped_refines:
  assumes spec: "prom_spec view ok api" and inv: "prom_inv view r"
  shows "prom_inv view (inc_dropped api r) \<and>
    abs_registry view (inc_dropped api r) = abs_registry view r \<and>
    series (view (registry (inc_dropped api r))) (dropped_counter r) []
      = series (view (registry r)) (dropped_counter r) [] @ [Fin 1]"
proof -
  let ?w = "counter_inc api (dropped_counter r) (registry r)"
  have d: "descs (view (registry r)) (dropped_counter r) = Some (dropped_name, [])"
    using inv unfolding prom_inv_def by blast
  then have w: "view ?w = add_sample (dropped_counter r) [] (Fin 1) (view (registry r))"
    using spec unfolding prom_spec_def by blast
  have other: "h \<noteq> dropped_counter r" if "collector r nm = Some (k, h)" for nm k h
    using that collector_iff [OF inv] prom_invD [OF inv] d by (metis option.inject prod.inject)
  have "abs_registry view (r\<lparr>registry := ?w\<rparr>) = abs_registry view r"
    using other by (auto simp: abs_registry_def w fun_eq_iff split: option.splits)
  moreover have "prom_inv view (r\<lparr>registry := ?w\<rparr>)"
    using w by (intro prom_inv_world [OF inv]) simp_all
  ultimately show ?thesis by (simp add: inc_dropped_def w)
qed

text \<open>The drop counter is out of reach of \<open>update\<close>.\<close>

lemma observed_keeps_drops:
  assumes inv: "prom_inv view r"
    and ob: "observed view ok (cache_of k) (store_of k) r e res r'"
  shows "dropped_counter r' = dropped_counter r \<and>
    series (view (registry r')) (dropped_counter r) [] = series (view (registry r)) (dropped_counter r) []"
proof -
  have d: "descs (view (registry r)) (dropped_counter r) = Some (dropped_name, [])"
    using inv unfolding prom_inv_def by blast
  have cached: "h \<noteq> dropped_counter r" if "cache_of k r nm = Some h" for nm h
    using prom_invD(1,3) [OF inv that] d by auto
  have fresh: "h \<noteq> dropped_counter r" if "descs (view (registry r)) h = None" for h
    using that d by auto
  from ob show ?thesis by cases (auto dest!: cached fresh)
qed

lemma update_keeps_drops:
  assumes "prom_spec view ok api" "prom_inv view r" "admissible (metric_kind e) (sample e)"
    and "update api r e = (res, r')"
  shows "dropped_counter r' = dropped_counter r \<and>
    series (view (registry r')) (dropped_counter r) [] = series (view (registry r)) (dropped_counter r) []"
  using update_observed [OF assms(1-3)] observed_keeps_drops [OF assms(2)] assms(4) by fastforce

section \<open>A concrete crate\<close>

text \<open>
  A small implementation of the interface, to evaluate the code on: handles index a list
  of descriptors, each with the log of the samples applied through it.
\<close>

record ref_world =
  rw_descs :: "(rstr \<times> rstr list \<times> (rstr list \<times> f64) list) list"
  rw_registered :: "rstr list"

definition ref_view :: "ref_world \<Rightarrow> nat prom_view" where
  "ref_view w =
     \<lparr>descs = (\<lambda>h. if h < length (rw_descs w)
        then Some (fst (rw_descs w ! h), fst (snd (rw_descs w ! h))) else None),
      registered = set (rw_registered w),
      series = (\<lambda>h vs. if h < length (rw_descs w)
        then map snd (filter (\<lambda>s. fst s = vs) (snd (snd (rw_descs w ! h)))) else [])\<rparr>"

definition ref_ok :: "metric_type \<Rightarrow> rstr \<Rightarrow> rstr list \<Rightarrow> bool" where
  "ref_ok k nm ls \<longleftrightarrow> valid_name nm \<and> list_all (\<lambda>l. valid_name l \<and> 58 \<notin> set l) ls \<and>
     distinct ls \<and> (k = Histogram \<longrightarrow> lit ''le'' \<notin> set ls)"

definition ref_create ::
  "metric_type \<Rightarrow> rstr \<Rightarrow> rstr list \<Rightarrow> ref_world \<Rightarrow> (rstr + nat) \<times> ref_world" where
  "ref_create k nm ls w =
     (if ref_ok k nm ls
      then (Inr (length (rw_descs w)), w\<lparr>rw_descs := rw_descs w @ [(nm, ls, [])]\<rparr>)
      else (Inl (lit ''invalid definition''), w))"

definition ref_register :: "nat \<Rightarrow> ref_world \<Rightarrow> (rstr + unit) \<times> ref_world" where
  "ref_register h w =
     (let nm = fst (rw_descs w ! h)
      in if nm \<in> set (rw_registered w) then (Inl (lit ''already registered''), w)
         else (Inr (), w\<lparr>rw_registered := nm # rw_registered w\<rparr>))"

definition ref_log :: "nat \<Rightarrow> rstr list \<Rightarrow> f64 \<Rightarrow> ref_world \<Rightarrow> ref_world" where
  "ref_log h vs x w =
     w\<lparr>rw_descs := (rw_descs w)
        [h := (case rw_descs w ! h of (nm, ls, lg) \<Rightarrow> (nm, ls, lg @ [(vs, x)]))]\<rparr>"

definition ref_apply :: "nat \<Rightarrow> rstr list \<Rightarrow> f64 \<Rightarrow> ref_world \<Rightarrow> unit res \<times> ref_world" where
  "ref_apply h vs x w =
     (if length vs = length (fst (snd (rw_descs w ! h))) then (Ret (), ref_log h vs x w)
      else (Panicked LabelCardinality, w))"

definition ref_prom :: "(ref_world, nat) prom_api" where
  "ref_prom =
     \<lparr>registry_new = \<lparr>rw_descs = [], rw_registered = []\<rparr>,
      counter_with_opts = (\<lambda>nm hlp. ref_create Counter nm []),
      counter_vec_new = (\<lambda>nm hlp. ref_create Counter nm),
      gauge_vec_new = (\<lambda>nm hlp. ref_create Gauge nm),
      histogram_vec_new = (\<lambda>nm hlp bs. ref_create Histogram nm),
      register = ref_register,
      counter_inc = (\<lambda>h. ref_log h [] (Fin 1)),
      with_values_inc_by = ref_apply,
      with_values_set = ref_apply,
      with_values_observe = ref_apply,
      gather_encode = (\<lambda>w. Inr (utf8 (concat (rw_registered w))))\<rparr>"

lemma ref_creation: "creation_spec ref_view (ref_ok k) (ref_create k)"
  by (auto simp: creation_spec_def ref_create_def ref_view_def add_desc_def fun_eq_iff nth_append
      less_Suc_eq)

lemma ref_registering: "register_spec ref_view ref_register"
  by (auto simp: register_spec_def ref_register_def ref_view_def Let_def fun_eq_iff)

lemma ref_logging:
  "descs (ref_view w) h = Some (nm, ls) \<Longrightarrow> ref_view (ref_log h vs x w) = add_sample h vs x (ref_view w)"
  by (auto simp: ref_log_def ref_view_def add_sample_def fun_eq_iff nth_list_update
      split: if_splits prod.splits)

lemma ref_observing: "observe_spec ref_view adm ref_apply"
  unfolding observe_spec_def
proof (intro allI impI)
  fix h nm ls vs x w
  assume d: "descs (ref_view w) h = Some (nm, ls)"
  then have "fst (snd (rw_descs w ! h)) = ls" by (auto simp: ref_view_def split: if_splits)
  then show "case ref_apply h vs x w of
      (Ret u, w') \<Rightarrow> length vs = length ls \<and> ref_view w' = add_sample h vs x (ref_view w)
    | (Panicked p, w') \<Rightarrow> length vs \<noteq> length ls \<and> p = LabelCardinality \<and> ref_view w' = ref_view w"
    using ref_logging [OF d] by (simp add: ref_apply_def)
qed

lemma ref_prom_spec: "prom_spec ref_view ref_ok ref_prom"
proof -
  have "valid_name dropped_name"
    by (simp add: dropped_name_def str_eval)
  then have "ref_ok Counter dropped_name []" by (simp add: ref_ok_def)
  then show ?thesis
    using ref_creation ref_registering ref_logging ref_observing
    by (auto simp: prom_spec_def ref_prom_def ref_view_def [of "\<lparr>rw_descs = [], rw_registered = []\<rparr>"]
        fun_eq_iff ref_create_def add_desc_def nth_append less_Suc_eq)
       (auto simp: ref_view_def fun_eq_iff nth_append less_Suc_eq)
qed

section \<open>Properties\<close>

definition demo_entry :: "label list \<Rightarrow> metric_entry" where
  "demo_entry ls = \<lparr>timestamp = 0, name = lit ''a'', sample = Fin 1, metric_kind = Counter, labels = ls\<rparr>"

lemma demo_ok: "ref_ok Counter (lit ''a'') [lit ''m'']" "lit ''a'' \<noteq> dropped_name"
  by (simp_all add: ref_ok_def dropped_name_def str_eval)

lemma demo_admissible: "admissible (metric_kind (demo_entry ls)) (sample (demo_entry ls))"
  by (simp add: demo_entry_def admissible_def)

text \<open>A registry on which \<open>a{m="x"}\<close> was counted once.\<close>

lemma demo_registry:
  "\<exists>r r1. prom_registry_new ref_prom [] = Inr r \<and>
     update ref_prom r (demo_entry [(lit ''m'', lit ''x'')]) = (Ret (), r1) \<and> prom_inv ref_view r1 \<and>
     families (abs_registry ref_view r1) (lit ''a'') = Some (Counter, [lit ''m'']) \<and>
     samples (abs_registry ref_view r1) (lit ''a'') [lit ''x''] = [Fin 1]"
proof -
  let ?e = "demo_entry [(lit ''m'', lit ''x'')]"
  obtain r where r: "prom_registry_new ref_prom [] = Inr r" "prom_inv ref_view r"
    "abs_registry ref_view r = \<lparr>families = Map.empty, samples = (\<lambda>_ _. [])\<rparr>"
    using prom_registry_new_ok [OF ref_prom_spec, of "[]"] by blast
  obtain res r1 where u: "update ref_prom r ?e = (res, r1)" by fastforce
  have "prom_inv ref_view r1 \<and> (res, abs_registry ref_view r1) = abs_update ref_ok ?e (abs_registry ref_view r)"
    using update_refines [OF ref_prom_spec r(2) demo_admissible [of "[(lit ''m'', lit ''x'')]"]]
    unfolding u by simp
  then show ?thesis
    using r u demo_ok by (auto simp: abs_update_def abs_sample_def demo_entry_def)
qed

text \<open>
  Creating the registry succeeds, with the drop counter registered and at zero
  and no family yet.
\<close>

lemma registry_starts_empty:
  assumes "prom_spec view ok api"
  shows "\<exists>r. prom_registry_new api bs = Inr r \<and> prom_inv view r \<and>
    abs_registry view r = \<lparr>families = Map.empty, samples = (\<lambda>_ _. [])\<rparr> \<and>
    series (view (registry r)) (dropped_counter r) [] = []"
  using assms by (rule prom_registry_new_ok)



text \<open>
  Once a family exists, observing its name and kind with another number of labels
  panics in the recording thread instead of being rejected with a warning.
\<close>

lemma label_count_mismatch_panics:
  assumes "prom_spec view ok api" and "prom_inv view r"
    and "admissible (metric_kind e) (sample e)"
    and "families (abs_registry view r) (name e) = Some (metric_kind e, ls)"
    and "length (labels e) \<noteq> length ls"
  shows "fst (update api r e) = Panicked LabelCardinality"
  using update_refines [OF assms(1-3)] assms(4,5) by (auto simp: abs_update_def split: prod.splits)

lemma label_count_mismatch_panics_witness:
  "\<exists>r r1. prom_registry_new ref_prom [] = Inr r \<and>
     update ref_prom r (demo_entry [(lit ''m'', lit ''x'')]) = (Ret (), r1) \<and>
     fst (update ref_prom r1 (demo_entry [])) = Panicked LabelCardinality"
proof -
  obtain r r1 where r: "prom_registry_new ref_prom [] = Inr r"
    "update ref_prom r (demo_entry [(lit ''m'', lit ''x'')]) = (Ret (), r1)" "prom_inv ref_view r1"
    "families (abs_registry ref_view r1) (lit ''a'') = Some (Counter, [lit ''m''])"
    using demo_registry by blast
  have "fst (update ref_prom r1 (demo_entry [])) = Panicked LabelCardinality"
    using label_count_mismatch_panics [OF ref_prom_spec r(3) demo_admissible [of "[]"], of "[lit ''m'']"]
      r(4) by (simp add: demo_entry_def)
  with r show ?thesis by blast
qed

text \<open>
  Label names are not compared: an observation with as many labels as the family
  but other names is counted in the series of its values, under the names of the first use.
\<close>

lemma label_names_not_compared:
  assumes "prom_spec view ok api" and "prom_inv view r"
    and "admissible (metric_kind e) (sample e)"
    and "families (abs_registry view r) (name e) = Some (metric_kind e, ls)"
    and "length (labels e) = length ls"
  shows "fst (update api r e) = Ret () \<and>
    families (abs_registry view (snd (update api r e))) (name e) = Some (metric_kind e, ls) \<and>
    samples (abs_registry view (snd (update api r e))) (name e) (map snd (labels e))
      = samples (abs_registry view r) (name e) (map snd (labels e)) @ [sample e]"
  using update_refines [OF assms(1-3)] assms(4,5)
  by (auto simp: abs_update_def abs_sample_def split: prod.splits)

lemma label_names_not_compared_witness:
  "\<exists>r r1. prom_registry_new ref_prom [] = Inr r \<and>
     update ref_prom r (demo_entry [(lit ''m'', lit ''x'')]) = (Ret (), r1) \<and>
     samples (abs_registry ref_view (snd (update ref_prom r1 (demo_entry [(lit ''other'', lit ''x'')]))))
       (lit ''a'') [lit ''x''] = [Fin 1, Fin 1]"
proof -
  obtain r r1 where r: "prom_registry_new ref_prom [] = Inr r"
    "update ref_prom r (demo_entry [(lit ''m'', lit ''x'')]) = (Ret (), r1)" "prom_inv ref_view r1"
    "families (abs_registry ref_view r1) (lit ''a'') = Some (Counter, [lit ''m''])"
    "samples (abs_registry ref_view r1) (lit ''a'') [lit ''x''] = [Fin 1]"
    using demo_registry by blast
  have "samples (abs_registry ref_view (snd (update ref_prom r1 (demo_entry [(lit ''other'', lit ''x'')]))))
       (lit ''a'') [lit ''x''] = [Fin 1, Fin 1]"
    using label_names_not_compared [OF ref_prom_spec r(3)
        demo_admissible [of "[(lit ''other'', lit ''x'')]"], of "[lit ''m'']"] r(4,5)
    by (simp add: demo_entry_def)
  with r show ?thesis by blast
qed

end
