(* ===== verification/KeyCodec.thy ===== *)
theory KeyCodec
  imports Types
begin

text \<open>
  The composite key of \<open>src/storage/fjall_engine.rs\<close>: \<open>encode_key\<close>,
  \<open>cutoff_prefix\<close>, \<open>decode_key\<close>, with Rust's \<open>{:016x}\<close> formatting,
  \<open>splitn\<close> and \<open>u64::from_str_radix\<close> below them. The contract the compaction
  relies on is the locale \<open>timed_key_codec\<close>: a key decodes to its timestamp and name,
  and the range below a cutoff is exactly the older keys.
\<close>

section \<open>Hexadecimal formatting\<close>

definition hex_digit :: "nat \<Rightarrow> nat" where
  "hex_digit d = (if d < 10 then 48 + d else 87 + d)"

fun hex_digits :: "nat \<Rightarrow> rstr" where
  "hex_digits n = (if n < 16 then [hex_digit n] else hex_digits (n div 16) @ [hex_digit (n mod 16)])"

declare hex_digits.simps [simp del]

text \<open>\<open>{:0wx}\<close>: at least \<open>w\<close> digits, padded with zeros on the left.\<close>

definition fmt_hex :: "nat \<Rightarrow> nat \<Rightarrow> rstr" where
  "fmt_hex w n = replicate (w - length (hex_digits n)) 48 @ hex_digits n"

section \<open>Encoding\<close>

definition encode_key :: "u64 \<Rightarrow> u32 \<Rightarrow> rstr \<Rightarrow> byte list" where
  "encode_key ts_micros seq nm =
     utf8 (fmt_hex 16 (unat ts_micros) @ [58] @ fmt_hex 8 (unat seq) @ [58] @ nm)"

definition cutoff_prefix :: "u64 \<Rightarrow> rstr" where
  "cutoff_prefix cutoff_micros = fmt_hex 16 (unat cutoff_micros)"

section \<open>Decoding\<close>

text \<open>\<open>key.splitn(n, |b| *b == b':')\<close>: at most \<open>n\<close> parts, the last with the rest.\<close>

fun splitn :: "nat \<Rightarrow> byte \<Rightarrow> byte list \<Rightarrow> byte list list" where
  "splitn 0 sep bs = []"
| "splitn (Suc 0) sep bs = [bs]"
| "splitn (Suc (Suc n)) sep bs =
     (case dropWhile (\<lambda>b. b \<noteq> sep) bs of
        [] \<Rightarrow> [bs]
      | _ # rest \<Rightarrow> takeWhile (\<lambda>b. b \<noteq> sep) bs # splitn (Suc n) sep rest)"

definition hex_value :: "nat \<Rightarrow> nat option" where
  "hex_value c =
     (if 48 \<le> c \<and> c \<le> 57 then Some (c - 48)
      else if 97 \<le> c \<and> c \<le> 102 then Some (c - 87)
      else if 65 \<le> c \<and> c \<le> 70 then Some (c - 55)
      else None)"

fun radix16_loop :: "nat \<Rightarrow> rstr \<Rightarrow> nat option" where
  "radix16_loop acc [] = Some acc"
| "radix16_loop acc (c # cs) =
     (case hex_value c of
        None \<Rightarrow> None
      | Some d \<Rightarrow> if acc * 16 + d < 2 ^ 64 then radix16_loop (acc * 16 + d) cs else None)"

text \<open>
  \<open>u64::from_str_radix(s, 16)\<close>: an optional leading \<open>+\<close>, at least one digit of
  either case, no overflow.
\<close>

definition from_str_radix16 :: "rstr \<Rightarrow> u64 option" where
  "from_str_radix16 s =
     (case s of
        [] \<Rightarrow> None
      | c # cs \<Rightarrow>
          let digits = (if c = 43 then cs else s)
          in if digits = [] then None else map_option of_nat (radix16_loop 0 digits))"

definition decode_key :: "byte list \<Rightarrow> (u64 \<times> rstr) option" where
  "decode_key key =
     (case splitn 3 58 key of
        p0 # rest0 \<Rightarrow>
          (case from_utf8 p0 of
             None \<Rightarrow> None
           | Some ts \<Rightarrow>
               (case rest0 of
                  _ # p2 # _ \<Rightarrow>
                    (case from_utf8 p2 of
                       None \<Rightarrow> None
                     | Some nm \<Rightarrow>
                         (case from_str_radix16 ts of
                            None \<Rightarrow> None
                          | Some ts_micros \<Rightarrow> Some (ts_micros, nm)))
                | _ \<Rightarrow> None))
      | [] \<Rightarrow> None)"

section \<open>Micros of an entry\<close>

text \<open>
  \<open>duration_since(UNIX_EPOCH)\<close> fails before the epoch (then 0); the \<open>u128\<close> of
  microseconds is converted with saturation.
\<close>

definition entry_micros :: "metric_entry \<Rightarrow> u64" where
  "entry_micros e =
     (if timestamp e < 0 then 0
      else let m = nat (timestamp e div 1000) in if m < 2 ^ 64 then of_nat m else - 1)"

section \<open>The contract\<close>

locale timed_key_codec =
  fixes enc :: "u64 \<Rightarrow> u32 \<Rightarrow> rstr \<Rightarrow> byte list"
    and dec :: "byte list \<Rightarrow> (u64 \<times> rstr) option"
    and bound :: "u64 \<Rightarrow> byte list"
  assumes dec_enc: "valid_str nm \<Longrightarrow> dec (enc t s nm) = Some (t, nm)"
    and enc_less_enc:
      "enc t s nm < enc t' s' nm' \<longleftrightarrow>
         t < t' \<or> t = t' \<and> (s < s' \<or> s = s' \<and> utf8 nm < utf8 nm')"
    and enc_less_bound: "enc t s nm < bound c \<longleftrightarrow> t < c"
begin

lemma enc_inj:
  assumes "valid_str nm" "valid_str nm'" "enc t s nm = enc t' s' nm'"
  shows "t = t' \<and> s = s' \<and> nm = nm'"
proof -
  from assms have "Some (t, nm) = Some (t', nm')" by (metis dec_enc)
  moreover have "\<not> enc t s nm < enc t' s' nm'" "\<not> enc t' s' nm' < enc t s nm"
    using assms(3) by auto
  ultimately show ?thesis
    using assms(1,2) by (auto simp: enc_less_enc)
qed

text \<open>A range scan below a cutoff, over any list of encoded keys.\<close>

lemma filter_below:
  "filter (\<lambda>k. k < bound c) (map (\<lambda>(t, s, nm). enc t s nm) ks)
     = map (\<lambda>(t, s, nm). enc t s nm) (filter (\<lambda>(t, s, nm). t < c) ks)"
  by (induction ks) (auto simp: enc_less_bound)

lemma decoded_below:
  "list_all (\<lambda>(t, s, nm). valid_str nm) ks \<Longrightarrow>
   map dec (filter (\<lambda>k. k < bound c) (map (\<lambda>(t, s, nm). enc t s nm) ks))
     = map (\<lambda>(t, s, nm). Some (t, nm)) (filter (\<lambda>(t, s, nm). t < c) ks)"
  by (induction ks) (auto simp: enc_less_bound dec_enc)

end

section \<open>Fixed-width digits\<close>

text \<open>What \<open>{:016x}\<close> prints when the value fits: exactly \<open>w\<close> digits.\<close>

fun hexw :: "nat \<Rightarrow> nat \<Rightarrow> rstr" where
  "hexw 0 n = []"
| "hexw (Suc w) n = hexw w (n div 16) @ [hex_digit (n mod 16)]"

lemma length_hexw [simp]: "length (hexw w n) = w"
  by (induction w arbitrary: n) auto

lemma hexw_0: "hexw w 0 = replicate w 48"
  by (induction w) (auto simp: hex_digit_def replicate_append_same)

lemma length_hex_digits: "0 < w \<Longrightarrow> n < 16 ^ w \<Longrightarrow> length (hex_digits n) \<le> w"
proof (induction w arbitrary: n)
  case (Suc w)
  show ?case
  proof (cases "n < 16")
    case False
    then have "0 < w" using Suc.prems by (cases w) auto
    moreover have "n div 16 < 16 ^ w" using Suc.prems by (simp add: less_mult_imp_div_less mult.commute)
    ultimately show ?thesis using Suc.IH False by (subst hex_digits.simps) simp
  qed (subst hex_digits.simps, simp)
qed simp

lemma fmt_hex_hexw: "0 < w \<Longrightarrow> n < 16 ^ w \<Longrightarrow> fmt_hex w n = hexw w n"
proof (induction w arbitrary: n)
  case (Suc w)
  show ?case
  proof (cases "n < 16")
    case True
    then show ?thesis by (simp add: fmt_hex_def hex_digits.simps [of n] hexw_0)
  next
    case False
    then have "0 < w" using Suc.prems by (cases w) auto
    moreover have "n div 16 < 16 ^ w" using Suc.prems by (simp add: less_mult_imp_div_less mult.commute)
    ultimately have "fmt_hex w (n div 16) = hexw w (n div 16)" by (rule Suc.IH)
    with False show ?thesis by (simp add: fmt_hex_def hex_digits.simps [of n])
  qed
qed simp

lemma hex_digit_less: "a < 16 \<Longrightarrow> b < 16 \<Longrightarrow> hex_digit a < hex_digit b \<longleftrightarrow> a < b"
  by (auto simp: hex_digit_def)

lemma hex_digit_eq: "a < 16 \<Longrightarrow> b < 16 \<Longrightarrow> hex_digit a = hex_digit b \<longleftrightarrow> a = b"
  by (auto simp: hex_digit_def)

lemma hexw_eq: "m < 16 ^ w \<Longrightarrow> n < 16 ^ w \<Longrightarrow> hexw w m = hexw w n \<longleftrightarrow> m = n"
proof (induction w arbitrary: m n)
  case (Suc w)
  have "m div 16 < 16 ^ w" "n div 16 < 16 ^ w"
    using Suc.prems by (simp_all add: less_mult_imp_div_less mult.commute)
  then have "hexw (Suc w) m = hexw (Suc w) n \<longleftrightarrow> m div 16 = n div 16 \<and> m mod 16 = n mod 16"
    by (simp add: Suc.IH hex_digit_eq)
  also have "\<dots> \<longleftrightarrow> m = n" by (metis div_mod_decomp)
  finally show ?case .
qed simp

lemma lex_16:
  fixes q p r s :: nat
  shows "r < 16 \<Longrightarrow> s < 16 \<Longrightarrow> q < p \<or> q = p \<and> r < s \<longleftrightarrow> q * 16 + r < p * 16 + s"
  by linarith

lemma hexw_less: "m < 16 ^ w \<Longrightarrow> n < 16 ^ w \<Longrightarrow> hexw w m < hexw w n \<longleftrightarrow> m < n"
proof (induction w arbitrary: m n)
  case (Suc w)
  have b: "m div 16 < 16 ^ w" "n div 16 < 16 ^ w"
    using Suc.prems by (simp_all add: less_mult_imp_div_less mult.commute)
  then have "hexw (Suc w) m < hexw (Suc w) n \<longleftrightarrow>
      m div 16 < n div 16 \<or> m div 16 = n div 16 \<and> m mod 16 < n mod 16"
    by (simp add: list_less_append_fixed Suc.IH hexw_eq hex_digit_less)
  also have "\<dots> \<longleftrightarrow> m div 16 * 16 + m mod 16 < n div 16 * 16 + n mod 16"
    by (rule lex_16) simp_all
  also have "\<dots> \<longleftrightarrow> m < n" by simp
  finally show ?case .
qed simp

lemma hexw_ascii: "is_ascii (hexw w n)"
  by (induction w arbitrary: n) (auto simp: hex_digit_def)

lemma hexw_digits: "c \<in> set (hexw w n) \<Longrightarrow> c \<noteq> 58 \<and> c \<noteq> 43"
  by (induction w arbitrary: n) (auto simp: hex_digit_def split: if_splits)

lemma hex_value_digit [simp]: "d < 16 \<Longrightarrow> hex_value (hex_digit d) = Some d"
  by (auto simp: hex_value_def hex_digit_def)

lemma radix16_loop_append:
  "radix16_loop acc (cs @ ds) = (case radix16_loop acc cs of None \<Rightarrow> None | Some a \<Rightarrow> radix16_loop a ds)"
  by (induction acc cs rule: radix16_loop.induct) (auto split: option.splits)

lemma radix16_loop_hexw: "n < 16 ^ w \<Longrightarrow> n < 2 ^ 64 \<Longrightarrow> radix16_loop 0 (hexw w n) = Some n"
proof (induction w arbitrary: n)
  case (Suc w)
  have "n div 16 < 16 ^ w" using Suc.prems by (simp add: less_mult_imp_div_less mult.commute)
  moreover have "n div 16 < 2 ^ 64" using Suc.prems(2) by simp
  ultimately have "radix16_loop 0 (hexw w (n div 16)) = Some (n div 16)" by (rule Suc.IH)
  with Suc.prems(2) show ?case by (simp add: radix16_loop_append)
qed simp

lemma from_str_radix16_hexw:
  assumes "0 < w" "n < 16 ^ w" "n < 2 ^ 64"
  shows "from_str_radix16 (hexw w n) = Some (of_nat n)"
proof -
  obtain c cs where c: "hexw w n = c # cs" using assms(1) by (cases "hexw w n") (auto dest: arg_cong [where f = length])
  then have "c \<noteq> 43" using hexw_digits [of c w n] by simp
  with c show ?thesis
    using radix16_loop_hexw [OF assms(2,3)] by (simp add: from_str_radix16_def)
qed

section \<open>Keys\<close>

definition hex_bytes :: "nat \<Rightarrow> nat \<Rightarrow> byte list" where
  "hex_bytes w n = map of_nat (hexw w n)"

lemma length_hex_bytes [simp]: "length (hex_bytes w n) = w"
  by (simp add: hex_bytes_def)

lemma of_nat_byte_less: "x < 128 \<Longrightarrow> y < 128 \<Longrightarrow> (of_nat x :: byte) < of_nat y \<longleftrightarrow> x < y"
  by (simp add: word_less_nat_alt unat_byte)

lemma hex_bytes_less:
  assumes "m < 16 ^ w" "n < 16 ^ w"
  shows "hex_bytes w m < hex_bytes w n \<longleftrightarrow> m < n"
proof -
  have "hex_bytes w m < hex_bytes w n \<longleftrightarrow> hexw w m < hexw w n"
    unfolding hex_bytes_def
    using hexw_ascii [of w m] hexw_ascii [of w n]
    by (intro map_less_iff of_nat_byte_less) (auto simp: is_ascii_iff)
  then show ?thesis using assms by (simp add: hexw_less)
qed

lemma hex_bytes_eq:
  assumes "m < 16 ^ w" "n < 16 ^ w"
  shows "hex_bytes w m = hex_bytes w n \<longleftrightarrow> m = n"
  using hex_bytes_less [OF assms] hex_bytes_less [OF assms(2,1)] by (metis less_irrefl linorder_neqE_nat)

lemma encode_key_bytes:
  "encode_key t s nm = hex_bytes 16 (unat t) @ [58] @ hex_bytes 8 (unat s) @ [58] @ utf8 nm"
  using unat_u64_less [of t] unat_u32_less [of s]
  by (simp add: encode_key_def hex_bytes_def fmt_hex_hexw utf8_ascii [OF hexw_ascii] utf8_char_def)

lemma cutoff_prefix_bytes: "utf8 (cutoff_prefix c) = hex_bytes 16 (unat c)"
  using unat_u64_less [of c]
  by (simp add: cutoff_prefix_def hex_bytes_def fmt_hex_hexw utf8_ascii [OF hexw_ascii])

lemma encode_key_less:
  "encode_key t s nm < encode_key t' s' nm' \<longleftrightarrow>
     t < t' \<or> t = t' \<and> (s < s' \<or> s = s' \<and> utf8 nm < utf8 nm')"
  unfolding encode_key_bytes
  using unat_u64_less [of t] unat_u64_less [of t'] unat_u32_less [of s] unat_u32_less [of s']
  by (simp add: list_less_append_fixed hex_bytes_less hex_bytes_eq word_less_nat_alt word_unat_eq_iff)

lemma encode_key_less_cutoff: "encode_key t s nm < utf8 (cutoff_prefix c) \<longleftrightarrow> t < c"
  unfolding encode_key_bytes cutoff_prefix_bytes
  using unat_u64_less [of t] unat_u64_less [of c]
  list_less_append_fixed [of "hex_bytes 16 (unat t)" "hex_bytes 16 (unat c)"
      "[58] @ hex_bytes 8 (unat s) @ [58] @ utf8 nm" "[]"]
  by (simp add: hex_bytes_less word_less_nat_alt)

lemma hex_bytes_no_sep: "b \<in> set (hex_bytes w n) \<Longrightarrow> b \<noteq> 58"
proof -
  assume "b \<in> set (hex_bytes w n)"
  then obtain c where c: "c \<in> set (hexw w n)" "b = of_nat c" by (auto simp: hex_bytes_def)
  then have "c < 128" "c \<noteq> 58" using hexw_digits hexw_ascii by (auto simp: is_ascii_iff)
  then have "unat b \<noteq> 58" using c(2) by (simp add: unat_byte)
  then show "b \<noteq> 58" by auto
qed

lemma split_hex_bytes:
  "splitn (Suc (Suc n)) 58 (hex_bytes w m @ 58 # r) = hex_bytes w m # splitn (Suc n) 58 r"
proof -
  have "takeWhile (\<lambda>b. b \<noteq> 58) (hex_bytes w m @ 58 # r) = hex_bytes w m"
    "dropWhile (\<lambda>b. b \<noteq> 58) (hex_bytes w m @ 58 # r) = 58 # r"
    using hex_bytes_no_sep by (simp_all add: takeWhile_append dropWhile_append)
  then show ?thesis by simp
qed

lemma decode_encode_key:
  assumes "valid_str nm"
  shows "decode_key (encode_key t s nm) = Some (t, nm)"
proof -
  have "splitn 3 58 (encode_key t s nm) = [hex_bytes 16 (unat t), hex_bytes 8 (unat s), utf8 nm]"
    by (simp add: encode_key_bytes numeral_3_eq_3 split_hex_bytes del: splitn.simps(3))
  moreover have "from_utf8 (hex_bytes 16 (unat t)) = Some (hexw 16 (unat t))"
    using from_utf8_utf8 [OF is_ascii_valid [OF hexw_ascii]]
    by (simp add: hex_bytes_def utf8_ascii [OF hexw_ascii])
  ultimately show ?thesis
    using from_str_radix16_hexw [of 16 "unat t"] unat_u64_less [of t] assms
    by (simp add: decode_key_def from_utf8_utf8)
qed

text \<open>The code's functions meet the contract.\<close>

interpretation fjall_key: timed_key_codec encode_key decode_key "\<lambda>c. utf8 (cutoff_prefix c)"
  by unfold_locales (auto simp: decode_encode_key encode_key_less encode_key_less_cutoff)

lemma unat_max_u64: "unat (- 1 :: u64) = 2 ^ 64 - 1"
  by (simp add: unsigned_minus_1_eq_mask mask_eq_exp_minus_1)

lemma unat_entry_micros:
  "unat (entry_micros e) = (if timestamp e < 0 then 0 else min (2 ^ 64 - 1) (nat (timestamp e div 1000)))"
proof (cases "timestamp e < 0 \<or> \<not> nat (timestamp e div 1000) < 2 ^ 64")
  case True
  then show ?thesis by (auto simp: entry_micros_def Let_def unat_max_u64)
next
  case False
  then have "unat (of_nat (nat (timestamp e div 1000)) :: u64) = nat (timestamp e div 1000)"
    by (intro unat_of_nat_small) simp
  with False show ?thesis
    by (simp add: entry_micros_def Let_def min_def del: of_nat_nat)
qed

section \<open>Properties\<close>

text \<open>
  C26: a composite key decodes to the timestamp and metric name it was built from,
  also when the name itself contains the separator (names may contain colons).
\<close>

theorem key_roundtrip:
  assumes "valid_str nm"
  shows "decode_key (encode_key t s nm) = Some (t, nm)"
  using assms by (rule fjall_key.dec_enc)

theorem key_roundtrip_witness:
  "decode_key (encode_key 2000 3 (lit ''a:b'')) = Some (2000, lit ''a:b'')"
  by (rule key_roundtrip) (simp add: lit_def is_scalar_def)

text \<open>
  Byte order of keys is the order by timestamp, then sequence number, then
  the bytes of the name.
\<close>

lemma key_order_chronological:
  "encode_key t s nm < encode_key t' s' nm' \<longleftrightarrow>
     t < t' \<or> t = t' \<and> (s < s' \<or> s = s' \<and> utf8 nm < utf8 nm')"
  by (rule fjall_key.enc_less_enc)

text \<open>
  C25: the scan range below \<open>cutoff_prefix c\<close> holds exactly the keys older than
  \<open>c\<close>; the cutoff itself is excluded.
\<close>

theorem cutoff_scan_exact: "encode_key t s nm < utf8 (cutoff_prefix c) \<longleftrightarrow> t < c"
  by (rule fjall_key.enc_less_bound)

text \<open>
  Keys of two entries captured in different microseconds of the representable
  range sort in the order of capture, whatever their sequence numbers and names.
\<close>

lemma later_entry_sorts_later:
  assumes "0 \<le> timestamp e" and "timestamp e div 1000 < timestamp e' div 1000"
    and "timestamp e' div 1000 < 2 ^ 64"
  shows "encode_key (entry_micros e) s (name e) < encode_key (entry_micros e') s' (name e')"
proof -
  have "0 \<le> timestamp e div 1000" using assms(1) by simp
  then have "0 \<le> timestamp e'" using assms(2) by (smt (verit) div_neg_pos_less0)
  with assms have "unat (entry_micros e) < unat (entry_micros e')"
    by (simp add: unat_entry_micros nat_less_iff)
  then show ?thesis by (simp add: fjall_key.enc_less_enc word_less_nat_alt)
qed

end
