(* ===== verification/Interfaces.thy ===== *)
theory Interfaces
  imports KeyCodec
begin

text \<open>
  The two external components the engine talks to: the bounded channel of \<open>tokio\<close>
  and the \<open>fjall\<close> partition. Each is a record of operations over an opaque state, an
  argument of the definitions that use it; what the code relies on is a predicate over a
  view of that state; and each has a concrete implementation on which the code is
  evaluated and the predicate is shown to be satisfiable.
\<close>

section \<open>The bounded channel\<close>

datatype send_error = Full | Closed

datatype received =
    Received pipeline_msg
  | Disconnected  \<comment> \<open>all senders are gone and the channel is empty\<close>
  | WouldBlock    \<comment> \<open>empty, with a sender alive: the caller parks\<close>

record 'c chan_api =
  mpsc_channel :: "nat \<Rightarrow> 'c"
  try_send :: "'c \<Rightarrow> pipeline_msg \<Rightarrow> (send_error + unit) \<times> 'c"
  try_recv :: "'c \<Rightarrow> pipeline_msg option \<times> 'c"
  blocking_recv :: "'c \<Rightarrow> received \<times> 'c"
  drop_receiver :: "'c \<Rightarrow> 'c"

record chan_view =
  queue :: "pipeline_msg list"
  capacity :: nat
  rx_open :: bool
  tx_open :: bool

definition send_view :: "pipeline_msg \<Rightarrow> chan_view \<Rightarrow> (send_error + unit) \<times> chan_view" where
  "send_view m v =
     (if \<not> rx_open v then (Inl Closed, v)
      else if capacity v \<le> length (queue v) then (Inl Full, v)
      else (Inr (), v\<lparr>queue := queue v @ [m]\<rparr>))"

definition try_recv_view :: "chan_view \<Rightarrow> pipeline_msg option \<times> chan_view" where
  "try_recv_view v = (case queue v of [] \<Rightarrow> (None, v) | m # q \<Rightarrow> (Some m, v\<lparr>queue := q\<rparr>))"

definition blocking_recv_view :: "chan_view \<Rightarrow> received \<times> chan_view" where
  "blocking_recv_view v =
     (case queue v of
        [] \<Rightarrow> (if tx_open v then WouldBlock else Disconnected, v)
      | m # q \<Rightarrow> (Received m, v\<lparr>queue := q\<rparr>))"

text \<open>
  Documented behaviour of \<open>tokio::sync::mpsc\<close>: a first-in first-out queue of bounded
  capacity; \<open>try_send\<close> fails with \<open>Full\<close> or \<open>Closed\<close> and then sends nothing.
\<close>

definition chan_spec :: "('c \<Rightarrow> chan_view) \<Rightarrow> 'c chan_api \<Rightarrow> bool" where
  "chan_spec view ch \<longleftrightarrow>
     (\<forall>n. view (mpsc_channel ch n) = \<lparr>queue = [], capacity = n, rx_open = True, tx_open = True\<rparr>) \<and>
     (\<forall>c m. map_prod id view (try_send ch c m) = send_view m (view c)) \<and>
     (\<forall>c. map_prod id view (try_recv ch c) = try_recv_view (view c)) \<and>
     (\<forall>c. map_prod id view (blocking_recv ch c) = blocking_recv_view (view c)) \<and>
     (\<forall>c. view (drop_receiver ch c) = (view c)\<lparr>queue := [], rx_open := False\<rparr>)"

lemma chan_specD:
  assumes "chan_spec view ch"
  shows "view (mpsc_channel ch n) = \<lparr>queue = [], capacity = n, rx_open = True, tx_open = True\<rparr>"
    and "try_send ch c m = (r, c') \<Longrightarrow> send_view m (view c) = (r, view c')"
    and "try_recv ch c = (o', c') \<Longrightarrow> try_recv_view (view c) = (o', view c')"
    and "blocking_recv ch c = (b, c') \<Longrightarrow> blocking_recv_view (view c) = (b, view c')"
    and "view (drop_receiver ch c) = (view c)\<lparr>queue := [], rx_open := False\<rparr>"
  using assms unfolding chan_spec_def by (metis id_apply map_prod_simp)+

definition ref_chan :: "chan_view chan_api" where
  "ref_chan =
     \<lparr>mpsc_channel = (\<lambda>n. \<lparr>queue = [], capacity = n, rx_open = True, tx_open = True\<rparr>),
      try_send = (\<lambda>c m. send_view m c),
      try_recv = try_recv_view,
      blocking_recv = blocking_recv_view,
      drop_receiver = (\<lambda>c. c\<lparr>queue := [], rx_open := False\<rparr>)\<rparr>"

lemma ref_chan_spec: "chan_spec id ref_chan"
  by (simp add: chan_spec_def ref_chan_def map_prod.identity id_def)

section \<open>The partition\<close>

type_synonym kv = "byte list \<times> byte list"

record 'p fjall_api =
  part_insert :: "'p \<Rightarrow> byte list \<Rightarrow> byte list \<Rightarrow> (rstr + unit) \<times> 'p"
  part_remove :: "'p \<Rightarrow> byte list \<Rightarrow> (rstr + unit) \<times> 'p"
  part_range_to :: "'p \<Rightarrow> byte list \<Rightarrow> (rstr + kv) list"
  persist :: "'p \<Rightarrow> (rstr + unit) \<times> 'p"

fun oks :: "('e + 'a) list \<Rightarrow> 'a list" where
  "oks [] = []"
| "oks (Inl e # xs) = oks xs"
| "oks (Inr x # xs) = x # oks xs"

text \<open>
  Documented behaviour of \<open>fjall\<close>: inserts and removes change one key or fail; a
  range scan \<open>..bound\<close> is taken on a snapshot and yields entries below the bound in key
  order, all of them when no item is an error; persisting changes no content.
\<close>

definition scan_ok :: "(byte list \<rightharpoonup> byte list) \<Rightarrow> byte list \<Rightarrow> (rstr + kv) list \<Rightarrow> bool" where
  "scan_ok m b items \<longleftrightarrow>
     sorted_wrt (<) (map fst (oks items)) \<and>
     (\<forall>(k, v) \<in> set (oks items). k < b \<and> m k = Some v) \<and>
     ((\<forall>x. Inl x \<notin> set items) \<longrightarrow> (\<forall>k v. k < b \<and> m k = Some v \<longrightarrow> (k, v) \<in> set (oks items)))"

definition fjall_spec :: "('p \<Rightarrow> byte list \<rightharpoonup> byte list) \<Rightarrow> 'p fjall_api \<Rightarrow> bool" where
  "fjall_spec cont fj \<longleftrightarrow>
     (\<forall>p k v. case part_insert fj p k v of
        (Inl e, p') \<Rightarrow> cont p' = cont p | (Inr u, p') \<Rightarrow> cont p' = (cont p)(k \<mapsto> v)) \<and>
     (\<forall>p k. case part_remove fj p k of
        (Inl e, p') \<Rightarrow> cont p' = cont p | (Inr u, p') \<Rightarrow> cont p' = (cont p)(k := None)) \<and>
     (\<forall>p b. scan_ok (cont p) b (part_range_to fj p b)) \<and>
     (\<forall>p. cont (snd (persist fj p)) = cont p)"

text \<open>A store on which no operation fails.\<close>

definition fjall_reliable :: "'p fjall_api \<Rightarrow> bool" where
  "fjall_reliable fj \<longleftrightarrow>
     (\<forall>p k v e. fst (part_insert fj p k v) \<noteq> Inl e) \<and>
     (\<forall>p k e. fst (part_remove fj p k) \<noteq> Inl e) \<and>
     (\<forall>p b e. Inl e \<notin> set (part_range_to fj p b))"

lemma part_insert_reliable:
  assumes "fjall_spec cont fj" "fjall_reliable fj"
  shows "cont (snd (part_insert fj p k v)) = (cont p)(k \<mapsto> v)"
proof -
  obtain r p' where r: "part_insert fj p k v = (r, p')" by fastforce
  moreover have "case part_insert fj p k v of
      (Inl e, p') \<Rightarrow> cont p' = cont p | (Inr u, p') \<Rightarrow> cont p' = (cont p)(k \<mapsto> v)"
    using assms(1) unfolding fjall_spec_def by (elim conjE allE)
  moreover have "\<And>e. fst (part_insert fj p k v) \<noteq> Inl e"
    using assms(2) unfolding fjall_reliable_def by blast
  ultimately show ?thesis by (cases r) auto
qed

lemma part_remove_reliable:
  assumes "fjall_spec cont fj" "fjall_reliable fj"
  shows "cont (snd (part_remove fj p k)) = (cont p)(k := None)"
proof -
  obtain r p' where r: "part_remove fj p k = (r, p')" by fastforce
  moreover have "case part_remove fj p k of
      (Inl e, p') \<Rightarrow> cont p' = cont p | (Inr u, p') \<Rightarrow> cont p' = (cont p)(k := None)"
    using assms(1) unfolding fjall_spec_def by (elim conjE allE)
  moreover have "\<And>e. fst (part_remove fj p k) \<noteq> Inl e"
    using assms(2) unfolding fjall_reliable_def by blast
  ultimately show ?thesis by (cases r) auto
qed

lemma persist_contents: "fjall_spec cont fj \<Longrightarrow> cont (snd (persist fj p)) = cont p"
  unfolding fjall_spec_def by blast

lemma range_scan: "fjall_spec cont fj \<Longrightarrow> scan_ok (cont p) b (part_range_to fj p b)"
  unfolding fjall_spec_def by blast

text \<open>A store kept as a sorted association list.\<close>

fun kv_insert :: "byte list \<Rightarrow> byte list \<Rightarrow> kv list \<Rightarrow> kv list" where
  "kv_insert k v [] = [(k, v)]"
| "kv_insert k v ((k', v') # m) =
     (if k = k' then (k, v) # m
      else if k < k' then (k, v) # (k', v') # m
      else (k', v') # kv_insert k v m)"

definition kv_delete :: "byte list \<Rightarrow> kv list \<Rightarrow> kv list" where
  "kv_delete k m = filter (\<lambda>x. fst x \<noteq> k) m"

typedef kv_store = "{m :: kv list. sorted_wrt (<) (map fst m)}"
  morphisms kv_list Kv_store
  by (rule exI [of _ "[]"]) simp

setup_lifting type_definition_kv_store

lemma set_kv_insert: "fst ` set (kv_insert k v m) = insert k (fst ` set m)"
  by (induction k v m rule: kv_insert.induct) auto

lemma sorted_kv_insert:
  "sorted_wrt (<) (map fst m) \<Longrightarrow> sorted_wrt (<) (map fst (kv_insert k v m))"
proof (induction k v m rule: kv_insert.induct)
  case (2 k v k' v' m)
  then show ?case using set_kv_insert [of k v m] by (force simp: image_iff)
qed simp

lemma sorted_kv_delete: "sorted_wrt (<) (map fst m) \<Longrightarrow> sorted_wrt (<) (map fst (kv_delete k m))"
  by (induction m) (auto simp: kv_delete_def)

lemma map_of_kv_insert: "map_of (kv_insert k v m) = (map_of m)(k \<mapsto> v)"
  by (induction k v m rule: kv_insert.induct) (auto simp: fun_eq_iff)

lemma map_of_kv_delete: "map_of (kv_delete k m) = (map_of m)(k := None)"
  by (induction m) (auto simp: kv_delete_def fun_eq_iff)

lift_definition store_empty :: kv_store is "[]" by simp

lift_definition store_insert :: "byte list \<Rightarrow> byte list \<Rightarrow> kv_store \<Rightarrow> kv_store" is kv_insert
  by (rule sorted_kv_insert)

lift_definition store_delete :: "byte list \<Rightarrow> kv_store \<Rightarrow> kv_store" is kv_delete
  by (rule sorted_kv_delete)

definition store_map :: "kv_store \<Rightarrow> byte list \<rightharpoonup> byte list" where
  "store_map s = map_of (kv_list s)"

definition ref_fjall :: "kv_store fjall_api" where
  "ref_fjall =
     \<lparr>part_insert = (\<lambda>s k v. (Inr (), store_insert k v s)),
      part_remove = (\<lambda>s k. (Inr (), store_delete k s)),
      part_range_to = (\<lambda>s b. map Inr (filter (\<lambda>x. fst x < b) (kv_list s))),
      persist = (\<lambda>s. (Inr (), s))\<rparr>"

lemma oks_map_Inr [simp]: "oks (map Inr xs) = xs"
  by (induction xs) auto

lemma sorted_wrt_fst_distinct: "sorted_wrt (<) (map fst (m :: kv list)) \<Longrightarrow> distinct (map fst m)"
  by (simp add: strict_sorted_iff)

lemma ref_fjall_spec: "fjall_spec store_map ref_fjall"
proof -
  have "scan_ok (store_map s) b (map Inr (filter (\<lambda>x. fst x < b) (kv_list s)))" for s b
  proof -
    have so: "sorted_wrt (<) (map fst (kv_list s))" using kv_list [of s] by simp
    then have "sorted_wrt (<) (map fst (filter (\<lambda>x. fst x < b) (kv_list s)))"
      by (simp add: sorted_wrt_map sorted_wrt_filter)
    then show ?thesis
      using sorted_wrt_fst_distinct [OF so]
      by (auto simp: scan_ok_def store_map_def dest: map_of_SomeD)
  qed
  then show ?thesis
    by (simp add: fjall_spec_def ref_fjall_def store_map_def store_insert.rep_eq store_delete.rep_eq
        map_of_kv_insert map_of_kv_delete)
qed

lemma ref_fjall_reliable: "fjall_reliable ref_fjall"
  by (auto simp: fjall_reliable_def ref_fjall_def)

end
