(* ===== verification/ValueCodec.thy ===== *)
theory ValueCodec
  imports Types
begin

text \<open>
  The JSON payload of a stored sample: \<open>encode_value\<close> of
  \<open>src/storage/fjall_engine.rs\<close> and \<open>decode_value\<close> of
  \<open>src/storage/parquet_exporter.rs\<close>. The tree of \<open>serde_json::Value\<close> is a
  datatype; printing, parsing and the conversion of a float to a value belong to the
  \<open>serde_json\<close> crate and are the fields of \<open>json_api\<close>, an argument.
\<close>

section \<open>JSON values\<close>

datatype json =
    JNull
  | JBool bool
  | JNumber f64
  | JString rstr
  | JArray "json list"
  | JObject "(rstr \<times> json) list"

record json_api =
  to_string :: "json \<Rightarrow> rstr"
  from_slice :: "byte list \<Rightarrow> json option"
  of_f64 :: "f64 \<Rightarrow> json"

text \<open>
  \<open>serde_json::Map\<close>, a map ordered by key: inserting replaces the value of a key
  that is already there.
\<close>

fun map_insert :: "rstr \<Rightarrow> json \<Rightarrow> (rstr \<times> json) list \<Rightarrow> (rstr \<times> json) list" where
  "map_insert k v [] = [(k, v)]"
| "map_insert k v ((k', v') # m) =
     (if k = k' then (k, v) # m
      else if k < k' then (k, v) # (k', v') # m
      else (k', v') # map_insert k v m)"

definition map_collect :: "(rstr \<times> json) list \<Rightarrow> (rstr \<times> json) list" where
  "map_collect kvs = fold (\<lambda>(k, v) m. map_insert k v m) kvs []"

fun json_get :: "rstr \<Rightarrow> json \<Rightarrow> json option" where
  "json_get k (JObject m) = map_of m k"
| "json_get k j = None"

fun json_as_f64 :: "json \<Rightarrow> f64 option" where
  "json_as_f64 (JNumber x) = Some x"
| "json_as_f64 j = None"

fun json_as_str :: "json \<Rightarrow> rstr option" where
  "json_as_str (JString s) = Some s"
| "json_as_str j = None"

fun json_is_object :: "json \<Rightarrow> bool" where
  "json_is_object (JObject m) = True"
| "json_is_object j = False"

section \<open>Encoding and decoding a payload\<close>

definition labels_object :: "label list \<Rightarrow> (rstr \<times> json) list" where
  "labels_object ls = map_collect (map (\<lambda>(k, v). (k, JString v)) ls)"

definition payload :: "json_api \<Rightarrow> metric_entry \<Rightarrow> json" where
  "payload js e =
     JObject (map_collect
       [(lit ''value'', of_f64 js (sample e)),
        (lit ''metric_type'', JString (as_str (metric_kind e))),
        (lit ''labels'', JObject (labels_object (labels e)))])"

definition encode_value :: "json_api \<Rightarrow> metric_entry \<Rightarrow> byte list" where
  "encode_value js e = utf8 (to_string js (payload js e))"

definition decode_value :: "json_api \<Rightarrow> byte list \<Rightarrow> f64 \<times> rstr \<times> rstr" where
  "decode_value js raw =
     (case from_slice js raw of
        None \<Rightarrow> (Fin 0, lit ''unknown'', lit ''{}'')
      | Some v \<Rightarrow>
          let val = (case json_get (lit ''value'') v of
                       None \<Rightarrow> Fin 0
                     | Some j \<Rightarrow> (case json_as_f64 j of None \<Rightarrow> Fin 0 | Some x \<Rightarrow> x));
              kind = (case json_get (lit ''metric_type'') v of
                        None \<Rightarrow> lit ''unknown''
                      | Some j \<Rightarrow> (case json_as_str j of None \<Rightarrow> lit ''unknown'' | Some s \<Rightarrow> s));
              lbls = (case json_get (lit ''labels'') v of
                        None \<Rightarrow> lit ''{}''
                      | Some l \<Rightarrow> if json_is_object l then to_string js l else lit ''{}'')
          in (val, kind, lbls))"

section \<open>What the crate relies on\<close>

text \<open>
  Documented behaviour of \<open>serde_json\<close>: a finite float becomes a number and a
  non-finite one \<open>null\<close>; a value that prints exactly parses back to itself.
\<close>

definition json_floats :: "json_api \<Rightarrow> bool" where
  "json_floats js \<longleftrightarrow>
     (\<forall>r. of_f64 js (Fin r) = JNumber (Fin r)) \<and> of_f64 js PosInf = JNull \<and>
     of_f64 js NegInf = JNull \<and> of_f64 js NaN = JNull"

definition json_exact :: "json_api \<Rightarrow> json \<Rightarrow> bool" where
  "json_exact js j \<longleftrightarrow> from_slice js (utf8 (to_string js j)) = Some j"

fun finite_part :: "f64 \<Rightarrow> f64" where
  "finite_part (Fin r) = Fin r"
| "finite_part x = Fin 0"

section \<open>Facts\<close>

lemma map_of_map_insert [simp]: "map_of (map_insert k v m) = (map_of m)(k \<mapsto> v)"
  by (induction k v m rule: map_insert.induct) (auto simp: fun_eq_iff)

lemma set_map_insert: "fst ` set (map_insert k v m) = insert k (fst ` set m)"
  by (induction k v m rule: map_insert.induct) auto

lemma sorted_map_insert:
  "sorted_wrt (<) (map fst m) \<Longrightarrow> sorted_wrt (<) (map fst (map_insert k v m))"
proof (induction k v m rule: map_insert.induct)
  case (2 k v k' v' m)
  then show ?case
    using set_map_insert [of k v m] by (force simp: image_iff)
qed simp

lemma fold_map_insert:
  "map_of (fold (\<lambda>(k, v) m. map_insert k v m) kvs m0) = map_of m0 ++ map_of (rev kvs)"
  by (induction kvs arbitrary: m0) (auto simp: map_add_def fun_eq_iff split: option.splits)

lemma map_of_collect: "map_of (map_collect kvs) = map_of (rev kvs)"
  by (simp add: map_collect_def fold_map_insert)

lemma sorted_collect: "sorted_wrt (<) (map fst (map_collect kvs))"
proof -
  have "sorted_wrt (<) (map fst m0) \<Longrightarrow>
    sorted_wrt (<) (map fst (fold (\<lambda>(k, v) m. map_insert k v m) kvs m0))" for m0
    by (induction kvs arbitrary: m0) (auto simp: sorted_map_insert)
  then show ?thesis by (simp add: map_collect_def)
qed

lemma lit_eq [simp]: "lit s = lit t \<longleftrightarrow> s = t"
proof -
  have "inj (of_char :: char \<Rightarrow> nat)" by (rule inj_of_char)
  then show ?thesis by (simp add: lit_def inj_map_eq_map)
qed

lemma json_get_payload:
  "json_get (lit ''value'') (payload js e) = Some (of_f64 js (sample e))"
  "json_get (lit ''metric_type'') (payload js e) = Some (JString (as_str (metric_kind e)))"
  "json_get (lit ''labels'') (payload js e) = Some (JObject (labels_object (labels e)))"
  by (simp_all add: payload_def map_of_collect)

lemma json_as_f64_of_f64:
  "json_floats js \<Longrightarrow> (case json_as_f64 (of_f64 js x) of None \<Rightarrow> Fin 0 | Some y \<Rightarrow> y) = finite_part x"
  by (cases x) (auto simp: json_floats_def)

lemma decode_encode_value:
  assumes "json_floats js" "json_exact js (payload js e)"
  shows "decode_value js (encode_value js e)
    = (finite_part (sample e), as_str (metric_kind e), to_string js (JObject (labels_object (labels e))))"
  using assms(2) json_as_f64_of_f64 [OF assms(1), of "sample e"]
  by (simp add: decode_value_def encode_value_def json_exact_def json_get_payload)

text \<open>
  A \<open>json_api\<close> given by a table of values with their texts, on which the code is
  evaluated.
\<close>

fun number_or_null :: "f64 \<Rightarrow> json" where
  "number_or_null (Fin r) = JNumber (Fin r)"
| "number_or_null x = JNull"

definition json_table :: "(json \<times> rstr) list \<Rightarrow> json_api" where
  "json_table tab =
     \<lparr>to_string = (\<lambda>j. case map_of tab j of Some s \<Rightarrow> s | None \<Rightarrow> lit ''null''),
      from_slice = (\<lambda>b. map_of (map (\<lambda>(j, s). (utf8 s, j)) tab) b),
      of_f64 = number_or_null\<rparr>"

lemma json_floats_table [simp]: "json_floats (json_table tab)"
  by (simp add: json_floats_def json_table_def)

lemma of_f64_table [simp]: "of_f64 (json_table tab) = number_or_null"
  by (simp add: json_table_def)

definition demo_sample :: metric_entry where
  "demo_sample = \<lparr>timestamp = 7000, name = lit ''up'', sample = Fin 1, metric_kind = Gauge, labels = [(lit ''k'', lit ''v'')]\<rparr>"

definition demo_table :: "(json \<times> rstr) list" where
  "demo_table =
     [(JObject [(lit ''labels'', JObject [(lit ''k'', JString (lit ''v''))]),
         (lit ''metric_type'', JString (lit ''gauge'')), (lit ''value'', JNumber (Fin 1))],
       lit ''{labels:{k:v},metric_type:gauge,value:1}''),
      (JObject [(lit ''k'', JString (lit ''v''))], lit ''{k:v}'')]"

lemma labels_object_demo: "labels_object [(lit ''k'', lit ''v'')] = [(lit ''k'', JString (lit ''v''))]"
  by (simp add: labels_object_def map_collect_def)

lemma payload_demo: "payload (json_table demo_table) demo_sample = fst (hd demo_table)"
  by (simp add: payload_def demo_sample_def demo_table_def labels_object_demo as_str_def)
     (simp add: map_collect_def lit_def)

lemma json_exact_demo: "json_exact (json_table demo_table) (payload (json_table demo_table) demo_sample)"
  by (simp add: json_exact_def payload_demo) (simp add: json_table_def demo_table_def)

section \<open>Properties\<close>

text \<open>
  C27: the row a stored payload decodes to has the entry's kind and its labels as a
  JSON object, and its value when that is finite; an infinite or NaN sample, which JSON
  cannot carry, comes back as 0.
\<close>

theorem value_roundtrip:
  assumes "json_floats js" and "json_exact js (payload js e)"
  shows "decode_value js (encode_value js e)
    = (finite_part (sample e), as_str (metric_kind e), to_string js (JObject (labels_object (labels e))))"
  using assms by (rule decode_encode_value)

theorem value_roundtrip_witness:
  "decode_value (json_table demo_table) (encode_value (json_table demo_table) demo_sample)
     = (Fin 1, lit ''gauge'', lit ''{k:v}'')"
  by (subst value_roundtrip [OF json_floats_table json_exact_demo])
     (simp add: demo_sample_def as_str_def labels_object_demo, simp add: json_table_def demo_table_def)

text \<open>
  In the stored labels a repeated key keeps its last value, every other pair is
  kept, and keys are in ascending order, so no pair that survived sanitizing is lost
  except by repetition.
\<close>

lemma labels_object_last_wins:
  "map_of (labels_object ls) k = map_option JString (map_of (rev ls) k) \<and>
   sorted_wrt (<) (map fst (labels_object ls))"
proof -
  have "map_of (rev (map (\<lambda>(k, v). (k, JString v)) ls)) k = map_option JString (map_of (rev ls) k)"
    by (simp add: rev_map map_of_map)
  then show ?thesis by (simp add: labels_object_def map_of_collect sorted_collect)
qed

end
