(* ===== verification/Writer.thy ===== *)
theory Writer
  imports Interfaces ValueCodec
begin

text \<open>
  The dedicated writer thread of \<open>src/storage/fjall_engine.rs\<close>: \<open>flush_batch\<close>,
  \<open>persist_best_effort\<close> and \<open>writer_loop\<close>. One turn of the outer loop is
  \<open>writer_turn\<close>; it parks when \<open>blocking_recv\<close> would block. \<open>writer_run\<close>
  repeats turns on fuel until the thread parks or exits; a fuel of one more than the
  number of queued messages is enough, since every turn that goes on takes a message.
\<close>

section \<open>The code\<close>

fun flush_batch ::
  "json_api \<Rightarrow> 'p fjall_api \<Rightarrow> metric_entry list \<Rightarrow> 'p \<Rightarrow> u32 \<Rightarrow> 'p \<times> u32" where
  "flush_batch js fj [] part seq = (part, seq)"
| "flush_batch js fj (entry # batch) part seq =
     (let key = encode_key (entry_micros entry) seq (name entry);
          seq' = seq + 1;
          val = encode_value js entry
      in flush_batch js fj batch (snd (part_insert fj part key val)) seq')"

definition persist_best_effort :: "'p fjall_api \<Rightarrow> 'p \<Rightarrow> 'p" where
  "persist_best_effort fj part = snd (persist fj part)"

text \<open>The inner loop; the flag says that it took the shutdown message.\<close>

function drain ::
  "'c chan_api \<Rightarrow> nat \<Rightarrow> metric_entry list \<Rightarrow> 'c \<Rightarrow> bool \<times> metric_entry list \<times> 'c" where
  "drain ch rows batch c =
     (if length batch < rows
      then (case try_recv ch c of
              (Some (Metric e), c') \<Rightarrow> drain ch rows (batch @ [e]) c'
            | (Some Shutdown, c') \<Rightarrow> (True, batch, c')
            | (None, c') \<Rightarrow> (False, batch, c'))
      else (False, batch, c))"
  by pat_completeness auto
termination
  by (relation "measure (\<lambda>(ch, rows, batch, c). rows - length batch)") auto

declare drain.simps [simp del]

datatype writer_status = Looping | Parked | Exited

record ('c, 'p) writer =
  w_rx :: 'c
  w_part :: 'p
  w_seq :: u32

definition writer_turn ::
  "json_api \<Rightarrow> 'p fjall_api \<Rightarrow> 'c chan_api \<Rightarrow> nat \<Rightarrow> ('c, 'p) writer
     \<Rightarrow> writer_status \<times> ('c, 'p) writer" where
  "writer_turn js fj ch rows st =
     (case blocking_recv ch (w_rx st) of
        (Received (Metric e), c1) \<Rightarrow>
          (case drain ch rows [e] c1 of
             (shutdown, batch, c2) \<Rightarrow>
               (case flush_batch js fj batch (w_part st) (w_seq st) of
                  (part, seq) \<Rightarrow>
                    if shutdown
                    then (Exited, st\<lparr>w_rx := drop_receiver ch c2,
                            w_part := persist_best_effort fj part, w_seq := seq\<rparr>)
                    else (Looping, st\<lparr>w_rx := c2, w_part := part, w_seq := seq\<rparr>)))
      | (Received Shutdown, c1) \<Rightarrow>
          (Exited, st\<lparr>w_rx := drop_receiver ch c1, w_part := persist_best_effort fj (w_part st)\<rparr>)
      | (Disconnected, c1) \<Rightarrow>
          (Exited, st\<lparr>w_rx := drop_receiver ch c1, w_part := persist_best_effort fj (w_part st)\<rparr>)
      | (WouldBlock, c1) \<Rightarrow> (Parked, st\<lparr>w_rx := c1\<rparr>))"

fun writer_run ::
  "nat \<Rightarrow> json_api \<Rightarrow> 'p fjall_api \<Rightarrow> 'c chan_api \<Rightarrow> nat \<Rightarrow> ('c, 'p) writer
     \<Rightarrow> (writer_status \<times> ('c, 'p) writer) option" where
  "writer_run 0 js fj ch rows st = None"
| "writer_run (Suc fuel) js fj ch rows st =
     (case writer_turn js fj ch rows st of
        (Looping, st') \<Rightarrow> writer_run fuel js fj ch rows st'
      | (status, st') \<Rightarrow> Some (status, st'))"

section \<open>Batches\<close>

lemma flush_batch_append:
  "flush_batch js fj (es @ es') part seq =
     (case flush_batch js fj es part seq of (part', seq') \<Rightarrow> flush_batch js fj es' part' seq')"
  by (induction es arbitrary: part seq) (auto simp: Let_def)

lemma flush_batch_seq: "snd (flush_batch js fj es part seq) = seq + of_nat (length es)"
  by (induction es arbitrary: part seq) (auto simp: Let_def algebra_simps)

text \<open>
  A queue as the writer meets it: the metrics up to the first shutdown message, then
  nothing, or the shutdown message and what was sent after it.
\<close>

fun rest_of :: "pipeline_msg list \<Rightarrow> pipeline_msg list" where
  "rest_of [] = []"
| "rest_of (m # rest) = rest"

definition stop_here :: "pipeline_msg list \<Rightarrow> bool" where
  "stop_here ms \<longleftrightarrow> ms = [] \<or> (\<exists>rest. ms = Shutdown # rest)"

lemma queue_split: "\<exists>es ms. q = map Metric es @ ms \<and> stop_here ms"
proof (induction q)
  case Nil
  show ?case by (intro exI [of _ "[]"]) (simp add: stop_here_def)
next
  case (Cons m q)
  then obtain es ms where q: "q = map Metric es @ ms" "stop_here ms" by blast
  show ?case
  proof (cases m)
    case (Metric e)
    with q show ?thesis by (intro exI [of _ "e # es"] exI [of _ ms]) simp
  next
    case Shutdown
    then show ?thesis by (intro exI [of _ "[]"] exI [of _ "Shutdown # q"]) (simp add: stop_here_def)
  qed
qed

lemma drain_stops:
  assumes "chan_spec view ch" and "stop_here ms" and "queue (view c) = ms" and "length batch < rows"
  shows "\<exists>c'. drain ch rows batch c = (ms \<noteq> [], batch, c') \<and>
    view c' = (view c)\<lparr>queue := rest_of ms\<rparr>"
proof -
  obtain x c1 where r: "try_recv ch c = (x, c1)" by fastforce
  from chan_specD(3) [OF assms(1) r] assms(2-4) show ?thesis
    by (auto simp: drain.simps [of ch] r try_recv_view_def stop_here_def)
qed

lemma drain_queue:
  assumes spec: "chan_spec view ch" and stop: "stop_here ms"
  shows "queue (view c) = map Metric es @ ms \<Longrightarrow> n = rows - length batch \<Longrightarrow>
    \<exists>c'. drain ch rows batch c =
      (if n \<le> length es then (False, batch @ take n es, c') else (ms \<noteq> [], batch @ es, c')) \<and>
      view c' = (view c)\<lparr>queue := if n \<le> length es then map Metric (drop n es) @ ms else rest_of ms\<rparr>"
proof (induction n arbitrary: batch c es)
  case 0
  then show ?case by (simp add: drain.simps [of ch])
next
  case (Suc n)
  then have lt: "length batch < rows" by simp
  show ?case
  proof (cases es)
    case Nil
    then show ?thesis using Suc.prems lt drain_stops [OF spec stop _ lt, of c] by simp
  next
    case (Cons e es')
    obtain x c1 where r: "try_recv ch c = (x, c1)" by fastforce
    from chan_specD(3) [OF spec r] Suc.prems(1) Cons
    have x: "x = Some (Metric e)" "view c1 = (view c)\<lparr>queue := map Metric es' @ ms\<rparr>"
      by (simp_all add: try_recv_view_def)
    have step: "drain ch rows batch c = drain ch rows (batch @ [e]) c1"
      by (subst drain.simps) (simp add: lt r x)
    have "n = rows - length (batch @ [e])" using Suc.prems(2) by simp
    from Suc.IH [OF _ this, of c1 es'] x(2) obtain c' where
      "drain ch rows (batch @ [e]) c1 =
        (if n \<le> length es' then (False, (batch @ [e]) @ take n es', c')
         else (ms \<noteq> [], (batch @ [e]) @ es', c'))"
      "view c' = (view c1)\<lparr>queue :=
        if n \<le> length es' then map Metric (drop n es') @ ms else rest_of ms\<rparr>" by auto
    then show ?thesis unfolding step Cons x(2) by (intro exI [of _ c']) auto
  qed
qed

lemma writer_turn_parks:
  assumes "chan_spec view ch" and "queue (view (w_rx st)) = []" and "tx_open (view (w_rx st))"
  shows "\<exists>c'. writer_turn js fj ch rows st = (Parked, st\<lparr>w_rx := c'\<rparr>) \<and> view c' = view (w_rx st)"
proof -
  obtain b c1 where b: "blocking_recv ch (w_rx st) = (b, c1)" by fastforce
  from chan_specD(4) [OF assms(1) b] assms(2,3) show ?thesis
    by (auto simp: writer_turn_def b blocking_recv_view_def)
qed

lemma writer_turn_shutdown:
  assumes "chan_spec view ch" and "queue (view (w_rx st)) = Shutdown # rest"
  shows "\<exists>c'. writer_turn js fj ch rows st =
      (Exited, st\<lparr>w_rx := c', w_part := persist_best_effort fj (w_part st)\<rparr>) \<and>
    view c' = (view (w_rx st))\<lparr>queue := [], rx_open := False\<rparr>"
proof -
  obtain b c1 where b: "blocking_recv ch (w_rx st) = (b, c1)" by fastforce
  from chan_specD(4) [OF assms(1) b] assms(2)
  have "b = Received Shutdown" "view c1 = (view (w_rx st))\<lparr>queue := rest\<rparr>"
    by (auto simp: blocking_recv_view_def)
  then show ?thesis
    using chan_specD(5) [OF assms(1), of c1]
    by (intro exI [of _ "drop_receiver ch c1"]) (simp add: writer_turn_def b)
qed

text \<open>
  A turn that starts with a metric flushes it with up to \<open>rows - 1\<close> of the metrics
  behind it, and exits when it met the shutdown message before the batch was full.
\<close>

lemma writer_turn_batch:
  fixes rows :: nat
  assumes spec: "chan_spec view ch" and stop: "stop_here ms"
    and q: "queue (view (w_rx st)) = map Metric (e # es) @ ms"
  defines "n \<equiv> rows - 1"
  shows "\<exists>c'. (if n \<le> length es \<or> ms = []
      then writer_turn js fj ch rows st =
        (Looping, st\<lparr>w_rx := c',
          w_part := fst (flush_batch js fj (e # take n es) (w_part st) (w_seq st)),
          w_seq := snd (flush_batch js fj (e # take n es) (w_part st) (w_seq st))\<rparr>) \<and>
        view c' = (view (w_rx st))\<lparr>queue := map Metric (drop n es) @ ms\<rparr>
      else writer_turn js fj ch rows st =
        (Exited, st\<lparr>w_rx := c',
          w_part := persist_best_effort fj (fst (flush_batch js fj (e # es) (w_part st) (w_seq st))),
          w_seq := snd (flush_batch js fj (e # es) (w_part st) (w_seq st))\<rparr>) \<and>
        view c' = (view (w_rx st))\<lparr>queue := [], rx_open := False\<rparr>)"
proof -
  obtain b c1 where b: "blocking_recv ch (w_rx st) = (b, c1)" by fastforce
  from chan_specD(4) [OF spec b] q
  have c1: "b = Received (Metric e)" "view c1 = (view (w_rx st))\<lparr>queue := map Metric es @ ms\<rparr>"
    by (auto simp: blocking_recv_view_def)
  obtain c2 where c2: "drain ch rows [e] c1 =
      (if n \<le> length es then (False, [e] @ take n es, c2) else (ms \<noteq> [], [e] @ es, c2))"
    "view c2 = (view c1)\<lparr>queue := if n \<le> length es then map Metric (drop n es) @ ms else rest_of ms\<rparr>"
    using drain_queue [OF spec stop, of c1 es n rows "[e]"] c1(2) by (auto simp: n_def)
  show ?thesis
  proof (cases "n \<le> length es \<or> ms = []")
    case True
    then show ?thesis
      using c1 c2 by (intro exI [of _ c2]) (auto simp: writer_turn_def b split: prod.split)
  next
    case False
    then show ?thesis
      using c1 c2 chan_specD(5) [OF spec, of c2]
      by (intro exI [of _ "drop_receiver ch c2"]) (auto simp: writer_turn_def b split: prod.split)
  qed
qed

lemma writer_run_drains:
  assumes spec: "chan_spec view ch" and stop: "stop_here ms"
  shows "queue (view (w_rx st)) = map Metric es @ ms \<Longrightarrow> tx_open (view (w_rx st)) \<Longrightarrow>
    length es < fuel \<Longrightarrow>
    \<exists>c'. writer_run fuel js fj ch rows st = Some
      (if ms = [] then Parked else Exited,
       st\<lparr>w_rx := c',
         w_part := (if ms = [] then id else persist_best_effort fj)
           (fst (flush_batch js fj es (w_part st) (w_seq st))),
         w_seq := snd (flush_batch js fj es (w_part st) (w_seq st))\<rparr>) \<and>
     view c' = (view (w_rx st))\<lparr>queue := [], rx_open := ms = [] \<and> rx_open (view (w_rx st))\<rparr>"
proof (induction fuel arbitrary: st es)
  case (Suc fuel)
  show ?case
  proof (cases es)
    case Nil
    show ?thesis
    proof (cases "ms = []")
      case True
      with Nil Suc.prems writer_turn_parks [OF spec, of st js fj rows] show ?thesis by fastforce
    next
      case False
      with Nil Suc.prems stop writer_turn_shutdown [OF spec, of st _ js fj rows] show ?thesis
        by (fastforce simp: stop_here_def)
    qed
  next
    case (Cons e es')
    let ?n = "rows - 1"
    from writer_turn_batch [OF spec stop, of st e es' rows js fj] Suc.prems(1) Cons
    obtain c1 where c1: "if ?n \<le> length es' \<or> ms = []
      then writer_turn js fj ch rows st =
        (Looping, st\<lparr>w_rx := c1,
          w_part := fst (flush_batch js fj (e # take ?n es') (w_part st) (w_seq st)),
          w_seq := snd (flush_batch js fj (e # take ?n es') (w_part st) (w_seq st))\<rparr>) \<and>
        view c1 = (view (w_rx st))\<lparr>queue := map Metric (drop ?n es') @ ms\<rparr>
      else writer_turn js fj ch rows st =
        (Exited, st\<lparr>w_rx := c1,
          w_part := persist_best_effort fj (fst (flush_batch js fj (e # es') (w_part st) (w_seq st))),
          w_seq := snd (flush_batch js fj (e # es') (w_part st) (w_seq st))\<rparr>) \<and>
        view c1 = (view (w_rx st))\<lparr>queue := [], rx_open := False\<rparr>" by auto
    show ?thesis
    proof (cases "?n \<le> length es' \<or> ms = []")
      case False
      with c1 Cons show ?thesis by auto
    next
      case True
      let ?st = "st\<lparr>w_rx := c1,
          w_part := fst (flush_batch js fj (e # take ?n es') (w_part st) (w_seq st)),
          w_seq := snd (flush_batch js fj (e # take ?n es') (w_part st) (w_seq st))\<rparr>"
      have t: "writer_turn js fj ch rows st = (Looping, ?st)"
        "view (w_rx ?st) = (view (w_rx st))\<lparr>queue := map Metric (drop ?n es') @ ms\<rparr>"
        using c1 True by auto
      have es: "e # es' = (e # take ?n es') @ drop ?n es'" by simp
      have fb: "flush_batch js fj es (w_part st) (w_seq st) =
          flush_batch js fj (drop ?n es') (w_part ?st) (w_seq ?st)"
        unfolding Cons by (subst es, subst flush_batch_append) (simp add: split_beta)
      have "length (drop ?n es') < fuel" using Suc.prems(3) Cons by simp
      from Suc.IH [of ?st "drop ?n es'", OF _ _ this] t(2) Suc.prems(2)
      show ?thesis by (auto simp: t(1) fb)
    qed
  qed
qed simp

section \<open>Stored samples\<close>

text \<open>The keys of a batch, in order.\<close>

fun batch_keys :: "metric_entry list \<Rightarrow> u32 \<Rightarrow> byte list list" where
  "batch_keys [] seq = []"
| "batch_keys (e # es) seq = encode_key (entry_micros e) seq (name e) # batch_keys es (seq + 1)"

lemma length_batch_keys [simp]: "length (batch_keys es seq) = length es"
  by (induction es arbitrary: seq) auto

lemma nth_batch_keys:
  "i < length es \<Longrightarrow> batch_keys es seq ! i = encode_key (entry_micros (es ! i)) (seq + of_nat i) (name (es ! i))"
  by (induction es arbitrary: seq i) (auto simp: nth_Cons' algebra_simps)

lemma encode_key_seq: "encode_key t s nm = encode_key t' s' nm' \<Longrightarrow> s = s'"
  using encode_key_less [of t s nm t' s' nm'] encode_key_less [of t' s' nm' t s nm]
  by (metis less_irrefl linorder_neqE)

lemma distinct_batch_keys:
  assumes "length es \<le> 2 ^ 32"
  shows "distinct (batch_keys es seq)"
  unfolding distinct_conv_nth
proof (intro allI impI)
  fix i j
  assume ij: "i < length (batch_keys es seq)" "j < length (batch_keys es seq)" "i \<noteq> j"
  show "batch_keys es seq ! i \<noteq> batch_keys es seq ! j"
  proof
    assume "batch_keys es seq ! i = batch_keys es seq ! j"
    then have "encode_key (entry_micros (es ! i)) (seq + of_nat i) (name (es ! i))
        = encode_key (entry_micros (es ! j)) (seq + of_nat j) (name (es ! j))"
      using ij by (simp add: nth_batch_keys)
    then have "seq + of_nat i = seq + of_nat j" by (rule encode_key_seq)
    then have "unat (of_nat i :: u32) = unat (of_nat j :: u32)" by simp
    then show False using ij assms by (simp add: unat_of_nat_small del: unat_of_nat)
  qed
qed

lemma flush_batch_contents:
  assumes "fjall_spec cont fj" "fjall_reliable fj"
  shows "cont (fst (flush_batch js fj es part seq)) =
    cont part ++ map_of (rev (zip (batch_keys es seq) (map (encode_value js) es)))"
proof (induction es arbitrary: part seq)
  case (Cons e es)
  then show ?case
    by (auto simp: Let_def part_insert_reliable [OF assms] map_add_def fun_eq_iff
        split: option.split)
qed simp

lemma flush_batch_stored:
  assumes "fjall_spec cont fj" "fjall_reliable fj" "length es \<le> 2 ^ 32" "i < length es"
  shows "cont (fst (flush_batch js fj es part seq))
      (encode_key (entry_micros (es ! i)) (seq + of_nat i) (name (es ! i))) = Some (encode_value js (es ! i))"
proof -
  let ?kvs = "zip (batch_keys es seq) (map (encode_value js) es)"
  have d: "distinct (map fst ?kvs)" using distinct_batch_keys [OF assms(3)] by simp
  have "(batch_keys es seq ! i, encode_value js (es ! i)) \<in> set ?kvs"
    using assms(4) by (auto simp: set_zip)
  then have "map_of (rev ?kvs) (batch_keys es seq ! i) = Some (encode_value js (es ! i))"
    using d by (intro map_of_is_SomeI) (simp_all add: rev_map [symmetric])
  then show ?thesis
    by (simp add: flush_batch_contents [OF assms(1,2)] nth_batch_keys [OF assms(4)])
qed

lemma flush_batch_frame:
  assumes "fjall_spec cont fj" "fjall_reliable fj" "k \<notin> set (batch_keys es seq)"
  shows "cont (fst (flush_batch js fj es part seq)) k = cont part k"
proof -
  have "map_of (rev (zip (batch_keys es seq) (map (encode_value js) es))) k = None"
    using assms(3) by (force simp: map_of_eq_None_iff dest: set_zip_leftD)
  then show ?thesis by (simp add: flush_batch_contents [OF assms(1,2)] map_add_def)
qed

lemma demo_keys:
  "entry_micros demo_sample = 7" "name demo_sample = lit ''up''"
  by (simp_all add: demo_sample_def entry_micros_def)

definition demo_writer :: "pipeline_msg list \<Rightarrow> (chan_view, kv_store) writer" where
  "demo_writer q =
     \<lparr>w_rx = \<lparr>queue = q, capacity = 4, rx_open = True, tx_open = True\<rparr>, w_part = store_empty, w_seq = 0\<rparr>"

section \<open>Properties\<close>

text \<open>
  C10: while the sender lives, the writer thread turns the metrics waiting in its queue
  into one sequence of inserts in the order they were sent, however the batches fall and
  whatever \<open>cold_batch_rows\<close> is, even 0 or 1, and then parks with an empty queue.
  As many turns as there are metrics, and one to park, are enough.
\<close>

theorem writer_batching_irrelevant:
  assumes "chan_spec view ch" and "queue (view (w_rx st)) = map Metric es"
    and "tx_open (view (w_rx st))"
  shows "\<exists>c'. writer_run (length es + 1) js fj ch rows st =
    Some (Parked, st\<lparr>w_rx := c',
      w_part := fst (flush_batch js fj es (w_part st) (w_seq st)),
      w_seq := w_seq st + of_nat (length es)\<rparr>) \<and> view c' = (view (w_rx st))\<lparr>queue := []\<rparr>"
  using writer_run_drains [OF assms(1), of "[]" st es "length es + 1" js fj rows] assms(2,3)
  by (simp add: stop_here_def flush_batch_seq)

theorem writer_batching_irrelevant_witness:
  "\<exists>c'. writer_run 4 (json_table []) ref_fjall ref_chan 2 (demo_writer (replicate 3 (Metric demo_sample))) =
    Some (Parked, (demo_writer (replicate 3 (Metric demo_sample)))\<lparr>w_rx := c',
      w_part := fst (flush_batch (json_table []) ref_fjall (replicate 3 demo_sample) store_empty 0),
      w_seq := 3\<rparr>) \<and> c' = \<lparr>queue = [], capacity = 4, rx_open = True, tx_open = True\<rparr>"
  using writer_batching_irrelevant [OF ref_chan_spec, of "demo_writer (replicate 3 (Metric demo_sample))"
      "replicate 3 demo_sample" "json_table []" ref_fjall 2]
  by (simp add: demo_writer_def)

text \<open>
  The shutdown message ends the thread after the metrics sent before it have been
  flushed and the keyspace persisted; what was sent after it is dropped with the receiver,
  and every later send fails as closed.
\<close>

lemma writer_shutdown_flushes:
  assumes "chan_spec view ch" and "queue (view (w_rx st)) = map Metric es @ Shutdown # late"
    and "tx_open (view (w_rx st))"
  shows "\<exists>c'. writer_run (length es + 1) js fj ch rows st =
    Some (Exited, st\<lparr>w_rx := c',
      w_part := snd (persist fj (fst (flush_batch js fj es (w_part st) (w_seq st)))),
      w_seq := w_seq st + of_nat (length es)\<rparr>) \<and>
    view c' = (view (w_rx st))\<lparr>queue := [], rx_open := False\<rparr> \<and>
    fst (try_send ch c' m) = Inl Closed"
proof -
  obtain c' where run: "writer_run (length es + 1) js fj ch rows st =
    Some (Exited, st\<lparr>w_rx := c',
      w_part := snd (persist fj (fst (flush_batch js fj es (w_part st) (w_seq st)))),
      w_seq := w_seq st + of_nat (length es)\<rparr>)"
    "view c' = (view (w_rx st))\<lparr>queue := [], rx_open := False\<rparr>"
    using writer_run_drains [OF assms(1), of "Shutdown # late" st es "length es + 1" js fj rows] assms(2,3)
    by (auto simp: stop_here_def flush_batch_seq persist_best_effort_def)
  obtain r c'' where "try_send ch c' m = (r, c'')" by fastforce
  moreover from chan_specD(2) [OF assms(1) this] run(2) have "r = Inl Closed"
    by (simp add: send_view_def)
  ultimately show ?thesis using run by auto
qed

lemma writer_shutdown_flushes_witness:
  "\<exists>c'. writer_run 2 (json_table []) ref_fjall ref_chan 500
      (demo_writer [Metric demo_sample, Shutdown, Metric demo_sample]) =
    Some (Exited, (demo_writer [Metric demo_sample, Shutdown, Metric demo_sample])\<lparr>w_rx := c',
      w_part := snd (persist ref_fjall
        (fst (flush_batch (json_table []) ref_fjall [demo_sample] store_empty 0))),
      w_seq := 1\<rparr>) \<and>
    c' = \<lparr>queue = [], capacity = 4, rx_open = False, tx_open = True\<rparr> \<and>
    fst (try_send ref_chan c' Shutdown) = Inl Closed"
  using writer_shutdown_flushes [OF ref_chan_spec, of "demo_writer [Metric demo_sample, Shutdown, Metric demo_sample]"
      "[demo_sample]" "[Metric demo_sample]" "json_table []" ref_fjall 500 Shutdown]
  by (simp add: demo_writer_def numeral_2_eq_2 del: writer_run.simps)

text \<open>
  C11: on a store that does not fail, each of up to \<open>2 ^ 32\<close> samples flushed in a row
  is stored under its own key with its own payload, also when several have the same
  timestamp and name, and no other key changes: the sequence number, even as it wraps,
  keeps the keys apart.
\<close>

theorem flush_batch_stores_every_sample:
  assumes "fjall_spec cont fj" and "fjall_reliable fj" and "length es \<le> 2 ^ 32"
  shows "(\<forall>i < length es. cont (fst (flush_batch js fj es part seq))
      (encode_key (entry_micros (es ! i)) (seq + of_nat i) (name (es ! i))) = Some (encode_value js (es ! i))) \<and>
    (\<forall>k. k \<notin> set (batch_keys es seq) \<longrightarrow> cont (fst (flush_batch js fj es part seq)) k = cont part k)"
  using flush_batch_stored [OF assms] flush_batch_frame [OF assms(1,2)] by blast

theorem flush_batch_stores_every_sample_witness:
  "store_map (fst (flush_batch (json_table demo_table) ref_fjall [demo_sample, demo_sample] store_empty (- 1)))
     (encode_key 7 0 (lit ''up'')) = Some (encode_value (json_table demo_table) demo_sample)"
proof -
  have "length [demo_sample, demo_sample] \<le> 2 ^ 32" by simp
  from flush_batch_stores_every_sample
      [OF ref_fjall_spec ref_fjall_reliable this, of "json_table demo_table" store_empty "- 1"]
  have "\<forall>i < length [demo_sample, demo_sample].
      store_map (fst (flush_batch (json_table demo_table) ref_fjall [demo_sample, demo_sample] store_empty (- 1)))
        (encode_key (entry_micros ([demo_sample, demo_sample] ! i)) (- 1 + of_nat i) (name ([demo_sample, demo_sample] ! i)))
      = Some (encode_value (json_table demo_table) ([demo_sample, demo_sample] ! i))"
    by (rule conjunct1)
  then show ?thesis by (drule_tac spec [of _ 1]) (simp add: demo_keys del: flush_batch.simps)
qed

end
