(* ===== verification/Engine.thy ===== *)
theory Engine
  imports Config PromRegistry Writer
begin

text \<open>
  The handle and the hot path of \<open>src/engine.rs\<close>, the macros of \<open>src/lib.rs\<close> and
  \<open>open_handles\<close> of \<open>src/storage/fjall_engine.rs\<close>: the process-wide state (the statics
  \<open>GLOBAL\<close>, \<open>WRITER_JOIN\<close>, \<open>COMPACTION_TASK\<close>, \<open>SHUTDOWN\<close>) and the dispatch of one
  observation to the registry and the queue. The channel and the keyspace are shared
  between the handle and the writer thread; both are kept in the handle and the writer's
  turns update them there.
\<close>

section \<open>State\<close>

record ('pw, 'h, 'c, 'p) engine_handle =
  tx :: "'c option"
  eh_registry :: "('pw, 'h) prom_registry option"
  eh_fjall :: "'p option"
  dropped_total :: u64
  eh_has_fjall :: bool

text \<open>The writer thread: its batch size, its sequence number, and whether it returned.\<close>

record writer_thread =
  wt_rows :: nat
  wt_seq :: u32
  wt_exited :: bool

text \<open>
  A background task is known by its number in \<open>tasks\<close>, the list of the spawned
  compaction loops with the flag that one was aborted. \<open>WRITER_JOIN\<close> holds the only
  thread handle there is.
\<close>

record ('pw, 'h, 'c, 'p) process =
  global :: "('pw, 'h, 'c, 'p) engine_handle option"
  shutdown_flag :: bool
  writer_join :: "unit option lock"
  compaction_task :: "nat option lock"
  writer_thr :: "writer_thread option"
  tasks :: "(fjall_config \<times> bool) list"

definition process_start :: "('pw, 'h, 'c, 'p) process" where
  "process_start =
     \<lparr>global = None, shutdown_flag = False, writer_join = lock_new None,
      compaction_task = lock_new None, writer_thr = None, tasks = []\<rparr>"

text \<open>The crates the engine is built on, and the Cargo features it is built with.\<close>

record ('pw, 'h, 'c, 'p) deps =
  ft :: features
  prom :: "('pw, 'h) prom_api"
  chan :: "'c chan_api"
  fj :: "'p fjall_api"
  js :: json_api

text \<open>The file system and the opening of a keyspace, \<open>'k\<close>, and its partition.\<close>

record ('k, 'p, 'fs) storage_api =
  create_dir_all :: "path \<Rightarrow> 'fs \<Rightarrow> (rstr + unit) \<times> 'fs"
  keyspace_open :: "path \<Rightarrow> u64 \<Rightarrow> u64 \<Rightarrow> 'fs \<Rightarrow> (rstr + 'k) \<times> 'fs"
  open_partition :: "'k \<Rightarrow> rstr \<Rightarrow> u32 \<Rightarrow> 'fs \<Rightarrow> (rstr + 'p) \<times> 'fs"

definition saturating_mul :: "u64 \<Rightarrow> u64 \<Rightarrow> u64" where
  "saturating_mul a b = (if unat a * unat b < 2 ^ 64 then a * b else - 1)"

definition PARTITION_METRICS :: rstr where
  "PARTITION_METRICS = lit ''metrics''"

definition open_handles ::
  "('k, 'p, 'fs) storage_api \<Rightarrow> fjall_config \<Rightarrow> 'fs \<Rightarrow> (error + 'p) \<times> 'fs" where
  "open_handles sa cfg fs =
     (case create_dir_all sa (dir cfg) fs of
        (Inl e, fs1) \<Rightarrow> (Inl (error_from_io e), fs1)
      | (Inr _, fs1) \<Rightarrow>
          (case create_dir_all sa (cold_dir cfg) fs1 of
             (Inl e, fs2) \<Rightarrow> (Inl (error_from_io e), fs2)
           | (Inr _, fs2) \<Rightarrow>
               (case keyspace_open sa (dir cfg) (cache_size_bytes cfg)
                       (saturating_mul (ucast (memtable_bytes cfg)) 2) fs2 of
                  (Inl e, fs3) \<Rightarrow>
                    (Inl (Storage (lit ''fjall open '' @ path_display (dir cfg) @ lit '': '' @ e)), fs3)
                | (Inr keyspace, fs3) \<Rightarrow>
                    (case open_partition sa keyspace PARTITION_METRICS (memtable_bytes cfg) fs3 of
                       (Inl e, fs4) \<Rightarrow> (Inl (Storage (lit ''fjall open partition: '' @ e)), fs4)
                     | (Inr p, fs4) \<Rightarrow> (Inr p, fs4)))))"

section \<open>The handle\<close>

text \<open>\<open>EngineHandle::new\<close>; the receiver half is the channel the sender holds.\<close>

definition engine_handle_new ::
  "('pw, 'h, 'c, 'p) deps \<Rightarrow> config \<Rightarrow> error + ('pw, 'h, 'c, 'p) engine_handle" where
  "engine_handle_new d cfg =
     (case (if prometheus_exporter (ft d)
            then (case prom_registry_new (prom d) (default_histogram_buckets (prometheus cfg)) of
                    Inl e \<Rightarrow> Inl e
                  | Inr reg \<Rightarrow> Inr (Some reg))
            else Inr None) of
        Inl e \<Rightarrow> Inl e
      | Inr reg \<Rightarrow>
          Inr \<lparr>tx = (if fjall_backend (ft d) \<and> fjall cfg \<noteq> None
                 then Some (mpsc_channel (chan d) (channel_capacity cfg)) else None),
               eh_registry = reg, eh_fjall = None, dropped_total = 0, eh_has_fjall = False\<rparr>)"

definition engine_record ::
  "('pw, 'h, 'c, 'p) deps \<Rightarrow> bool \<Rightarrow> metric_entry \<Rightarrow> ('pw, 'h, 'c, 'p) engine_handle
     \<Rightarrow> unit res \<times> ('pw, 'h, 'c, 'p) engine_handle" where
  "engine_record d stopped e h =
     (if stopped then (Ret (), h)
      else
        (case (case eh_registry h of
                 None \<Rightarrow> (Ret (), h)
               | Some reg \<Rightarrow>
                   (case update (prom d) reg e of
                      (res, reg') \<Rightarrow> (res, h\<lparr>eh_registry := Some reg'\<rparr>))) of
           (Panicked p, h1) \<Rightarrow> (Panicked p, h1)
         | (Ret _, h1) \<Rightarrow>
             (case tx h1 of
                None \<Rightarrow> (Ret (), h1)
              | Some c \<Rightarrow>
                  (case try_send (chan d) c (Metric e) of
                     (Inr _, c') \<Rightarrow> (Ret (), h1\<lparr>tx := Some c'\<rparr>)
                   | (Inl _, c') \<Rightarrow>
                       (Ret (), h1\<lparr>tx := Some c', dropped_total := dropped_total h1 + 1,
                          eh_registry := map_option (inc_dropped (prom d)) (eh_registry h1)\<rparr>)))))"

definition dropped_count :: "('pw, 'h, 'c, 'p) engine_handle \<Rightarrow> u64" where
  "dropped_count h = dropped_total h"

definition has_fjall :: "('pw, 'h, 'c, 'p) engine_handle \<Rightarrow> bool" where
  "has_fjall h = eh_has_fjall h"

definition has_prometheus :: "('pw, 'h, 'c, 'p) deps \<Rightarrow> ('pw, 'h, 'c, 'p) engine_handle \<Rightarrow> bool" where
  "has_prometheus d h = (if prometheus_exporter (ft d) then eh_registry h \<noteq> None else False)"

definition handle_text ::
  "('pw, 'h, 'c, 'p) deps \<Rightarrow> ('pw, 'h, 'c, 'p) engine_handle \<Rightarrow> error + rstr" where
  "handle_text d h = (case eh_registry h of None \<Rightarrow> Inr [] | Some r \<Rightarrow> gather_text (prom d) r)"

section \<open>The hot path\<close>

definition global_record ::
  "('pw, 'h, 'c, 'p) deps \<Rightarrow> metric_entry \<Rightarrow> ('pw, 'h, 'c, 'p) process
     \<Rightarrow> unit res \<times> ('pw, 'h, 'c, 'p) process" where
  "global_record d e s =
     (case global s of
        None \<Rightarrow> (Ret (), s)
      | Some h \<Rightarrow>
          (case engine_record d (shutdown_flag s) e h of
             (res, h') \<Rightarrow> (res, s\<lparr>global := Some h'\<rparr>)))"

text \<open>The entry is built, with the clock reading \<open>now\<close>, before \<open>GLOBAL\<close> is looked at.\<close>

definition record_metric ::
  "metric_type \<Rightarrow> ('pw, 'h, 'c, 'p) deps \<Rightarrow> int \<Rightarrow> rstr \<Rightarrow> f64 \<Rightarrow> label list
     \<Rightarrow> ('pw, 'h, 'c, 'p) process \<Rightarrow> unit res \<times> ('pw, 'h, 'c, 'p) process" where
  "record_metric mt d now nm v ls s =
     (case metric_entry_new now nm v mt ls of
        Panicked p \<Rightarrow> (Panicked p, s)
      | Ret e \<Rightarrow> global_record d e s)"

definition record_counter ::
  "('pw, 'h, 'c, 'p) deps \<Rightarrow> int \<Rightarrow> rstr \<Rightarrow> f64 \<Rightarrow> label list
     \<Rightarrow> ('pw, 'h, 'c, 'p) process \<Rightarrow> unit res \<times> ('pw, 'h, 'c, 'p) process" where
  "record_counter = record_metric Counter"

definition record_gauge ::
  "('pw, 'h, 'c, 'p) deps \<Rightarrow> int \<Rightarrow> rstr \<Rightarrow> f64 \<Rightarrow> label list
     \<Rightarrow> ('pw, 'h, 'c, 'p) process \<Rightarrow> unit res \<times> ('pw, 'h, 'c, 'p) process" where
  "record_gauge = record_metric Gauge"

definition record_histogram ::
  "('pw, 'h, 'c, 'p) deps \<Rightarrow> int \<Rightarrow> rstr \<Rightarrow> f64 \<Rightarrow> label list
     \<Rightarrow> ('pw, 'h, 'c, 'p) process \<Rightarrow> unit res \<times> ('pw, 'h, 'c, 'p) process" where
  "record_histogram = record_metric Histogram"

definition prometheus_text ::
  "('pw, 'h, 'c, 'p) deps \<Rightarrow> ('pw, 'h, 'c, 'p) process \<Rightarrow> error + rstr" where
  "prometheus_text d s =
     (case global s of None \<Rightarrow> Inl NotInitialized | Some h \<Rightarrow> handle_text d h)"

definition global_handle :: "('pw, 'h, 'c, 'p) process \<Rightarrow> ('pw, 'h, 'c, 'p) engine_handle option" where
  "global_handle s = global s"

definition is_initialized :: "('pw, 'h, 'c, 'p) process \<Rightarrow> bool" where
  "is_initialized s \<longleftrightarrow> global s \<noteq> None"

text \<open>
  The macros \<open>counter!\<close>, \<open>gauge!\<close> and \<open>histogram!\<close> of \<open>src/lib.rs\<close>:
  no labels, identifiers with values, or expressions with values, the values as
  \<open>to_string\<close> gives them.
\<close>

datatype macro_labels =
    NoLabels
  | Idents "(rstr \<times> rstr) list"
  | Exprs "(rstr \<times> rstr) list"

fun macro_vec :: "macro_labels \<Rightarrow> label list" where
  "macro_vec NoLabels = []"
| "macro_vec (Idents kvs) = kvs"
| "macro_vec (Exprs kvs) = kvs"

definition counter_macro ::
  "('pw, 'h, 'c, 'p) deps \<Rightarrow> int \<Rightarrow> rstr \<Rightarrow> f64 \<Rightarrow> macro_labels
     \<Rightarrow> ('pw, 'h, 'c, 'p) process \<Rightarrow> unit res \<times> ('pw, 'h, 'c, 'p) process" where
  "counter_macro d now nm v args = record_counter d now nm v (macro_vec args)"

definition gauge_macro ::
  "('pw, 'h, 'c, 'p) deps \<Rightarrow> int \<Rightarrow> rstr \<Rightarrow> f64 \<Rightarrow> macro_labels
     \<Rightarrow> ('pw, 'h, 'c, 'p) process \<Rightarrow> unit res \<times> ('pw, 'h, 'c, 'p) process" where
  "gauge_macro d now nm v args = record_gauge d now nm v (macro_vec args)"

definition histogram_macro ::
  "('pw, 'h, 'c, 'p) deps \<Rightarrow> int \<Rightarrow> rstr \<Rightarrow> f64 \<Rightarrow> macro_labels
     \<Rightarrow> ('pw, 'h, 'c, 'p) process \<Rightarrow> unit res \<times> ('pw, 'h, 'c, 'p) process" where
  "histogram_macro d now nm v args = record_histogram d now nm v (macro_vec args)"

section \<open>What one record does\<close>

text \<open>
  The state of a handle: the registry's invariant, and the two drop counters in step.
\<close>

definition drops_recorded :: "('pw \<Rightarrow> 'h prom_view) \<Rightarrow> ('pw, 'h) prom_registry \<Rightarrow> nat \<Rightarrow> bool" where
  "drops_recorded pv r n \<longleftrightarrow> series (pv (registry r)) (dropped_counter r) [] = replicate n (Fin 1)"

definition handle_inv ::
  "('pw \<Rightarrow> 'h prom_view) \<Rightarrow> ('pw, 'h, 'c, 'p) engine_handle \<Rightarrow> nat \<Rightarrow> bool" where
  "handle_inv pv h n \<longleftrightarrow>
     dropped_total h = of_nat n \<and>
     (\<forall>r. eh_registry h = Some r \<longrightarrow> prom_inv pv r \<and> drops_recorded pv r n)"

definition abs_of ::
  "('pw \<Rightarrow> 'h prom_view) \<Rightarrow> ('pw, 'h, 'c, 'p) engine_handle \<Rightarrow> prom_abs option" where
  "abs_of pv h = map_option (abs_registry pv) (eh_registry h)"

text \<open>The effect of one observation on the registry, when there is one.\<close>

definition abs_observe ::
  "(metric_type \<Rightarrow> rstr \<Rightarrow> rstr list \<Rightarrow> bool) \<Rightarrow> metric_entry \<Rightarrow> prom_abs option
     \<Rightarrow> unit res \<times> prom_abs option" where
  "abs_observe ok e A =
     (case A of None \<Rightarrow> (Ret (), None) | Some A \<Rightarrow> map_prod id Some (abs_update ok e A))"

lemma inc_dropped_inv:
  assumes "prom_spec pv ok api" "prom_inv pv r" "drops_recorded pv r n"
  shows "prom_inv pv (inc_dropped api r) \<and> drops_recorded pv (inc_dropped api r) (Suc n) \<and>
    abs_registry pv (inc_dropped api r) = abs_registry pv r"
proof -
  have "dropped_counter (inc_dropped api r) = dropped_counter r" by (simp add: inc_dropped_def)
  then show ?thesis
    using inc_dropped_refines [OF assms(1,2)] assms(3)
    by (simp add: drops_recorded_def replicate_append_same)
qed

lemma registry_part:
  assumes spec: "prom_spec pv ok (prom d)" and inv: "handle_inv pv h n"
    and adm: "admissible (metric_kind e) (sample e)"
  defines "part \<equiv> (case eh_registry h of
      None \<Rightarrow> (Ret (), h)
    | Some reg \<Rightarrow> (case update (prom d) reg e of (res, reg') \<Rightarrow> (res, h\<lparr>eh_registry := Some reg'\<rparr>)))"
  shows "handle_inv pv (snd part) n \<and> tx (snd part) = tx h \<and> eh_fjall (snd part) = eh_fjall h \<and>
    dropped_total (snd part) = dropped_total h \<and> eh_has_fjall (snd part) = eh_has_fjall h \<and>
    (fst part, abs_of pv (snd part)) = abs_observe ok e (abs_of pv h)"
proof (cases "eh_registry h")
  case None
  then show ?thesis using inv by (simp add: part_def abs_of_def abs_observe_def)
next
  case (Some r)
  obtain res r' where u: "update (prom d) r e = (res, r')" by fastforce
  have r: "prom_inv pv r" "drops_recorded pv r n" using inv Some by (simp_all add: handle_inv_def)
  have "prom_inv pv r' \<and> (res, abs_registry pv r') = abs_update ok e (abs_registry pv r)"
    using update_refines [OF spec r(1) adm] by (simp add: u)
  moreover from this have "abs_update ok e (abs_registry pv r) = (res, abs_registry pv r')" by simp
  ultimately show ?thesis
    using update_keeps_drops [OF spec r(1) adm u] inv r Some
    by (simp add: part_def u handle_inv_def drops_recorded_def abs_of_def abs_observe_def)
qed

lemma engine_record_spec:
  assumes spec: "prom_spec pv ok (prom d)" "chan_spec cv (chan d)" and inv: "handle_inv pv h n"
    and adm: "admissible (metric_kind e) (sample e)" and c: "tx h = Some c"
  shows "\<exists>h' c'. engine_record d False e h = (fst (abs_observe ok e (abs_of pv h)), h') \<and>
    abs_of pv h' = snd (abs_observe ok e (abs_of pv h)) \<and> tx h' = Some c' \<and>
    eh_fjall h' = eh_fjall h \<and> eh_has_fjall h' = eh_has_fjall h \<and>
    (if fst (abs_observe ok e (abs_of pv h)) \<noteq> Ret () then cv c' = cv c \<and> handle_inv pv h' n
     else cv c' = snd (send_view (Metric e) (cv c)) \<and>
       handle_inv pv h' (if fst (send_view (Metric e) (cv c)) = Inr () then n else Suc n))"
proof -
  define part where "part = (case eh_registry h of
      None \<Rightarrow> (Ret (), h)
    | Some reg \<Rightarrow> (case update (prom d) reg e of (res, reg') \<Rightarrow> (res, h\<lparr>eh_registry := Some reg'\<rparr>)))"
  obtain res h1 where p: "part = (res, h1)" by fastforce
  note rp = registry_part [OF spec(1) inv adm, folded part_def, unfolded p fst_conv snd_conv]
  then have ob: "abs_observe ok e (abs_of pv h) = (res, abs_of pv h1)" by simp
  have h1: "handle_inv pv h1 n" "tx h1 = Some c" "eh_fjall h1 = eh_fjall h"
    "eh_has_fjall h1 = eh_has_fjall h" using rp c by simp_all
  obtain s c' where s: "try_send (chan d) c (Metric e) = (s, c')" by fastforce
  have v: "send_view (Metric e) (cv c) = (s, cv c')" by (rule chan_specD(2) [OF spec(2) s])
  let ?dropped = "h1\<lparr>tx := Some c', dropped_total := dropped_total h1 + 1,
    eh_registry := map_option (inc_dropped (prom d)) (eh_registry h1)\<rparr>"
  have dr: "handle_inv pv ?dropped (Suc n)" "abs_of pv ?dropped = abs_of pv h1"
    using h1(1) inc_dropped_inv [OF spec(1)]
    by (auto simp: handle_inv_def abs_of_def option.map_comp comp_def intro!: option.map_cong)
  have keep: "handle_inv pv (h1\<lparr>tx := Some c'\<rparr>) n" "abs_of pv (h1\<lparr>tx := Some c'\<rparr>) = abs_of pv h1"
    using h1(1) by (simp_all add: handle_inv_def abs_of_def)
  have rec: "engine_record d False e h = (case res of
      Panicked p \<Rightarrow> (Panicked p, h1)
    | Ret u \<Rightarrow> (case s of Inr u \<Rightarrow> (Ret (), h1\<lparr>tx := Some c'\<rparr>) | Inl x \<Rightarrow> (Ret (), ?dropped)))"
    by (simp add: engine_record_def part_def [symmetric] p h1(2) s split: res.split sum.split)
  show ?thesis
  proof (cases res)
    case (Panicked x)
    then show ?thesis by (simp add: rec ob h1)
  next
    case (Ret u)
    then show ?thesis
      using dr keep h1 by (cases s) (simp_all add: rec ob v)
  qed
qed

lemma global_record_noop:
  assumes "global s = None \<or> shutdown_flag s"
  shows "global_record d e s = (Ret (), s)"
  using assms by (cases "global s") (auto simp: global_record_def engine_record_def)

section \<open>The crates the code is evaluated on\<close>

definition demo_deps :: "(ref_world, nat, chan_view, kv_store) deps" where
  "demo_deps =
     \<lparr>ft = \<lparr>fjall_backend = True, prometheus_exporter = True\<rparr>, prom = ref_prom, chan = ref_chan,
      fj = ref_fjall, js = json_table demo_table\<rparr>"

lemma demo_deps_simps [simp]:
  "ft demo_deps = \<lparr>fjall_backend = True, prometheus_exporter = True\<rparr>"
  "prom demo_deps = ref_prom" "chan demo_deps = ref_chan" "fj demo_deps = ref_fjall"
  "js demo_deps = json_table demo_table"
  by (simp_all add: demo_deps_def)

definition full_handle ::
  "(ref_world, nat) prom_registry \<Rightarrow> (ref_world, nat, chan_view, kv_store) engine_handle" where
  "full_handle r =
     \<lparr>tx = Some \<lparr>queue = [Metric (demo_entry [])], capacity = 1, rx_open = True, tx_open = True\<rparr>,
      eh_registry = Some r, eh_fjall = Some store_empty, dropped_total = 0, eh_has_fjall = True\<rparr>"

section \<open>Properties\<close>

text \<open>
  C18: one \<open>record\<close> on a running engine updates the Prometheus registry first; if that
  panics nothing else happens; otherwise the sample is appended to the queue when the
  channel is open and has room, and when it is not, it is dropped for the store only: the
  registry keeps it, and the handle's counter and \<open>tonggeret_dropped_total\<close> both go
  up by one and stay equal (the handle's modulo \<open>2 ^ 64\<close>).
\<close>

theorem record_dispatch:
  assumes "prom_spec pv ok (prom d)" and "chan_spec cv (chan d)" and "handle_inv pv h n"
    and "admissible (metric_kind e) (sample e)" and "tx h = Some c"
  shows "\<exists>h' c'. engine_record d False e h = (fst (abs_observe ok e (abs_of pv h)), h') \<and>
    abs_of pv h' = snd (abs_observe ok e (abs_of pv h)) \<and> tx h' = Some c' \<and>
    eh_fjall h' = eh_fjall h \<and> eh_has_fjall h' = eh_has_fjall h \<and>
    (if fst (abs_observe ok e (abs_of pv h)) \<noteq> Ret () then cv c' = cv c \<and> handle_inv pv h' n
     else cv c' = snd (send_view (Metric e) (cv c)) \<and>
       handle_inv pv h' (if fst (send_view (Metric e) (cv c)) = Inr () then n else Suc n))"
  using assms by (rule engine_record_spec)

theorem record_dispatch_witness:
  "\<exists>r h' r'. prom_registry_new ref_prom [Fin 5] = Inr r \<and>
     engine_record demo_deps False (demo_entry []) (full_handle r) = (Ret (), h') \<and>
     handle_inv ref_view h' 1 \<and> tx h' = tx (full_handle r) \<and> eh_registry h' = Some r' \<and>
     samples (abs_registry ref_view r') (lit ''a'') [] = [Fin 1]"
proof -
  obtain r where r: "prom_registry_new ref_prom [Fin 5] = Inr r" "prom_inv ref_view r"
    "abs_registry ref_view r = \<lparr>families = Map.empty, samples = (\<lambda>_ _. [])\<rparr>"
    "series (ref_view (registry r)) (dropped_counter r) [] = []"
    using prom_registry_new_ok [OF ref_prom_spec, of "[Fin 5]"] by blast
  have ok: "ref_ok Counter (lit ''a'') []" using demo_ok(1) by (simp add: ref_ok_def)
  have inv: "handle_inv ref_view (full_handle r) 0"
    using r by (simp add: handle_inv_def full_handle_def drops_recorded_def)
  have tx: "tx (full_handle r) =
      Some \<lparr>queue = [Metric (demo_entry [])], capacity = 1, rx_open = True, tx_open = True\<rparr>"
    by (simp add: full_handle_def)
  have obs: "fst (abs_observe ref_ok (demo_entry []) (abs_of ref_view (full_handle r))) = Ret ()"
    "\<exists>A. snd (abs_observe ref_ok (demo_entry []) (abs_of ref_view (full_handle r))) = Some A \<and>
       samples A (lit ''a'') [] = [Fin 1]"
    using demo_ok(2) ok
    by (simp_all add: abs_observe_def abs_of_def full_handle_def r(3) abs_update_def abs_sample_def demo_entry_def)
  have "chan_spec id (chan demo_deps)" "prom_spec ref_view ref_ok (prom demo_deps)"
    by (simp_all add: ref_chan_spec ref_prom_spec)
  from record_dispatch [OF this(2,1) inv demo_admissible [of "[]"] tx]
  obtain h' c' where h': "engine_record demo_deps False (demo_entry []) (full_handle r) = (Ret (), h')"
    "abs_of ref_view h' = snd (abs_observe ref_ok (demo_entry []) (abs_of ref_view (full_handle r)))"
    "tx h' = Some c'" "c' = \<lparr>queue = [Metric (demo_entry [])], capacity = 1, rx_open = True, tx_open = True\<rparr>"
    "handle_inv ref_view h' (Suc 0)"
    unfolding obs(1) by (auto simp: send_view_def)
  obtain r' where "eh_registry h' = Some r'" "samples (abs_registry ref_view r') (lit ''a'') [] = [Fin 1]"
    using obs(2) h'(2) unfolding abs_of_def by auto
  then show ?thesis using r(1) h' tx by (intro exI [of _ r] exI [of _ h'] exI [of _ r']) simp
qed

text \<open>
  Before \<open>init\<close> and after \<open>shutdown\<close> recording changes nothing. It is silent
  exactly when the entry can be built: a label value without a cut at byte 256 panics
  even then, because the entry is built before the engine is looked up.
\<close>

lemma record_noop:
  assumes "global s = None \<or> shutdown_flag s"
  shows "record_metric mt d now nm v ls s =
    ((if list_all (\<lambda>kv. has_cut 256 (snd kv)) (take 16 (filter named_pair ls)) then Ret ()
      else Panicked TruncateBoundary), s)"
  using global_record_noop [OF assms]
  by (simp add: record_metric_def metric_entry_new_def sanitize_labels_def sanitize_take_eq MAX_PAIRS_def)

lemma record_noop_witness:
  "record_metric Counter demo_deps 0 (lit ''noop_total'') (Fin 1) [] process_start = (Ret (), process_start)"
  using record_noop [of process_start Counter demo_deps 0 "lit ''noop_total''" "Fin 1" "[]"]
  by (simp add: process_start_def)

end
