(* ===== verification/Lifecycle.thy ===== *)
theory Lifecycle
  imports Engine
begin

text \<open>
  The global lifecycle of \<open>src/engine.rs\<close>: \<open>init\<close>, the start of the compaction
  task, and \<open>shutdown\<close>, together with the turns of the writer thread on the shared
  state. Waiting is explicit: \<open>shutdown\<close> takes a schedule of what the other threads do
  while it sleeps between attempts, and \<open>join\<close> runs the writer thread until it returns
  (then \<open>shutdown\<close> returns) or parks for good (then it does not).
\<close>

section \<open>Initialising\<close>

text \<open>
  What \<open>init\<close> meets: whether the OS refuses the thread, and whether a Tokio runtime
  is running.
\<close>

record init_env =
  spawn_error :: "rstr option"
  runtime_running :: bool

definition spawn_compaction_task ::
  "bool \<Rightarrow> fjall_config \<Rightarrow> ('pw, 'h, 'c, 'p) process \<Rightarrow> bool \<times> ('pw, 'h, 'c, 'p) process" where
  "spawn_compaction_task runtime cfg s =
     (if \<not> enable_compaction cfg then (False, s)
      else
        (case global s of
           None \<Rightarrow> (False, s)
         | Some h \<Rightarrow>
             (case eh_fjall h of
                None \<Rightarrow> (False, s)
              | Some p \<Rightarrow>
                  if \<not> runtime then (False, s)
                  else
                    (let s' = s\<lparr>tasks := tasks s @ [(cfg, False)]\<rparr>
                     in if poisoned (compaction_task s') then (False, s')
                        else (True, s'\<lparr>compaction_task :=
                               (compaction_task s')\<lparr>guarded := Some (length (tasks s))\<rparr>\<rparr>)))))"

definition try_spawn_compaction ::
  "bool \<Rightarrow> config \<Rightarrow> ('pw, 'h, 'c, 'p) process \<Rightarrow> ('pw, 'h, 'c, 'p) process" where
  "try_spawn_compaction runtime cfg s =
     (case fjall cfg of None \<Rightarrow> s | Some db \<Rightarrow> snd (spawn_compaction_task runtime db s))"

text \<open>
  Opening the store before anything is published; \<open>None\<close> when no store is configured.
\<close>

definition init_storage ::
  "('pw, 'h, 'c, 'p) deps \<Rightarrow> ('k, 'p, 'fs) storage_api \<Rightarrow> config
     \<Rightarrow> ('pw, 'h, 'c, 'p) engine_handle \<Rightarrow> 'fs
     \<Rightarrow> (error + ('pw, 'h, 'c, 'p) engine_handle \<times> 'p option) \<times> 'fs" where
  "init_storage d sa cfg handle fs =
     (if fjall_backend (ft d)
      then (case fjall cfg of
              None \<Rightarrow> (Inr (handle, None), fs)
            | Some fcfg \<Rightarrow>
                (case open_handles sa fcfg fs of
                   (Inl e, fs') \<Rightarrow> (Inl e, fs')
                 | (Inr p, fs') \<Rightarrow>
                     (Inr (handle\<lparr>eh_fjall := Some p, eh_has_fjall := True\<rparr>, Some p), fs')))
      else (Inr (handle, None), fs))"

text \<open>
  Starting the writer thread. When the thread cannot be spawned the closure is dropped,
  and the receiver with it, after \<open>GLOBAL\<close> was set.
\<close>

definition init_writer ::
  "('pw, 'h, 'c, 'p) deps \<Rightarrow> init_env \<Rightarrow> config \<Rightarrow> ('pw, 'h, 'c, 'p) engine_handle \<Rightarrow> 'p option
     \<Rightarrow> ('pw, 'h, 'c, 'p) process \<Rightarrow> (error + unit) \<times> ('pw, 'h, 'c, 'p) process" where
  "init_writer d env cfg handle opened s =
     (case (fjall cfg, tx handle, opened) of
        (Some fcfg, Some c, Some p) \<Rightarrow>
          (case spawn_error env of
             Some e \<Rightarrow>
               (Inl (Storage (lit ''spawn writer thread: '' @ e)),
                s\<lparr>global := Some (handle\<lparr>tx := Some (drop_receiver (chan d) c)\<rparr>)\<rparr>)
           | None \<Rightarrow>
               (let s1 = s\<lparr>writer_thr := Some \<lparr>wt_rows = batch_rows fcfg, wt_seq = 0, wt_exited = False\<rparr>\<rparr>;
                    s2 = (if poisoned (writer_join s1) then s1
                          else s1\<lparr>writer_join := (writer_join s1)\<lparr>guarded := Some ()\<rparr>\<rparr>)
                in (Inr (), try_spawn_compaction (runtime_running env) cfg s2)))
      | _ \<Rightarrow> (Inr (), s))"

definition init ::
  "('pw, 'h, 'c, 'p) deps \<Rightarrow> ('k, 'p, 'fs) storage_api \<Rightarrow> init_env \<Rightarrow> config
     \<Rightarrow> ('pw, 'h, 'c, 'p) process \<times> 'fs
     \<Rightarrow> (error + unit) \<times> ('pw, 'h, 'c, 'p) process \<times> 'fs" where
  "init d sa env cfg s0 =
     (case s0 of (s, fs) \<Rightarrow>
        (case config_validate (ft d) cfg of
           Inl e \<Rightarrow> (Inl e, s, fs)
         | Inr _ \<Rightarrow>
             (case engine_handle_new d cfg of
                Inl e \<Rightarrow> (Inl e, s, fs)
              | Inr handle0 \<Rightarrow>
                  (case init_storage d sa cfg handle0 fs of
                     (Inl e, fs') \<Rightarrow> (Inl e, s, fs')
                   | (Inr (handle, opened), fs') \<Rightarrow>
                       (case global s of
                          Some _ \<Rightarrow> (Inl AlreadyInitialized, s, fs')
                        | None \<Rightarrow>
                            (case init_writer d env cfg handle opened (s\<lparr>global := Some handle\<rparr>) of
                               (r, s') \<Rightarrow> (r, s', fs')))))))"

section \<open>The writer thread on the shared state\<close>

definition writer_of ::
  "('pw, 'h, 'c, 'p) process \<Rightarrow> (writer_thread \<times> ('c, 'p) writer) option" where
  "writer_of s =
     (case (global s, writer_thr s) of
        (Some h, Some t) \<Rightarrow>
          (case (tx h, eh_fjall h) of
             (Some c, Some p) \<Rightarrow>
               if wt_exited t then None else Some (t, \<lparr>w_rx = c, w_part = p, w_seq = wt_seq t\<rparr>)
           | _ \<Rightarrow> None)
      | _ \<Rightarrow> None)"

definition put_writer ::
  "writer_status \<Rightarrow> ('c, 'p) writer \<Rightarrow> ('pw, 'h, 'c, 'p) process \<Rightarrow> ('pw, 'h, 'c, 'p) process" where
  "put_writer status w s =
     s\<lparr>global := map_option (\<lambda>h. h\<lparr>tx := Some (w_rx w), eh_fjall := Some (w_part w)\<rparr>) (global s),
       writer_thr := map_option (\<lambda>t. t\<lparr>wt_seq := w_seq w, wt_exited := status = Exited\<rparr>) (writer_thr s)\<rparr>"

definition writer_step ::
  "('pw, 'h, 'c, 'p) deps \<Rightarrow> ('pw, 'h, 'c, 'p) process \<Rightarrow> ('pw, 'h, 'c, 'p) process" where
  "writer_step d s =
     (case writer_of s of
        None \<Rightarrow> s
      | Some (t, w) \<Rightarrow>
          (case writer_turn (js d) (fj d) (chan d) (wt_rows t) w of
             (status, w') \<Rightarrow> put_writer status w' s))"

section \<open>Shutting down\<close>

text \<open>
  What happens elsewhere while \<open>shutdown\<close> sleeps: turns of the writer, and records of
  threads that had passed the check of \<open>SHUTDOWN\<close> before it was set.
\<close>

datatype env_step = WriterTurn | InFlight metric_entry

fun env_run ::
  "('pw, 'h, 'c, 'p) deps \<Rightarrow> env_step list \<Rightarrow> ('pw, 'h, 'c, 'p) process \<Rightarrow> ('pw, 'h, 'c, 'p) process" where
  "env_run d [] s = s"
| "env_run d (WriterTurn # es) s = env_run d es (writer_step d s)"
| "env_run d (InFlight e # es) s =
     env_run d es (s\<lparr>global := map_option (\<lambda>h. snd (engine_record d False e h)) (global s)\<rparr>)"

definition set_tx :: "'c \<Rightarrow> ('pw, 'h, 'c, 'p) process \<Rightarrow> ('pw, 'h, 'c, 'p) process" where
  "set_tx c s = s\<lparr>global := map_option (\<lambda>h. h\<lparr>tx := Some c\<rparr>) (global s)\<rparr>"

text \<open>The delivery loop: up to \<open>n\<close> attempts, a sleep after each one that met a full queue.\<close>

fun deliver ::
  "nat \<Rightarrow> ('pw, 'h, 'c, 'p) deps \<Rightarrow> env_step list list \<Rightarrow> ('pw, 'h, 'c, 'p) process
     \<Rightarrow> ('pw, 'h, 'c, 'p) process" where
  "deliver 0 d sched s = s"
| "deliver (Suc n) d sched s =
     (case Option.bind (global s) tx of
        None \<Rightarrow> s
      | Some c \<Rightarrow>
          (case try_send (chan d) c Shutdown of
             (Inr _, c') \<Rightarrow> set_tx c' s
           | (Inl Closed, c') \<Rightarrow> set_tx c' s
           | (Inl Full, c') \<Rightarrow>
               (case sched of
                  [] \<Rightarrow> deliver n d [] (set_tx c' s)
                | es # sched' \<Rightarrow> deliver n d sched' (env_run d es (set_tx c' s)))))"

text \<open>\<open>Hangs\<close>: the call does not return. \<open>OutOfFuel\<close>: the bound was too small to tell.\<close>

datatype 'a outcome = Returns 'a | Hangs | OutOfFuel

definition join_writer ::
  "nat \<Rightarrow> ('pw, 'h, 'c, 'p) deps \<Rightarrow> ('pw, 'h, 'c, 'p) process
     \<Rightarrow> unit outcome \<times> ('pw, 'h, 'c, 'p) process" where
  "join_writer fuel d s =
     (case writer_of s of
        None \<Rightarrow> (Returns (), s)
      | Some (t, w) \<Rightarrow>
          (case writer_run fuel (js d) (fj d) (chan d) (wt_rows t) w of
             None \<Rightarrow> (OutOfFuel, s)
           | Some (Exited, w') \<Rightarrow> (Returns (), put_writer Exited w' s)
           | Some (status, w') \<Rightarrow> (Hangs, put_writer status w' s)))"

definition take_join ::
  "nat \<Rightarrow> ('pw, 'h, 'c, 'p) deps \<Rightarrow> ('pw, 'h, 'c, 'p) process
     \<Rightarrow> unit outcome \<times> ('pw, 'h, 'c, 'p) process" where
  "take_join fuel d s =
     (if poisoned (writer_join s) then (Returns (), s)
      else
        (case guarded (writer_join s) of
           None \<Rightarrow> (Returns (), s)
         | Some _ \<Rightarrow> join_writer fuel d (s\<lparr>writer_join := (writer_join s)\<lparr>guarded := None\<rparr>\<rparr>)))"

definition abort_compaction :: "('pw, 'h, 'c, 'p) process \<Rightarrow> ('pw, 'h, 'c, 'p) process" where
  "abort_compaction s =
     (if poisoned (compaction_task s) then s
      else
        (case guarded (compaction_task s) of
           None \<Rightarrow> s
         | Some i \<Rightarrow>
             s\<lparr>compaction_task := (compaction_task s)\<lparr>guarded := None\<rparr>,
               tasks := (tasks s)[i := (fst (tasks s ! i), True)]\<rparr>))"

definition final_persist ::
  "('pw, 'h, 'c, 'p) deps \<Rightarrow> ('pw, 'h, 'c, 'p) process \<Rightarrow> ('pw, 'h, 'c, 'p) process" where
  "final_persist d s =
     s\<lparr>global := map_option (\<lambda>h. h\<lparr>eh_fjall := map_option (\<lambda>p. snd (persist (fj d) p)) (eh_fjall h)\<rparr>)
        (global s)\<rparr>"

definition shutdown ::
  "nat \<Rightarrow> ('pw, 'h, 'c, 'p) deps \<Rightarrow> env_step list list \<Rightarrow> ('pw, 'h, 'c, 'p) process
     \<Rightarrow> (error + unit) outcome \<times> ('pw, 'h, 'c, 'p) process" where
  "shutdown fuel d sched s =
     (case global s of
        None \<Rightarrow> (Returns (Inl NotInitialized), s)
      | Some h \<Rightarrow>
          if shutdown_flag s then (Returns (Inr ()), s)
          else
            (let s1 = s\<lparr>shutdown_flag := True\<rparr>;
                 s2 = (if tx h = None then s1 else deliver 100 d sched s1)
             in case take_join fuel d s2 of
                  (Returns _, s3) \<Rightarrow> (Returns (Inr ()), final_persist d (abort_compaction s3))
                | (Hangs, s3) \<Rightarrow> (Hangs, s3)
                | (OutOfFuel, s3) \<Rightarrow> (OutOfFuel, s3)))"

section \<open>Facts about starting\<close>

text \<open>
  The state of an engine whose writer thread runs: the flushed samples are in the store in
  order, the messages not taken yet in the channel.
\<close>

definition pipeline ::
  "('c \<Rightarrow> chan_view) \<Rightarrow> ('pw, 'h, 'c, 'p) deps \<Rightarrow> 'p \<Rightarrow> nat \<Rightarrow> metric_entry list \<Rightarrow> pipeline_msg list
     \<Rightarrow> ('pw, 'h, 'c, 'p) process \<Rightarrow> bool" where
  "pipeline cv d p0 cap stored msgs s \<longleftrightarrow>
     (\<exists>h t c. global s = Some h \<and> tx h = Some c \<and> writer_thr s = Some t \<and> \<not> wt_exited t \<and>
        cv c = \<lparr>queue = msgs, capacity = cap, rx_open = True, tx_open = True\<rparr> \<and>
        length msgs \<le> cap \<and>
        eh_fjall h = Some (fst (flush_batch (js d) (fj d) stored p0 0)) \<and>
        wt_seq t = of_nat (length stored))"

lemma spawn_compaction_global:
  "global (snd (spawn_compaction_task rt cfg s)) = global s"
  "shutdown_flag (snd (spawn_compaction_task rt cfg s)) = shutdown_flag s"
  "writer_join (snd (spawn_compaction_task rt cfg s)) = writer_join s"
  "writer_thr (snd (spawn_compaction_task rt cfg s)) = writer_thr s"
  by (auto simp: spawn_compaction_task_def Let_def split: option.split)

lemma try_spawn_global [simp]:
  "global (try_spawn_compaction rt cfg s) = global s"
  "shutdown_flag (try_spawn_compaction rt cfg s) = shutdown_flag s"
  "writer_join (try_spawn_compaction rt cfg s) = writer_join s"
  "writer_thr (try_spawn_compaction rt cfg s) = writer_thr s"
  by (simp_all add: try_spawn_compaction_def spawn_compaction_global split: option.split)

text \<open>What \<open>init\<close> prepares before it looks at \<open>GLOBAL\<close>.\<close>

definition prepare ::
  "('pw, 'h, 'c, 'p) deps \<Rightarrow> ('k, 'p, 'fs) storage_api \<Rightarrow> config \<Rightarrow> 'fs
     \<Rightarrow> (error + ('pw, 'h, 'c, 'p) engine_handle \<times> 'p option) \<times> 'fs" where
  "prepare d sa cfg fs =
     (case config_validate (ft d) cfg of
        Inl e \<Rightarrow> (Inl e, fs)
      | Inr _ \<Rightarrow> (case engine_handle_new d cfg of Inl e \<Rightarrow> (Inl e, fs) | Inr h \<Rightarrow> init_storage d sa cfg h fs))"

lemma init_prepare:
  "init d sa env cfg (s, fs) =
     (case prepare d sa cfg fs of
        (Inl e, fs') \<Rightarrow> (Inl e, s, fs')
      | (Inr (h, opened), fs') \<Rightarrow>
          (case global s of
             Some _ \<Rightarrow> (Inl AlreadyInitialized, s, fs')
           | None \<Rightarrow> (case init_writer d env cfg h opened (s\<lparr>global := Some h\<rparr>) of (r, s') \<Rightarrow> (r, s', fs'))))"
  by (auto simp: init_def prepare_def split: sum.split prod.split option.split)

text \<open>The handle \<open>prepare\<close> returns, with a store and without one.\<close>

lemma prepare_handle:
  assumes "prepare d sa cfg fs = (Inr (h, opened), fs')"
  shows "dropped_total h = 0 \<and> eh_fjall h = opened \<and> eh_has_fjall h = (opened \<noteq> None) \<and>
    (opened \<noteq> None \<longleftrightarrow> fjall_backend (ft d) \<and> fjall cfg \<noteq> None) \<and>
    tx h = (if opened = None then None else Some (mpsc_channel (chan d) (channel_capacity cfg)))"
  using assms
  by (auto simp: prepare_def engine_handle_new_def init_storage_def
      split: sum.splits prod.splits option.splits if_splits)

lemma prepare_registry:
  assumes "prom_spec pv ok (prom d)" "prepare d sa cfg fs = (Inr (h, opened), fs')"
  shows "handle_inv pv h 0"
proof -
  obtain r where r: "prom_registry_new (prom d) (default_histogram_buckets (prometheus cfg)) = Inr r"
    "prom_inv pv r" "series (pv (registry r)) (dropped_counter r) [] = []"
    using prom_registry_new_ok [OF assms(1)] by blast
  have "dropped_total h = 0" using prepare_handle [OF assms(2)] by simp
  moreover have "eh_registry h = None \<or> eh_registry h = Some r"
    using assms(2) r(1)
    by (auto simp: prepare_def engine_handle_new_def init_storage_def
        split: sum.splits prod.splits option.splits if_splits)
  ultimately show ?thesis using r by (auto simp: handle_inv_def drops_recorded_def)
qed

lemma init_writer_cases:
  assumes "prepare d sa cfg fs = (Inr (h, opened), fs')"
  shows "init_writer d env cfg h opened s =
    (case opened of
       None \<Rightarrow> (Inr (), s)
     | Some p \<Rightarrow>
         (case spawn_error env of
            Some e \<Rightarrow>
              (Inl (Storage (lit ''spawn writer thread: '' @ e)),
               s\<lparr>global := Some (h\<lparr>tx := Some (drop_receiver (chan d)
                   (mpsc_channel (chan d) (channel_capacity cfg)))\<rparr>)\<rparr>)
          | None \<Rightarrow>
              (Inr (), try_spawn_compaction (runtime_running env) cfg
                 (if poisoned (writer_join s)
                  then s\<lparr>writer_thr := Some \<lparr>wt_rows = batch_rows (the (fjall cfg)), wt_seq = 0, wt_exited = False\<rparr>\<rparr>
                  else s\<lparr>writer_thr := Some \<lparr>wt_rows = batch_rows (the (fjall cfg)), wt_seq = 0, wt_exited = False\<rparr>,
                    writer_join := (writer_join s)\<lparr>guarded := Some ()\<rparr>\<rparr>))))"
  using prepare_handle [OF assms]
  by (auto simp: init_writer_def Let_def split: option.split)

lemma prepare_opened:
  assumes "prepare d sa cfg fs = (Inr (h, Some p), fs')" "fjall cfg = Some fcfg"
  shows "open_handles sa fcfg fs = (Inr p, fs')"
  using assms
  by (auto simp: prepare_def init_storage_def split: sum.splits prod.splits option.splits if_splits)

lemma prepare_opens:
  assumes "prom_spec pv ok (prom d)" "config_validate (ft d) cfg = Inr ()" "fjall_backend (ft d)"
    and "fjall cfg = Some fcfg"
  shows "prepare d sa cfg fs = (case open_handles sa fcfg fs of
      (Inl e, fs') \<Rightarrow> (Inl e, fs')
    | (Inr p, fs') \<Rightarrow>
        (Inr (projr (engine_handle_new d cfg)\<lparr>eh_fjall := Some p, eh_has_fjall := True\<rparr>, Some p), fs'))"
proof -
  obtain r where "prom_registry_new (prom d) (default_histogram_buckets (prometheus cfg)) = Inr r"
    using prom_registry_new_ok [OF assms(1)] by blast
  then have "\<exists>h. engine_handle_new d cfg = Inr h"
    by (cases "prometheus_exporter (ft d)") (simp_all add: engine_handle_new_def)
  then obtain h where "engine_handle_new d cfg = Inr h" ..
  then show ?thesis using assms(2-4) by (simp add: prepare_def init_storage_def split: prod.split sum.split)
qed

text \<open>A store in memory: the directories created, and an empty partition.\<close>

definition demo_storage :: "(unit, kv_store, path list) storage_api" where
  "demo_storage =
     \<lparr>create_dir_all = (\<lambda>p fs. (Inr (), p # fs)),
      keyspace_open = (\<lambda>p cache buffer fs. (Inr (), fs)),
      open_partition = (\<lambda>k nm memtable fs. (Inr store_empty, fs))\<rparr>"

lemma open_demo: "open_handles demo_storage c fs = (Inr store_empty, cold_dir c # dir c # fs)"
  by (simp add: open_handles_def demo_storage_def)

lemma new_config_compacts [simp]: "enable_compaction (fjall_config_new p)"
  by (simp add: fjall_config_new_def fjall_config_default_def)

definition demo_config :: config where
  "demo_config = default_full [Normal (lit ''data'')]"

lemma demo_config_simps:
  "config_validate \<lparr>fjall_backend = True, prometheus_exporter = p\<rparr> demo_config = Inr ()"
  "fjall demo_config = Some (fjall_config_new [Normal (lit ''data'')])"
  "channel_capacity demo_config = 16384"
  using usable_default [of "[Normal (lit ''data'')]"]
  by (simp_all add: config_validate_def demo_config_def default_full_def prometheus_config_default_def
      fjall_validate_iff)

lemma init_demo:
  "\<exists>s'. init demo_deps demo_storage \<lparr>spawn_error = None, runtime_running = rt\<rparr> demo_config (process_start, [])
     = (Inr (), s', [[], [Normal (lit ''data'')]])"
proof -
  have "prom_spec ref_view ref_ok (prom demo_deps)" by (simp add: ref_prom_spec)
  from prepare_opens [OF this, of demo_config _ demo_storage "[]"]
  have p: "\<exists>h. prepare demo_deps demo_storage demo_config [] = (Inr (h, Some store_empty), [[], [Normal (lit ''data'')]])"
    using demo_config_simps(1) [of True]
    by (simp add: demo_config_simps(2) open_demo cold_dir_def fjall_config_new_def
        fjall_config_default_def path_parent_def)
  then show ?thesis
    by (auto simp: init_prepare init_writer_cases process_start_def)
qed

text \<open>The engine a successful \<open>init\<close> with a store leaves.\<close>

lemma init_running:
  assumes "prom_spec pv ok (prom d)" and "chan_spec cv (chan d)"
    and "init d sa env cfg (s, fs) = (Inr (), s', fs')" and "fjall cfg = Some fcfg"
    and "\<not> poisoned (writer_join s)" and "\<not> poisoned (compaction_task s)"
  shows "\<exists>p h. open_handles sa fcfg fs = (Inr p, fs') \<and>
    pipeline cv d p (channel_capacity cfg) [] [] s' \<and>
    global s' = Some h \<and> handle_inv pv h 0 \<and> eh_has_fjall h \<and>
    writer_join s' = \<lparr>guarded = Some (), poisoned = False\<rparr> \<and> shutdown_flag s' = shutdown_flag s \<and>
    tasks s' = tasks s @ (if enable_compaction fcfg \<and> runtime_running env then [(fcfg, False)] else [])"
proof -
  obtain r fs1 where p: "prepare d sa cfg fs = (r, fs1)" by fastforce
  have "config_validate (ft d) cfg = Inr ()" "global s = None"
    using assms(3) by (auto simp: init_def split: sum.splits prod.splits option.splits)
  moreover have "fjall_backend (ft d)"
    using calculation(1) assms(4) by (auto simp: config_validate_def split: if_splits)
  moreover from calculation obtain h opened where h: "r = Inr (h, opened)"
    using assms(3) by (auto simp: init_prepare p split: sum.splits prod.splits)
  moreover note prep = prepare_handle [OF p [unfolded h]]
  ultimately obtain q where q: "opened = Some q" using assms(4) by auto
  note iw = init_writer_cases [OF p [unfolded h], unfolded q, simplified]
  have run: "init_writer d env cfg h (Some q) (s\<lparr>global := Some h\<rparr>) = (Inr (), s')" "fs1 = fs'"
    using assms(3) \<open>global s = None\<close> by (auto simp: init_prepare p h q split: prod.splits)
  then have spawn: "spawn_error env = None" by (auto simp: iw split: option.splits)
  have cv: "cv (mpsc_channel (chan d) n) = \<lparr>queue = [], capacity = n, rx_open = True, tx_open = True\<rparr>" for n
    by (rule chan_specD(1) [OF assms(2)])
  let ?s = "s\<lparr>global := Some h, writer_thr := Some \<lparr>wt_rows = batch_rows fcfg, wt_seq = 0, wt_exited = False\<rparr>,
    writer_join := (writer_join s)\<lparr>guarded := Some ()\<rparr>\<rparr>"
  have s': "s' = try_spawn_compaction (runtime_running env) cfg ?s"
    using run(1) assms(4,5) by (simp add: iw spawn)
  have "global s' = Some h" "handle_inv pv h 0" "eh_has_fjall h"
    "open_handles sa fcfg fs = (Inr q, fs')"
    using s' prep q prepare_registry [OF assms(1) p [unfolded h]]
      prepare_opened [OF p [unfolded h q] assms(4)] run(2) by simp_all
  moreover have "pipeline cv d q (channel_capacity cfg) [] [] s'"
    using prep q by (simp add: pipeline_def s' cv)
  moreover have "tasks s' = tasks s @ (if enable_compaction fcfg \<and> runtime_running env then [(fcfg, False)] else [])"
    using prep q assms(6) by (simp add: s' try_spawn_compaction_def assms(4) spawn_compaction_task_def Let_def)
  moreover have "writer_join s' = \<lparr>guarded = Some (), poisoned = False\<rparr>" "shutdown_flag s' = shutdown_flag s"
    using assms(5) by (cases "writer_join s"; simp add: s')+
  ultimately show ?thesis by (intro exI [of _ q] exI [of _ h]) simp
qed

section \<open>Properties of starting\<close>

text \<open>
  C23: a first \<open>init\<close> with a store that returns Ok leaves the engine running: the store
  \<open>open_handles\<close> opened, an empty queue of the configured capacity, a writer thread at
  sequence number 0 that can be joined, both drop counters at 0, and one compaction
  loop exactly when compaction is enabled and a runtime is running.
\<close>

theorem init_starts_pipeline:
  assumes "prom_spec pv ok (prom d)" and "chan_spec cv (chan d)"
    and "init d sa env cfg (s, fs) = (Inr (), s', fs')" and "fjall cfg = Some fcfg"
    and "\<not> poisoned (writer_join s)" and "\<not> poisoned (compaction_task s)"
  shows "\<exists>p h. open_handles sa fcfg fs = (Inr p, fs') \<and>
    pipeline cv d p (channel_capacity cfg) [] [] s' \<and>
    global s' = Some h \<and> handle_inv pv h 0 \<and> eh_has_fjall h \<and>
    writer_join s' = \<lparr>guarded = Some (), poisoned = False\<rparr> \<and> shutdown_flag s' = shutdown_flag s \<and>
    tasks s' = tasks s @ (if enable_compaction fcfg \<and> runtime_running env then [(fcfg, False)] else [])"
  using assms by (rule init_running)

theorem init_starts_pipeline_witness:
  "\<exists>s' h. init demo_deps demo_storage \<lparr>spawn_error = None, runtime_running = True\<rparr> demo_config (process_start, [])
      = (Inr (), s', [[], [Normal (lit ''data'')]]) \<and>
    pipeline id demo_deps store_empty 16384 [] [] s' \<and> global s' = Some h \<and> handle_inv ref_view h 0 \<and>
    tasks s' = [(fjall_config_new [Normal (lit ''data'')], False)]"
proof -
  obtain s' where s': "init demo_deps demo_storage \<lparr>spawn_error = None, runtime_running = True\<rparr> demo_config
    (process_start, []) = (Inr (), s', [[], [Normal (lit ''data'')]])" using init_demo by blast
  have specs: "prom_spec ref_view ref_ok (prom demo_deps)" "chan_spec id (chan demo_deps)"
    by (simp_all add: ref_prom_spec ref_chan_spec)
  have "\<not> poisoned (writer_join process_start)" "\<not> poisoned (compaction_task process_start)"
    by (simp_all add: process_start_def lock_new_def)
  from init_starts_pipeline [OF specs s' demo_config_simps(2) this]
  have "\<exists>h. pipeline id demo_deps store_empty 16384 [] [] s' \<and> global s' = Some h \<and> handle_inv ref_view h 0 \<and>
    tasks s' = [(fjall_config_new [Normal (lit ''data'')], False)]"
    by (auto simp: open_demo demo_config_simps process_start_def)
  then show ?thesis using s' by blast
qed

text \<open>
  C35: a failing \<open>init\<close> leaves the process as it was, so it can be called again,
  except when the writer thread cannot be spawned: then \<open>GLOBAL\<close> is already set.
\<close>

theorem init_failure_is_retryable:
  assumes "init d sa env cfg (s, fs) = (Inl e, s', fs')" and "spawn_error env = None"
  shows "s' = s"
proof (cases "fst (prepare d sa cfg fs)")
  case (Inl x)
  with assms(1) show ?thesis by (auto simp: init_prepare split: prod.splits)
next
  case (Inr y)
  then obtain h opened fs1 where p: "prepare d sa cfg fs = (Inr (h, opened), fs1)"
    by (metis prod.collapse)
  show ?thesis
    using assms by (auto simp: init_prepare p init_writer_cases [OF p] split: option.splits)
qed

theorem init_failure_is_retryable_witness:
  "fst (snd (init demo_deps demo_storage \<lparr>spawn_error = None, runtime_running = True\<rparr>
     config_derived_default (process_start, []))) = process_start"
proof -
  have "init demo_deps demo_storage \<lparr>spawn_error = None, runtime_running = True\<rparr>
     config_derived_default (process_start, [])
     = (Inl (InvalidConfig (lit ''channel_capacity must be >= 16'')), process_start, [])"
    by (simp add: init_def config_validate_def config_derived_default_def)
  from init_failure_is_retryable [OF this] this show ?thesis by simp
qed

text \<open>
  C36: when the operating system refuses the writer thread, \<open>init\<close> returns an error
  although the engine is published, reports a store, and has lost its receiver: it cannot
  be initialised again, and every sample for the store is dropped.
\<close>

theorem init_spawn_failure:
  assumes "prom_spec pv ok (prom d)" and "chan_spec cv (chan d)"
    and "config_validate (ft d) cfg = Inr ()" and "fjall_backend (ft d)" and "fjall cfg = Some fcfg"
    and "open_handles sa fcfg fs = (Inr p, fs')"
    and "global s = None" and "spawn_error env = Some e"
  shows "\<exists>h c. init d sa env cfg (s, fs) =
      (Inl (Storage (lit ''spawn writer thread: '' @ e)), s\<lparr>global := Some h\<rparr>, fs') \<and>
    eh_has_fjall h \<and> tx h = Some c \<and> fst (send_view m (cv c)) = Inl Closed"
proof -
  let ?h = "projr (engine_handle_new d cfg)\<lparr>eh_fjall := Some p, eh_has_fjall := True\<rparr>"
  let ?c = "drop_receiver (chan d) (mpsc_channel (chan d) (channel_capacity cfg))"
  have p: "prepare d sa cfg fs = (Inr (?h, Some p), fs')"
    by (simp add: prepare_opens [OF assms(1,3,4,5)] assms(6))
  have "init d sa env cfg (s, fs) = (Inl (Storage (lit ''spawn writer thread: '' @ e)),
      s\<lparr>global := Some (?h\<lparr>tx := Some ?c\<rparr>)\<rparr>, fs')"
    using assms(7,8) by (simp add: init_prepare p init_writer_cases [OF p])
  moreover have "fst (send_view m (cv ?c)) = Inl Closed"
    using chan_specD(5) [OF assms(2)] by (simp add: send_view_def)
  ultimately show ?thesis by (intro exI [of _ "?h\<lparr>tx := Some ?c\<rparr>"] exI [of _ ?c]) simp
qed

theorem init_spawn_failure_witness:
  "\<exists>h c. init demo_deps demo_storage \<lparr>spawn_error = Some (lit ''EAGAIN''), runtime_running = False\<rparr>
      demo_config (process_start, []) =
      (Inl (Storage (lit ''spawn writer thread: EAGAIN'')), process_start\<lparr>global := Some h\<rparr>,
       [[], [Normal (lit ''data'')]]) \<and>
    eh_has_fjall h \<and> tx h = Some c \<and> fst (send_view Shutdown c) = Inl Closed"
proof -
  have specs: "prom_spec ref_view ref_ok (prom demo_deps)" "chan_spec id (chan demo_deps)"
    "config_validate (ft demo_deps) demo_config = Inr ()" "fjall_backend (ft demo_deps)"
    by (simp_all add: ref_prom_spec ref_chan_spec demo_config_simps)
  have l: "lit ''spawn writer thread: '' @ lit ''EAGAIN'' = lit ''spawn writer thread: EAGAIN''"
    by (simp add: lit_def)
  have o: "open_handles demo_storage (fjall_config_new [Normal (lit ''data'')]) [] =
      (Inr store_empty, [[], [Normal (lit ''data'')]])"
    by (simp add: open_demo cold_dir_def fjall_config_new_def fjall_config_default_def path_parent_def)
  have g: "global process_start = None" by (simp add: process_start_def)
  show ?thesis
    using init_spawn_failure [OF specs demo_config_simps(2) o g,
        of "\<lparr>spawn_error = Some (lit ''EAGAIN''), runtime_running = False\<rparr>" "lit ''EAGAIN''" Shutdown]
    by (simp add: l)
qed

text \<open>
  A second \<open>init\<close> never changes the running engine, but it opens the store again
  before it finds the engine set: it returns \<open>AlreadyInitialized\<close> only when that
  second opening succeeds, and otherwise the error of the opening.
\<close>

lemma init_again:
  assumes "prom_spec pv ok (prom d)" and "config_validate (ft d) cfg = Inr ()"
    and "fjall_backend (ft d)" and "fjall cfg = Some fcfg" and "global s = Some h"
  shows "init d sa env cfg (s, fs) =
    (case open_handles sa fcfg fs of
       (Inl e, fs') \<Rightarrow> (Inl e, s, fs')
     | (Inr p, fs') \<Rightarrow> (Inl AlreadyInitialized, s, fs'))"
  using assms(5) by (simp add: init_prepare prepare_opens [OF assms(1-4)] split: prod.split sum.split)

lemma init_again_witness:
  "\<exists>s'. init demo_deps demo_storage \<lparr>spawn_error = None, runtime_running = True\<rparr> demo_config (process_start, [])
      = (Inr (), s', [[], [Normal (lit ''data'')]]) \<and>
    init demo_deps demo_storage \<lparr>spawn_error = None, runtime_running = True\<rparr> demo_config (s', [])
      = (Inl AlreadyInitialized, s', [[], [Normal (lit ''data'')]])"
proof -
  obtain s' where s': "init demo_deps demo_storage \<lparr>spawn_error = None, runtime_running = True\<rparr> demo_config
    (process_start, []) = (Inr (), s', [[], [Normal (lit ''data'')]])" using init_demo by blast
  have specs: "prom_spec ref_view ref_ok (prom demo_deps)" "chan_spec id (chan demo_deps)"
    "config_validate (ft demo_deps) demo_config = Inr ()" "fjall_backend (ft demo_deps)"
    by (simp_all add: ref_prom_spec ref_chan_spec demo_config_simps)
  have "\<not> poisoned (writer_join process_start)" "\<not> poisoned (compaction_task process_start)"
    by (simp_all add: process_start_def lock_new_def)
  from init_running [OF specs(1,2) s' demo_config_simps(2) this]
  obtain h where "global s' = Some h" by blast
  from init_again [OF specs(1,3,4) demo_config_simps(2) this, of demo_storage _ "[]"] s' show ?thesis
    by (simp add: open_demo cold_dir_def fjall_config_new_def fjall_config_default_def path_parent_def)
qed

text \<open>
  C37: starting compaction twice, for instance by \<open>init\<close> inside a runtime and then by
  a call of \<open>spawn_compaction_task\<close>, leaves two loops running, and \<open>shutdown\<close>
  aborts only the second: replacing the first task's handle detaches that task.
\<close>

theorem second_compaction_task_leaks:
  assumes "spawn_compaction_task rt cfg s = (True, s1)"
    and "spawn_compaction_task rt' cfg' s1 = (True, s2)"
  shows "tasks (abort_compaction s2) = tasks s @ [(cfg, False), (cfg', True)]"
proof -
  have s1: "tasks s1 = tasks s @ [(cfg, False)]"
    using assms(1) by (auto simp: spawn_compaction_task_def Let_def split: option.splits if_splits)
  then have "tasks s2 = tasks s @ [(cfg, False), (cfg', False)]"
    "compaction_task s2 = (compaction_task s1)\<lparr>guarded := Some (Suc (length (tasks s)))\<rparr>"
    "\<not> poisoned (compaction_task s1)"
    using assms(2) by (auto simp: spawn_compaction_task_def Let_def split: option.splits if_splits)
  then show ?thesis by (simp add: abort_compaction_def list_update_append nth_append)
qed

theorem second_compaction_task_leaks_witness:
  "\<exists>c. let s = process_start\<lparr>global := Some \<lparr>tx = None :: chan_view option, eh_registry = None :: (ref_world, nat) prom_registry option,
       eh_fjall = Some store_empty, dropped_total = 0, eh_has_fjall = True\<rparr>\<rparr>;
       s2 = snd (spawn_compaction_task True c (snd (spawn_compaction_task True c s)))
     in tasks (abort_compaction s2) = [(c, False), (c, True)]"
proof -
  let ?c = "fjall_config_new []"
  let ?s = "process_start\<lparr>global := Some \<lparr>tx = None :: chan_view option, eh_registry = None :: (ref_world, nat) prom_registry option,
       eh_fjall = Some store_empty, dropped_total = 0, eh_has_fjall = True\<rparr>\<rparr>"
  let ?s1 = "snd (spawn_compaction_task True ?c ?s)"
  let ?s2 = "snd (spawn_compaction_task True ?c ?s1)"
  have "spawn_compaction_task True ?c ?s = (True, ?s1)" "spawn_compaction_task True ?c ?s1 = (True, ?s2)"
    by (simp_all add: spawn_compaction_task_def process_start_def lock_new_def Let_def)
  from second_compaction_task_leaks [OF this]
  have "tasks (abort_compaction ?s2) = [(?c, False), (?c, True)]" by (simp add: process_start_def)
  then show ?thesis by (intro exI [of _ ?c]) (simp add: Let_def)
qed

end
