(* ===== verification/Pipeline.thy ===== *)
theory Pipeline
  imports Lifecycle "HOL-Library.Sublist"
begin

text \<open>
  The running engine as a state machine, and its end: records of any thread and turns of
  the writer interleave (\<open>pipe_reach\<close>), then \<open>shutdown\<close> delivers the sentinel, joins
  the writer and makes the store durable. A record and a turn are one step each here;
  \<open>Threads\<close> divides them. The lemmas carry one invariant, that what was
  accepted is the stored samples followed by the queued ones, from \<open>init\<close> to the end.
\<close>

section \<open>Interleavings\<close>

text \<open>
  \<open>pipe_reach d s0 es k s\<close>: from \<open>s0\<close> the entries \<open>es\<close> were recorded in this
  order, \<open>k\<close> of the calls panicked, with turns of the writer in between.
\<close>

inductive pipe_reach ::
  "('pw, 'h, 'c, 'p) deps \<Rightarrow> ('pw, 'h, 'c, 'p) process \<Rightarrow> metric_entry list \<Rightarrow> nat
     \<Rightarrow> ('pw, 'h, 'c, 'p) process \<Rightarrow> bool"
  for d s0
where
  start: "pipe_reach d s0 [] 0 s0"
| recorded: "pipe_reach d s0 es k s \<Longrightarrow> global_record d e s = (Ret (), s') \<Longrightarrow>
    pipe_reach d s0 (es @ [e]) k s'"
| panicked: "pipe_reach d s0 es k s \<Longrightarrow> global_record d e s = (Panicked p, s') \<Longrightarrow>
    pipe_reach d s0 (es @ [e]) (Suc k) s'"
| writer: "pipe_reach d s0 es k s \<Longrightarrow> pipe_reach d s0 es k (writer_step d s)"

text \<open>What a step of the writer or of \<open>shutdown\<close> leaves alone.\<close>

definition same_rest :: "('pw, 'h, 'c, 'p) process \<Rightarrow> ('pw, 'h, 'c, 'p) process \<Rightarrow> bool" where
  "same_rest s s' \<longleftrightarrow>
     shutdown_flag s' = shutdown_flag s \<and> writer_join s' = writer_join s \<and>
     compaction_task s' = compaction_task s \<and> tasks s' = tasks s \<and>
     map_option eh_registry (global s') = map_option eh_registry (global s) \<and>
     map_option dropped_total (global s') = map_option dropped_total (global s)"

lemma same_rest_refl [simp]: "same_rest s s"
  by (simp add: same_rest_def)

lemma same_rest_trans: "same_rest s s' \<Longrightarrow> same_rest s' s'' \<Longrightarrow> same_rest s s''"
  by (simp add: same_rest_def)

lemma same_rest_put [simp]: "same_rest s (put_writer status w s)"
  by (simp add: same_rest_def put_writer_def option.map_comp comp_def)

lemma same_rest_set_tx [simp]: "same_rest s (set_tx c s)"
  by (simp add: same_rest_def set_tx_def option.map_comp comp_def)

lemma same_rest_writer_step [simp]: "same_rest s (writer_step d s)"
  by (auto simp: writer_step_def split: option.split prod.split)

lemma same_rest_handle:
  assumes "same_rest s s'" "global s = Some h" "handle_inv pv h n"
  shows "\<exists>h'. global s' = Some h' \<and> handle_inv pv h' n"
  using assms by (cases "global s'") (auto simp: same_rest_def handle_inv_def)

lemma flush_more:
  "flush_batch jn fl es (fst (flush_batch jn fl stored p0 0)) (of_nat (length stored)) =
     flush_batch jn fl (stored @ es) p0 0"
  using flush_batch_seq [of jn fl stored p0 0] by (simp add: flush_batch_append split_beta)

text \<open>The writer's view of a running engine.\<close>

lemma pipeline_writer:
  assumes "pipeline cv d p0 cap stored msgs s"
  shows "\<exists>t c. writer_of s = Some (t, \<lparr>w_rx = c,
      w_part = fst (flush_batch (js d) (fj d) stored p0 0), w_seq = of_nat (length stored)\<rparr>) \<and>
    cv c = \<lparr>queue = msgs, capacity = cap, rx_open = True, tx_open = True\<rparr> \<and> length msgs \<le> cap"
  using assms by (auto simp: pipeline_def writer_of_def)

lemma pipeline_put:
  assumes "pipeline cv d p0 cap stored msgs s" "status \<noteq> Exited"
    and "cv (w_rx w) = \<lparr>queue = msgs', capacity = cap, rx_open = True, tx_open = True\<rparr>"
    and "length msgs' \<le> cap" "w_part w = fst (flush_batch (js d) (fj d) stored' p0 0)"
    and "w_seq w = of_nat (length stored')"
  shows "pipeline cv d p0 cap stored' msgs' (put_writer status w s)"
  using assms by (auto simp: pipeline_def put_writer_def)

lemma pipeline_set_tx:
  assumes "pipeline cv d p0 cap stored msgs s"
    and "cv c = \<lparr>queue = msgs', capacity = cap, rx_open = True, tx_open = True\<rparr>" "length msgs' \<le> cap"
  shows "pipeline cv d p0 cap stored msgs' (set_tx c s)"
  using assms by (auto simp: pipeline_def set_tx_def)

lemma writer_step_pipeline:
  assumes spec: "chan_spec cv (chan d)" and pipe: "pipeline cv d p0 cap stored (map Metric queued) s"
  shows "\<exists>n. pipeline cv d p0 cap (stored @ take n queued) (map Metric (drop n queued)) (writer_step d s) \<and>
    (queued \<noteq> [] \<longrightarrow> 0 < n)"
proof -
  let ?p = "fst (flush_batch (js d) (fj d) stored p0 0)"
  obtain t c where w: "writer_of s = Some (t, \<lparr>w_rx = c, w_part = ?p, w_seq = of_nat (length stored)\<rparr>)"
    "cv c = \<lparr>queue = map Metric queued, capacity = cap, rx_open = True, tx_open = True\<rparr>"
    "length queued \<le> cap" using pipeline_writer [OF pipe] by auto
  let ?w = "\<lparr>w_rx = c, w_part = ?p, w_seq = of_nat (length stored)\<rparr>"
  show ?thesis
  proof (cases queued)
    case Nil
    obtain c' where "writer_turn (js d) (fj d) (chan d) (wt_rows t) ?w = (Parked, ?w\<lparr>w_rx := c'\<rparr>)" "cv c' = cv c"
      using writer_turn_parks [OF spec, of ?w "js d" "fj d" "wt_rows t"] w(2) Nil by auto
    then have "pipeline cv d p0 cap stored [] (writer_step d s)"
      using w Nil pipe by (auto simp: writer_step_def intro!: pipeline_put)
    then show ?thesis using Nil by (intro exI [of _ 0]) simp
  next
    case (Cons e es)
    let ?n = "Suc (wt_rows t - 1)"
    obtain c' where "writer_turn (js d) (fj d) (chan d) (wt_rows t) ?w = (Looping, ?w\<lparr>w_rx := c',
        w_part := fst (flush_batch (js d) (fj d) (take ?n queued) ?p (of_nat (length stored))),
        w_seq := snd (flush_batch (js d) (fj d) (take ?n queued) ?p (of_nat (length stored)))\<rparr>)"
      "cv c' = (cv c)\<lparr>queue := map Metric (drop ?n queued)\<rparr>"
      using writer_turn_batch [OF spec, of "[]" ?w e es "wt_rows t" "js d" "fj d"] w(2) Cons
      by (auto simp: stop_here_def)
    then have "pipeline cv d p0 cap (stored @ take ?n queued) (map Metric (drop ?n queued)) (writer_step d s)"
      using w pipe
      by (auto simp: writer_step_def flush_more flush_batch_seq intro!: pipeline_put)
    then show ?thesis by blast
  qed
qed

section \<open>Conservation\<close>

text \<open>
  The invariant of the running engine: every recorded entry was stored, is queued, was
  dropped and counted, or its call panicked.
\<close>

definition accounted ::
  "('pw \<Rightarrow> 'h prom_view) \<Rightarrow> ('c \<Rightarrow> chan_view) \<Rightarrow> ('pw, 'h, 'c, 'p) deps \<Rightarrow> 'p \<Rightarrow> nat
     \<Rightarrow> metric_entry list \<Rightarrow> nat \<Rightarrow> metric_entry list \<Rightarrow> metric_entry list \<Rightarrow> nat
     \<Rightarrow> ('pw, 'h, 'c, 'p) process \<Rightarrow> bool" where
  "accounted pv cv d p0 cap es k stored queued n s \<longleftrightarrow>
     pipeline cv d p0 cap stored (map Metric queued) s \<and>
     (\<exists>h. global s = Some h \<and> handle_inv pv h n) \<and> \<not> shutdown_flag s \<and>
     subseq (stored @ queued) es \<and> length es = length stored + length queued + n + k"

lemma pipeline_replace:
  assumes "pipeline cv d p0 cap stored msgs s" "global s = Some h" "eh_fjall h' = eh_fjall h"
    and "tx h' = Some c'"
    and "cv c' = \<lparr>queue = msgs', capacity = cap, rx_open = True, tx_open = True\<rparr>" "length msgs' \<le> cap"
  shows "pipeline cv d p0 cap stored msgs' (s\<lparr>global := Some h'\<rparr>)"
  using assms by (auto simp: pipeline_def)

lemma pipeline_tx:
  assumes "pipeline cv d p0 cap stored msgs s" "global s = Some h"
  shows "\<exists>c. tx h = Some c \<and> cv c = \<lparr>queue = msgs, capacity = cap, rx_open = True, tx_open = True\<rparr> \<and>
    length msgs \<le> cap"
  using assms by (auto simp: pipeline_def)

lemma subseq_snoc: "subseq xs ys \<Longrightarrow> subseq xs (ys @ [y])"
  by (rule subseq_order.trans [of _ ys]) auto

lemma record_accounted:
  assumes spec: "prom_spec pv ok (prom d)" "chan_spec cv (chan d)"
    and acc: "accounted pv cv d p0 cap es k stored queued n s"
    and adm: "admissible (metric_kind e) (sample e)" and rec: "global_record d e s = (res, s')"
  shows "case res of
      Panicked p \<Rightarrow> accounted pv cv d p0 cap (es @ [e]) (Suc k) stored queued n s'
    | Ret u \<Rightarrow> if length queued < cap
        then accounted pv cv d p0 cap (es @ [e]) k stored (queued @ [e]) n s'
        else accounted pv cv d p0 cap (es @ [e]) k stored queued (Suc n) s'"
proof -
  from acc obtain h where pipe: "pipeline cv d p0 cap stored (map Metric queued) s"
    and h: "global s = Some h" "handle_inv pv h n" and flag: "\<not> shutdown_flag s"
    and sub: "subseq (stored @ queued) es" and len: "length es = length stored + length queued + n + k"
    unfolding accounted_def by blast
  obtain c where c: "tx h = Some c"
    "cv c = \<lparr>queue = map Metric queued, capacity = cap, rx_open = True, tx_open = True\<rparr>"
    "length queued \<le> cap" using pipeline_tx [OF pipe h(1)] by auto
  from engine_record_spec [OF spec h(2) adm c(1)] obtain h' c' where
    er: "engine_record d False e h = (fst (abs_observe ok e (abs_of pv h)), h')"
    and tx: "tx h' = Some c'" "eh_fjall h' = eh_fjall h"
    and eff: "if fst (abs_observe ok e (abs_of pv h)) \<noteq> Ret () then cv c' = cv c \<and> handle_inv pv h' n
     else cv c' = snd (send_view (Metric e) (cv c)) \<and>
       handle_inv pv h' (if fst (send_view (Metric e) (cv c)) = Inr () then n else Suc n)" by blast
  have s': "s' = s\<lparr>global := Some h'\<rparr>" "res = fst (abs_observe ok e (abs_of pv h))"
    using rec er flag by (auto simp: global_record_def h(1))
  note pl = pipeline_replace [OF pipe h(1) tx(2,1), folded s'(1)]
  have sub2: "subseq (stored @ queued @ [e]) (es @ [e])" using sub by (simp flip: append_assoc)
  show ?thesis
  proof (cases res)
    case (Panicked p)
    then have "cv c' = cv c \<and> handle_inv pv h' n" using eff s'(2) by auto
    then show ?thesis using Panicked c flag sub subseq_snoc [OF sub, of e] len pl [of "map Metric queued"]
      by (simp add: accounted_def s'(1))
  next
    case (Ret u)
    then have v: "cv c' = snd (send_view (Metric e) (cv c))"
      "handle_inv pv h' (if fst (send_view (Metric e) (cv c)) = Inr () then n else Suc n)"
      using eff s'(2) by auto
    show ?thesis
    proof (cases "length queued < cap")
      case True
      then show ?thesis using Ret v c flag sub2 len pl [of "map Metric (queued @ [e])"]
        by (simp add: accounted_def s'(1) send_view_def)
    next
      case False
      then show ?thesis using Ret v c flag subseq_snoc [OF sub, of e] len pl [of "map Metric queued"]
        by (simp add: accounted_def s'(1) send_view_def)
    qed
  qed
qed

lemma writer_accounted:
  assumes spec: "chan_spec cv (chan d)"
    and acc: "accounted pv cv d p0 cap es k stored queued n s"
  shows "\<exists>m. accounted pv cv d p0 cap es k (stored @ take m queued) (drop m queued) n (writer_step d s)"
proof -
  from acc have pipe: "pipeline cv d p0 cap stored (map Metric queued) s" unfolding accounted_def by blast
  from writer_step_pipeline [OF spec this] obtain m where
    "pipeline cv d p0 cap (stored @ take m queued) (map Metric (drop m queued)) (writer_step d s)" by blast
  moreover have "\<exists>h. global (writer_step d s) = Some h \<and> handle_inv pv h n"
    using acc same_rest_handle [OF same_rest_writer_step] unfolding accounted_def by blast
  moreover have "\<not> shutdown_flag (writer_step d s)"
    using acc same_rest_writer_step [of s d] by (simp add: accounted_def same_rest_def)
  ultimately show ?thesis using acc by (intro exI [of _ m]) (auto simp: accounted_def)
qed

lemma reach_accounted:
  assumes spec: "prom_spec pv ok (prom d)" "chan_spec cv (chan d)"
    and start: "accounted pv cv d p0 cap [] 0 [] [] 0 s0"
  shows "pipe_reach d s0 es k s \<Longrightarrow> list_all (\<lambda>e. admissible (metric_kind e) (sample e)) es \<Longrightarrow>
    \<exists>stored queued n. accounted pv cv d p0 cap es k stored queued n s"
proof (induction rule: pipe_reach.induct)
  case start
  then show ?case using assms(3) by blast
next
  case (recorded es k s e s')
  then obtain stored queued n where "accounted pv cv d p0 cap es k stored queued n s" by auto
  from record_accounted [OF spec this _ recorded.hyps(2)] recorded.prems show ?case
    by (auto split: if_splits)
next
  case (panicked es k s e p s')
  then obtain stored queued n where "accounted pv cv d p0 cap es k stored queued n s" by auto
  from record_accounted [OF spec this _ panicked.hyps(2)] panicked.prems show ?case by auto
next
  case (writer es k s)
  then show ?case using writer_accounted [OF spec(2)] by blast
qed

section \<open>Delivering the sentinel\<close>

text \<open>A schedule in which only the writer runs, and whether it gets a turn in time.\<close>

definition only_writer :: "env_step list list \<Rightarrow> bool" where
  "only_writer sched \<longleftrightarrow> (\<forall>es \<in> set sched. \<forall>x \<in> set es. x = WriterTurn)"

definition progress :: "nat \<Rightarrow> env_step list list \<Rightarrow> bool" where
  "progress n sched \<longleftrightarrow> (\<exists>es \<in> set (take n sched). es \<noteq> [])"

lemma same_rest_env_run: "\<forall>x \<in> set es. x = WriterTurn \<Longrightarrow> same_rest s (env_run d es s)"
proof (induction es arbitrary: s)
  case (Cons x es)
  then show ?case by (auto intro: same_rest_trans [OF same_rest_writer_step])
qed simp

lemma take_drop_add:
  "(xs @ take m q) @ take n (drop m q) = xs @ take (m + n) q"
  "drop n (drop m q) = drop (m + n) q"
  by (simp add: take_add) (simp add: add.commute)

lemma env_run_pipeline:
  assumes spec: "chan_spec cv (chan d)"
  shows "\<forall>x \<in> set es. x = WriterTurn \<Longrightarrow> pipeline cv d p0 cap stored (map Metric queued) s \<Longrightarrow>
    \<exists>m. pipeline cv d p0 cap (stored @ take m queued) (map Metric (drop m queued)) (env_run d es s) \<and>
      (es \<noteq> [] \<and> queued \<noteq> [] \<longrightarrow> 0 < m)"
proof (induction es arbitrary: s stored queued)
  case Nil
  then show ?case by (intro exI [of _ 0]) simp
next
  case (Cons x es)
  obtain m where m: "pipeline cv d p0 cap (stored @ take m queued) (map Metric (drop m queued)) (writer_step d s)"
    "queued \<noteq> [] \<longrightarrow> 0 < m" using writer_step_pipeline [OF spec Cons.prems(2)] by blast
  from Cons.IH [OF _ m(1)] Cons.prems(1) obtain m' where
    "pipeline cv d p0 cap ((stored @ take m queued) @ take m' (drop m queued))
       (map Metric (drop m' (drop m queued))) (env_run d es (writer_step d s))" by auto
  then have "pipeline cv d p0 cap (stored @ take (m + m') queued) (map Metric (drop (m + m') queued))
      (env_run d es (writer_step d s))" unfolding take_drop_add .
  then show ?case using m(2) Cons.prems(1) by (intro exI [of _ "m + m'"]) simp
qed

lemma deliver_room:
  assumes spec: "chan_spec cv (chan d)" and pipe: "pipeline cv d p0 cap stored (map Metric queued) s"
    and "length queued < cap"
  shows "pipeline cv d p0 cap stored (map Metric queued @ [Shutdown]) (deliver (Suc n) d sched s) \<and>
    same_rest s (deliver (Suc n) d sched s)"
proof -
  obtain h where h: "global s = Some h" using pipe by (auto simp: pipeline_def)
  obtain c where c: "tx h = Some c"
    "cv c = \<lparr>queue = map Metric queued, capacity = cap, rx_open = True, tx_open = True\<rparr>"
    using pipeline_tx [OF pipe h] by blast
  obtain r c' where r: "try_send (chan d) c Shutdown = (r, c')" by fastforce
  from chan_specD(2) [OF spec r] c(2) assms(3) have "r = Inr ()"
    "cv c' = \<lparr>queue = map Metric queued @ [Shutdown], capacity = cap, rx_open = True, tx_open = True\<rparr>"
    by (simp_all add: send_view_def)
  then show ?thesis using r h c(1) assms(3) by (auto intro!: pipeline_set_tx [OF pipe])
qed

lemma deliver_full:
  assumes spec: "chan_spec cv (chan d)" and pipe: "pipeline cv d p0 cap stored (map Metric queued) s"
    and "length queued = cap"
  shows "\<exists>c'. pipeline cv d p0 cap stored (map Metric queued) (set_tx c' s) \<and>
    deliver (Suc n) d sched s = (case sched of
      [] \<Rightarrow> deliver n d [] (set_tx c' s)
    | es # sched' \<Rightarrow> deliver n d sched' (env_run d es (set_tx c' s)))"
proof -
  obtain h where h: "global s = Some h" using pipe by (auto simp: pipeline_def)
  obtain c where c: "tx h = Some c"
    "cv c = \<lparr>queue = map Metric queued, capacity = cap, rx_open = True, tx_open = True\<rparr>"
    using pipeline_tx [OF pipe h] by blast
  obtain r c' where r: "try_send (chan d) c Shutdown = (r, c')" by fastforce
  from chan_specD(2) [OF spec r] c(2) assms(3) have v: "r = Inl Full" "cv c' = cv c"
    by (simp_all add: send_view_def)
  then have "pipeline cv d p0 cap stored (map Metric queued) (set_tx c' s)"
    using c(2) assms(3) by (intro pipeline_set_tx [OF pipe]) simp_all
  then show ?thesis using r v h c(1) by (intro exI [of _ c']) simp
qed

lemma deliver_spec:
  assumes spec: "chan_spec cv (chan d)" and cap: "0 < cap"
  shows "only_writer sched \<Longrightarrow> pipeline cv d p0 cap stored (map Metric queued) s \<Longrightarrow>
    \<exists>m. pipeline cv d p0 cap (stored @ take m queued)
        (map Metric (drop m queued) @
          (if 0 < n \<and> (length queued < cap \<or> progress (n - 1) sched) then [Shutdown] else []))
        (deliver n d sched s) \<and> same_rest s (deliver n d sched s)"
proof (induction n arbitrary: sched s stored queued)
  case 0
  then show ?case by (intro exI [of _ 0]) simp
next
  case (Suc n)
  show ?case
  proof (cases "length queued < cap")
    case True
    with deliver_room [OF spec Suc.prems(2)] show ?thesis by (intro exI [of _ 0]) simp
  next
    case False
    then have full: "length queued = cap" using Suc.prems(2) by (auto simp: pipeline_def)
    obtain c' where c': "pipeline cv d p0 cap stored (map Metric queued) (set_tx c' s)"
      "deliver (Suc n) d sched s = (case sched of
        [] \<Rightarrow> deliver n d [] (set_tx c' s)
      | es # sched' \<Rightarrow> deliver n d sched' (env_run d es (set_tx c' s)))"
      using deliver_full [OF spec Suc.prems(2) full] by blast
    show ?thesis
    proof (cases sched)
      case Nil
      have "only_writer []" by (simp add: only_writer_def)
      from Suc.IH [OF this c'(1)] full show ?thesis
        using c'(2) Nil same_rest_trans [OF same_rest_set_tx] by (auto simp: progress_def)
    next
      case (Cons es sched')
      have w: "\<forall>x \<in> set es. x = WriterTurn" "only_writer sched'"
        using Suc.prems(1) Cons by (auto simp: only_writer_def)
      obtain m where m: "pipeline cv d p0 cap (stored @ take m queued) (map Metric (drop m queued))
          (env_run d es (set_tx c' s))" "es \<noteq> [] \<and> queued \<noteq> [] \<longrightarrow> 0 < m"
        using env_run_pipeline [OF spec w(1) c'(1)] by blast
      have empty: "es = [] \<Longrightarrow> env_run d es (set_tx c' s) = set_tx c' s" by simp
      obtain m' where m': "pipeline cv d p0 cap ((stored @ take m queued) @ take m' (drop m queued))
          (map Metric (drop m' (drop m queued)) @
            (if 0 < n \<and> (length (drop m queued) < cap \<or> progress (n - 1) sched') then [Shutdown] else []))
          (deliver n d sched' (env_run d es (set_tx c' s)))"
        "same_rest (env_run d es (set_tx c' s)) (deliver n d sched' (env_run d es (set_tx c' s)))"
        using Suc.IH [OF w(2) m(1)] by blast
      have sr: "same_rest s (deliver (Suc n) d sched s)"
        using m'(2) same_rest_env_run [OF w(1)] c'(2) Cons same_rest_trans same_rest_set_tx
        by (metis list.simps(5))
      have q: "queued \<noteq> []" using full cap by auto
      show ?thesis
      proof (cases "es = []")
        case True
        from Suc.IH [OF w(2) c'(1)] True full sr show ?thesis
          using c'(2) Cons by (cases n) (auto simp: progress_def)
      next
        case False
        then have "length (drop m queued) < cap" using m(2) q full cap by simp
        then show ?thesis
          using m'(1) sr c'(2) Cons False full unfolding take_drop_add
          by (intro exI [of _ "m + m'"]) (cases n; simp add: progress_def)
      qed
    qed
  qed
qed

section \<open>Joining and the final barrier\<close>

lemma join_pipeline:
  assumes spec: "chan_spec cv (chan d)" and stop: "stop_here ms"
    and pipe: "pipeline cv d p0 cap stored (map Metric queued @ ms) s" and fuel: "length queued < fuel"
  shows "\<exists>s' h. join_writer fuel d s = ((if ms = [] then Hangs else Returns ()), s') \<and> same_rest s s' \<and>
    global s' = Some h \<and>
    eh_fjall h = Some ((if ms = [] then id else persist_best_effort (fj d))
      (fst (flush_batch (js d) (fj d) (stored @ queued) p0 0)))"
proof -
  let ?p = "fst (flush_batch (js d) (fj d) stored p0 0)"
  obtain t c where w: "writer_of s = Some (t, \<lparr>w_rx = c, w_part = ?p, w_seq = of_nat (length stored)\<rparr>)"
    "cv c = \<lparr>queue = map Metric queued @ ms, capacity = cap, rx_open = True, tx_open = True\<rparr>"
    using pipeline_writer [OF pipe] by auto
  let ?w = "\<lparr>w_rx = c, w_part = ?p, w_seq = of_nat (length stored)\<rparr>"
  obtain h where h: "global s = Some h" using pipe by (auto simp: pipeline_def)
  obtain c' where "writer_run fuel (js d) (fj d) (chan d) (wt_rows t) ?w = Some
      (if ms = [] then Parked else Exited, ?w\<lparr>w_rx := c',
         w_part := (if ms = [] then id else persist_best_effort (fj d))
           (fst (flush_batch (js d) (fj d) queued ?p (of_nat (length stored)))),
         w_seq := snd (flush_batch (js d) (fj d) queued ?p (of_nat (length stored)))\<rparr>)"
    using writer_run_drains [OF spec stop, of ?w queued fuel "js d" "fj d" "wt_rows t"] w(2) fuel by auto
  then show ?thesis
    by (auto simp: join_writer_def w(1) flush_more put_writer_def h same_rest_def)
qed

lemma pipeline_simps [simp]:
  "pipeline cv d p0 cap stored msgs (s\<lparr>shutdown_flag := b\<rparr>) = pipeline cv d p0 cap stored msgs s"
  "pipeline cv d p0 cap stored msgs (s\<lparr>writer_join := j\<rparr>) = pipeline cv d p0 cap stored msgs s"
  by (simp_all add: pipeline_def)

text \<open>The whole of \<open>shutdown\<close> on a running engine.\<close>

definition joinable :: "('pw, 'h, 'c, 'p) process \<Rightarrow> bool" where
  "joinable s \<longleftrightarrow> writer_join s = \<lparr>guarded = Some (), poisoned = False\<rparr> \<and> \<not> shutdown_flag s"

lemma shutdown_pipeline:
  assumes spec: "chan_spec cv (chan d)" and pipe: "pipeline cv d p0 cap stored (map Metric queued) s"
    and cap: "0 < cap" and join: "joinable s" and sched: "only_writer sched"
    and fuel: "length queued < fuel"
  defines "delivered \<equiv> length queued < cap \<or> progress 99 sched"
  shows "\<exists>s' h. shutdown fuel d sched s = ((if delivered then Returns (Inr ()) else Hangs), s') \<and>
    shutdown_flag s' \<and> global s' = Some h \<and>
    eh_fjall h = Some ((if delivered then \<lambda>p. snd (persist (fj d) (persist_best_effort (fj d) p)) else id)
      (fst (flush_batch (js d) (fj d) (stored @ queued) p0 0)))"
proof -
  let ?s1 = "s\<lparr>shutdown_flag := True\<rparr>"
  obtain h0 c0 where h0: "global s = Some h0" "tx h0 = Some c0" using pipe by (auto simp: pipeline_def)
  have "pipeline cv d p0 cap stored (map Metric queued) ?s1" using pipe by simp
  from deliver_spec [OF spec cap sched this, of 100]
  obtain m where m: "pipeline cv d p0 cap (stored @ take m queued)
      (map Metric (drop m queued) @ (if delivered then [Shutdown] else [])) (deliver 100 d sched ?s1)"
    "same_rest ?s1 (deliver 100 d sched ?s1)"
    unfolding delivered_def by auto
  let ?s2 = "deliver 100 d sched ?s1"
  let ?s3 = "?s2\<lparr>writer_join := (writer_join ?s2)\<lparr>guarded := None\<rparr>\<rparr>"
  define ms where "ms = (if delivered then [Shutdown] else [])"
  have pl: "pipeline cv d p0 cap (stored @ take m queued) (map Metric (drop m queued) @ ms) ?s3"
    using m(1) by (simp add: ms_def)
  have stop: "stop_here ms" and ms: "ms = [] \<longleftrightarrow> \<not> delivered" by (simp_all add: stop_here_def ms_def)
  have "length (drop m queued) < fuel" using fuel by simp
  from join_pipeline [OF spec stop pl this] obtain s4 h where
    j: "join_writer fuel d ?s3 = ((if delivered then Returns () else Hangs), s4)"
    "same_rest ?s3 s4" "global s4 = Some h"
    "eh_fjall h = Some ((if delivered then persist_best_effort (fj d) else id)
      (fst (flush_batch (js d) (fj d) (stored @ queued) p0 0)))"
    by (auto simp: ms split: if_splits)
  have wj: "writer_join ?s2 = \<lparr>guarded = Some (), poisoned = False\<rparr>" and fl: "shutdown_flag s4"
    using m(2) j(2) join by (simp_all add: same_rest_def joinable_def)
  have take: "take_join fuel d ?s2 = ((if delivered then Returns () else Hangs), s4)"
    using j(1) by (simp add: take_join_def wj)
  have sd: "shutdown fuel d sched s = (if delivered
      then (Returns (Inr ()), final_persist d (abort_compaction s4)) else (Hangs, s4))"
    using h0 join by (simp add: shutdown_def take joinable_def del: deliver.simps)
  have "global (abort_compaction s4) = Some h" "shutdown_flag (abort_compaction s4)"
    using j(3) fl by (simp_all add: abort_compaction_def split: option.split)
  then show ?thesis
    using j(3,4) fl by (cases delivered) (simp_all add: sd final_persist_def)
qed

text \<open>The flag and the handle survive every part of \<open>shutdown\<close>.\<close>

definition started :: "('pw, 'h, 'c, 'p) process \<Rightarrow> bool" where
  "started s \<longleftrightarrow> global s \<noteq> None \<and> shutdown_flag s"

lemma started_env_run: "started s \<Longrightarrow> started (env_run d es s)"
  by (induction d es s rule: env_run.induct)
     (auto simp: started_def writer_step_def put_writer_def split: option.splits prod.splits)

lemma started_set_tx: "started s \<Longrightarrow> started (set_tx c s)"
  by (auto simp: started_def set_tx_def)

lemma started_deliver: "started s \<Longrightarrow> started (deliver n d sched s)"
  by (induction n d sched s rule: deliver.induct)
     (auto simp: started_set_tx started_env_run split: option.split prod.split sum.split send_error.split list.split)

lemma started_take_join: "started s \<Longrightarrow> started (snd (take_join fuel d s))"
  by (auto simp: started_def take_join_def join_writer_def put_writer_def
      split: option.split prod.split writer_status.split)

lemma started_finish: "started s \<Longrightarrow> started (final_persist d (abort_compaction s))"
  by (auto simp: started_def final_persist_def abort_compaction_def split: option.split)

lemma shutdown_started:
  assumes "global s \<noteq> None"
  shows "started (snd (shutdown fuel d sched s))"
proof -
  obtain h where h: "global s = Some h" using assms by blast
  have "started (s\<lparr>shutdown_flag := True\<rparr>)" using h by (simp add: started_def)
  then have "started (snd (take_join fuel d
      (if tx h = None then s\<lparr>shutdown_flag := True\<rparr> else deliver 100 d sched (s\<lparr>shutdown_flag := True\<rparr>))))"
    by (simp add: started_take_join started_deliver)
  then show ?thesis
    using h by (auto simp: shutdown_def Let_def started_finish started_def [of s] split: prod.split outcome.split)
qed

lemma init_accounted:
  assumes spec: "prom_spec pv ok (prom d)" "chan_spec cv (chan d)"
    and init: "init d sa env cfg (process_start, fs) = (Inr (), s0, fs')" and cfg: "fjall cfg = Some fcfg"
  shows "\<exists>p. open_handles sa fcfg fs = (Inr p, fs') \<and>
    accounted pv cv d p (channel_capacity cfg) [] 0 [] [] 0 s0"
proof -
  have "\<not> poisoned (writer_join process_start)" "\<not> poisoned (compaction_task process_start)"
    by (simp_all add: process_start_def lock_new_def)
  from init_running [OF spec init cfg this] show ?thesis
    by (auto simp: accounted_def process_start_def)
qed

definition demo_running :: "nat \<Rightarrow> (ref_world, nat, chan_view, kv_store) process" where
  "demo_running cap =
     process_start\<lparr>global := Some \<lparr>tx = Some \<lparr>queue = [Metric demo_sample], capacity = cap, rx_open = True, tx_open = True\<rparr>,
         eh_registry = None, eh_fjall = Some store_empty, dropped_total = 0, eh_has_fjall = True\<rparr>,
       writer_thr := Some \<lparr>wt_rows = 500, wt_seq = 0, wt_exited = False\<rparr>,
       writer_join := \<lparr>guarded = Some (), poisoned = False\<rparr>\<rparr>"

lemma demo_running_pipeline:
  "0 < cap \<Longrightarrow> pipeline id demo_deps store_empty cap [] (map Metric [demo_sample]) (demo_running cap)"
  by (simp add: pipeline_def demo_running_def)

lemma demo_running_joinable: "joinable (demo_running cap)"
  by (simp add: joinable_def demo_running_def process_start_def)

section \<open>Properties\<close>

text \<open>
  Nothing is lost without being counted. After \<open>init\<close>, under any interleaving of
  records and turns of the writer, the samples the writer stored followed by the queued
  ones are a subsequence, in order, of the recorded ones, the queue never exceeds its
  capacity, and every other recorded sample either was dropped and is counted in both
  drop counters or its call panicked in the registry.
\<close>

lemma pipeline_conservation:
  assumes "prom_spec pv ok (prom d)" and "chan_spec cv (chan d)"
    and "init d sa env cfg (process_start, fs) = (Inr (), s0, fs')" and "fjall cfg = Some fcfg"
    and "pipe_reach d s0 es k s" and "list_all (\<lambda>e. admissible (metric_kind e) (sample e)) es"
  shows "\<exists>p stored queued n. open_handles sa fcfg fs = (Inr p, fs') \<and>
    accounted pv cv d p (channel_capacity cfg) es k stored queued n s"
  using init_accounted [OF assms(1-4)] reach_accounted [OF assms(1,2) _ assms(5,6)] by blast

lemma pipeline_conservation_witness:
  "\<exists>s0 k s p stored queued n.
     init demo_deps demo_storage \<lparr>spawn_error = None, runtime_running = True\<rparr> demo_config (process_start, [])
       = (Inr (), s0, [[], [Normal (lit ''data'')]]) \<and>
     pipe_reach demo_deps s0 [demo_entry []] k s \<and>
     accounted ref_view id demo_deps p 16384 [demo_entry []] k stored queued n s"
proof -
  obtain s0 where i: "init demo_deps demo_storage \<lparr>spawn_error = None, runtime_running = True\<rparr> demo_config
    (process_start, []) = (Inr (), s0, [[], [Normal (lit ''data'')]])" using init_demo by blast
  have specs: "prom_spec ref_view ref_ok (prom demo_deps)" "chan_spec id (chan demo_deps)"
    by (simp_all add: ref_prom_spec ref_chan_spec)
  obtain res s where r: "global_record demo_deps (demo_entry []) s0 = (res, s)" by fastforce
  have "\<exists>k. pipe_reach demo_deps s0 [demo_entry []] k s"
    using recorded [OF start, of demo_deps "demo_entry []" s0 s]
      panicked [OF start, of demo_deps "demo_entry []" s0 _ s] r by (cases res) auto
  then obtain k where k: "pipe_reach demo_deps s0 [demo_entry []] k s" ..
  have "list_all (\<lambda>e. admissible (metric_kind e) (sample e)) [demo_entry []]"
    by (simp add: demo_admissible)
  from pipeline_conservation [OF specs i demo_config_simps(2) k this] i k show ?thesis
    unfolding demo_config_simps(3) by blast
qed



text \<open>
  C22: when the queue is full and the writer takes no batch during the first 99 sleeps of
  10 ms, the sentinel is never delivered: the writer stores the backlog and parks for
  ever, since the sender lives in a static, and \<open>shutdown\<close> never returns from the join.
\<close>

theorem shutdown_hangs_on_backlog:
  assumes "chan_spec cv (chan d)" and "pipeline cv d p0 cap stored (map Metric queued) s"
    and "0 < cap" and "joinable s" and "only_writer sched" and "length queued < fuel"
    and "length queued = cap" and "\<not> progress 99 sched"
  shows "fst (shutdown fuel d sched s) = Hangs"
  using shutdown_pipeline [OF assms(1-6)] assms(7,8) by auto

theorem shutdown_hangs_on_backlog_witness:
  "fst (shutdown 2 demo_deps (replicate 99 []) (demo_running 1)) = Hangs"
proof -
  have "chan_spec id (chan demo_deps)" by (simp add: ref_chan_spec)
  from shutdown_hangs_on_backlog [OF this demo_running_pipeline [of 1] _ demo_running_joinable,
      of "replicate 99 []" 2]
  show ?thesis by (simp add: only_writer_def progress_def)
qed

text \<open>
  After a call on an initialised engine, whatever happened in it, a further call
  returns Ok at once and changes nothing; on an uninitialised one every call fails.
\<close>

lemma shutdown_idempotent:
  "shutdown fuel' d' sched' (snd (shutdown fuel d sched s)) =
     ((if global s = None then Returns (Inl NotInitialized) else Returns (Inr ())),
      snd (shutdown fuel d sched s))"
proof (cases "global s = None")
  case False
  then obtain h where "global (snd (shutdown fuel d sched s)) = Some h" "shutdown_flag (snd (shutdown fuel d sched s))"
    using shutdown_started unfolding started_def by blast
  then show ?thesis using False by (subst shutdown_def) simp
qed (simp add: shutdown_def)

end
