(* ===== verification/Hll.thy ===== *)
theory Hll
  imports Prelude "HOL-Library.Multiset"
begin

text \<open>
  The HyperLogLog sketch of \<open>src/visitors.rs\<close>: registers, folding in a hash, and the
  estimate. Folding in is commutative and idempotent, so the sketch is a function of the
  set of hashes; a locale states this contract and is interpreted on the code. The estimate
  computes in \<open>f64\<close>; rounding and the library's logarithm are the record
  \<open>float_env\<close>, an argument, and \<open>float_ok\<close> says what IEEE 754 and the standard
  library promise of them.
\<close>

unbundle bit_operations_syntax

section \<open>The sketch\<close>

definition HLL_P :: nat where "HLL_P = 12"
definition HLL_M :: nat where "HLL_M = 4096"

record hll =
  registers :: "u8 list"

definition hll_new :: hll where
  "hll_new = \<lparr>registers = replicate HLL_M 0\<rparr>"

definition hll_default :: hll where
  "hll_default = hll_new"

declare hll_default_def [simp]

text \<open>\<open>u64::leading_zeros\<close>\<close>

definition leading_zeros :: "u64 \<Rightarrow> nat" where
  "leading_zeros w = length (takeWhile (\<lambda>i. \<not> bit w i) (rev [0..<64]))"

definition hash_idx :: "u64 \<Rightarrow> nat" where
  "hash_idx hash = unat (drop_bit (64 - HLL_P) hash)"

definition hash_rho :: "u64 \<Rightarrow> nat" where
  "hash_rho hash = min (leading_zeros (push_bit HLL_P hash) + 1) 255"

definition add_hash :: "u64 \<Rightarrow> hll \<Rightarrow> hll" where
  "add_hash hash h =
     (let idx = hash_idx hash; rho = hash_rho hash
      in if idx < length (registers h)
         then h\<lparr>registers := (registers h)[idx := max (registers h ! idx) (of_nat rho)]\<rparr>
         else h)"

text \<open>\<open>Hll::add\<close>, over the hash of the standard library, \<open>hash_key\<close>.\<close>

definition hll_add :: "('s \<Rightarrow> u64) \<Rightarrow> 's \<Rightarrow> hll \<Rightarrow> hll" where
  "hll_add hash_key key h = add_hash (hash_key key) h"

section \<open>The estimate\<close>

record float_env =
  fl :: "real \<Rightarrow> real"
  ln64 :: "real \<Rightarrow> real"

text \<open>\<open>value.round() as u64\<close>: half away from zero, and saturating.\<close>

definition saturating_u64 :: "real \<Rightarrow> u64" where
  "saturating_u64 x =
     (let n = \<lfloor>x + 1 / 2\<rfloor> in if n < 0 then 0 else if 2 ^ 64 \<le> n then - 1 else of_nat (nat n))"

fun sum64 :: "float_env \<Rightarrow> real \<Rightarrow> u8 list \<Rightarrow> real" where
  "sum64 fe acc [] = acc"
| "sum64 fe acc (r # rs) = sum64 fe (fl fe (acc + (1 / 2) ^ unat r)) rs"

definition count_zeros :: "u8 list \<Rightarrow> nat" where
  "count_zeros rs = length (filter (\<lambda>r. r = 0) rs)"

definition raw_estimate :: "float_env \<Rightarrow> hll \<Rightarrow> real" where
  "raw_estimate fe h =
     (let s = sum64 fe 0 (registers h);
          alpha = fl fe (fl fe (7213 / 10000) / fl fe (1 + fl fe (fl fe (1079 / 1000) / 4096)))
      in fl fe (fl fe (fl fe (alpha * 4096) * 4096) / s))"

definition hll_estimate :: "float_env \<Rightarrow> hll \<Rightarrow> u64" where
  "hll_estimate fe h =
     (let raw = raw_estimate fe h; zeros = count_zeros (registers h)
      in if raw \<le> fl fe (5 / 2 * 4096) \<and> 0 < zeros
         then saturating_u64 (fl fe (4096 * ln64 fe (fl fe (4096 / real zeros))))
         else saturating_u64 raw)"

section \<open>Positions and ranks\<close>

lemma leading_zeros_le: "leading_zeros w \<le> 64"
  unfolding leading_zeros_def by (metis length_rev length_takeWhile_le length_upt diff_zero)

lemma leading_zeros_bit:
  assumes "bit w i" "i < 64"
  shows "leading_zeros w \<le> 63 - i"
proof (rule ccontr)
  let ?t = "takeWhile (\<lambda>i. \<not> bit w i) (rev [0..<64])"
  assume "\<not> leading_zeros w \<le> 63 - i"
  then have less: "63 - i < length ?t" by (simp add: leading_zeros_def)
  then have "?t ! (63 - i) = rev [0..<64] ! (63 - i)" by (rule takeWhile_nth)
  also have "\<dots> = i" using assms(2) by (simp add: rev_nth)
  finally have "i \<in> set ?t" using less by (metis nth_mem)
  then show False using assms(1) by (auto dest: set_takeWhileD)
qed

lemma hash_idx_less: "hash_idx hash < HLL_M"
proof -
  have "unat (drop_bit 52 hash) = unat hash div 2 ^ 52"
    by (subst unat_drop_bit_eq) (rule drop_bit_eq_div)
  moreover have "unat hash < 2 ^ 64" using unsigned_less [of hash] by simp
  ultimately show ?thesis by (simp add: hash_idx_def HLL_P_def HLL_M_def)
qed

lemma bit_push: "bit (push_bit HLL_P hash) i \<longleftrightarrow> 12 \<le> i \<and> i < 64 \<and> bit (hash :: u64) (i - 12)"
  by (auto simp: bit_push_bit_iff HLL_P_def)

text \<open>
  The rank is between 1 and 52 when one of the 52 low bits is set, and 65 when none is.
\<close>

lemma hash_rho_zero: "take_bit 52 hash = 0 \<Longrightarrow> hash_rho hash = 65"
proof -
  assume z: "take_bit 52 hash = 0"
  have "\<not> bit (push_bit HLL_P hash) i" for i
  proof
    assume "bit (push_bit HLL_P hash) i"
    then have "12 \<le> i" "i < 64" "bit hash (i - 12)" by (simp_all add: bit_push)
    then have "bit (take_bit 52 hash) (i - 12)" by (simp add: bit_take_bit_iff)
    then show False using z by simp
  qed
  then have all: "takeWhile (\<lambda>i. \<not> bit (push_bit HLL_P hash) i) (rev [0..<64]) = rev [0..<64]"
    by (simp only: takeWhile_eq_all_conv) simp
  have "leading_zeros (push_bit HLL_P hash) = 64" by (simp only: leading_zeros_def all) simp
  then show ?thesis by (simp add: hash_rho_def)
qed

lemma hash_rho_nonzero: "take_bit 52 hash \<noteq> 0 \<Longrightarrow> hash_rho hash \<le> 52"
proof -
  assume "take_bit 52 hash \<noteq> 0"
  then obtain i where "bit (take_bit 52 hash) i" using bit_eq_iff [of "take_bit 52 hash" 0] by auto
  then have "i < 52" "bit hash i" by (simp_all add: bit_take_bit_iff)
  then have "bit (push_bit HLL_P hash) (i + 12)" "i + 12 < 64" by (simp_all add: bit_push)
  then have "leading_zeros (push_bit HLL_P hash) \<le> 63 - (i + 12)" by (rule leading_zeros_bit)
  then show ?thesis by (simp add: hash_rho_def)
qed

lemma hash_rho_pos: "0 < hash_rho hash"
  by (simp add: hash_rho_def)

lemma hash_rho_le: "hash_rho hash \<le> 65"
  using leading_zeros_le [of "push_bit HLL_P hash"] by (simp add: hash_rho_def)

lemma unat_rho [simp]: "unat (of_nat (hash_rho hash) :: u8) = hash_rho hash"
  using hash_rho_le [of hash] by (intro unat_of_nat_small) simp

section \<open>A sketch is a function of a set\<close>

text \<open>The contract: adding commutes with itself and repeats without effect.\<close>

locale sketch =
  fixes add :: "'x \<Rightarrow> 's \<Rightarrow> 's"
  assumes add_commute: "add x (add y s) = add y (add x s)"
    and add_idem: "add x (add x s) = add x s"
begin

lemma add_fold: "add x (fold add xs s) = fold add xs (add x s)"
  by (induction xs arbitrary: s) (simp_all add: add_commute)

lemma add_absorbed: "x \<in> set xs \<Longrightarrow> add x (fold add xs s) = fold add xs s"
  by (induction xs arbitrary: s) (auto simp: add_fold add_idem)

lemma fold_remdups: "fold add (remdups xs) s = fold add xs s"
proof (induction xs arbitrary: s)
  case (Cons x xs)
  then show ?case using add_absorbed [of x xs s] by (simp add: add_fold [symmetric])
qed simp

lemma fold_remove1: "x \<in> set xs \<Longrightarrow> fold add xs s = fold add (remove1 x xs) (add x s)"
  by (induction xs arbitrary: s) (auto simp: add_commute)

lemma fold_mset: "mset xs = mset ys \<Longrightarrow> fold add xs s = fold add ys s"
proof (induction xs arbitrary: ys s)
  case (Cons x xs)
  then have "x \<in> set ys" by (metis list.set_intros(1) mset_eq_setD)
  moreover have "mset xs = mset (remove1 x ys)" using Cons.prems by (simp flip: Cons.prems)
  ultimately show ?case using Cons.IH fold_remove1 [of x ys s] by simp
qed simp

lemma fold_set:
  assumes "set xs = set ys"
  shows "fold add xs s = fold add ys s"
proof -
  have "mset (remdups xs) = mset (remdups ys)"
    using assms by (simp add: set_eq_iff_mset_remdups_eq)
  then show ?thesis using fold_mset fold_remdups by metis
qed

end

lemma length_add_hash [simp]: "length (registers (add_hash x h)) = length (registers h)"
  by (simp add: add_hash_def Let_def)

lemma add_hash_commute: "add_hash x (add_hash y h) = add_hash y (add_hash x h)"
proof (cases "hash_idx x = hash_idx y")
  case True
  then show ?thesis by (simp add: add_hash_def Let_def max.commute max.left_commute)
next
  case False
  then show ?thesis by (simp add: add_hash_def Let_def list_update_swap)
qed

lemma add_hash_idem: "add_hash x (add_hash x h) = add_hash x h"
  by (simp add: add_hash_def Let_def)

text \<open>The code meets the contract.\<close>

interpretation hll_sketch: sketch add_hash
  by unfold_locales (rule add_hash_commute, rule add_hash_idem)

section \<open>The registers\<close>

definition hll_inv :: "hll \<Rightarrow> bool" where
  "hll_inv h \<longleftrightarrow> length (registers h) = HLL_M \<and> (\<forall>r \<in> set (registers h). unat r \<le> 52 \<or> unat r = 65)"

lemma hll_inv_new [simp]: "hll_inv hll_new"
  by (simp add: hll_inv_def hll_new_def HLL_M_def)

lemma hash_rho_range: "hash_rho x \<le> 52 \<or> hash_rho x = 65"
  using hash_rho_zero hash_rho_nonzero by blast

lemma hll_inv_add: "hll_inv h \<Longrightarrow> hll_inv (add_hash x h)"
proof -
  assume inv: "hll_inv h"
  then have i: "hash_idx x < length (registers h)" using hash_idx_less by (simp add: hll_inv_def)
  have "unat (max (registers h ! hash_idx x) (of_nat (hash_rho x))) \<le> 52 \<or>
      unat (max (registers h ! hash_idx x) (of_nat (hash_rho x))) = 65"
    using inv i hash_rho_range [of x] nth_mem [OF i] by (auto simp: hll_inv_def max_def)
  then show ?thesis
    using inv i set_update_subset_insert [of "registers h" "hash_idx x"] by (auto simp: hll_inv_def add_hash_def Let_def)
qed

lemma hll_inv_fold: "hll_inv h \<Longrightarrow> hll_inv (fold add_hash xs h)"
  by (induction xs arbitrary: h) (simp_all add: hll_inv_add)

text \<open>What a register holds: the greatest rank among the hashes of its position.\<close>

definition spec_register :: "u64 list \<Rightarrow> nat \<Rightarrow> nat" where
  "spec_register xs i = fold max (map hash_rho (filter (\<lambda>x. hash_idx x = i) xs)) 0"

lemma unat_max_u8: "unat (max a b :: u8) = max (unat a) (unat b)"
  by (simp add: max_def word_le_nat_alt)

lemma register_fold:
  assumes "i < length (registers h)"
  shows "unat (registers (fold add_hash xs h) ! i)
    = fold max (map hash_rho (filter (\<lambda>x. hash_idx x = i) xs)) (unat (registers h ! i))"
  using assms
proof (induction xs arbitrary: h)
  case (Cons x xs)
  then show ?case
    by (cases "hash_idx x = i")
       (simp_all add: add_hash_def Let_def unat_max_u8 max.commute)
qed simp

section \<open>Linear counting\<close>

text \<open>
  What IEEE 754 rounding to nearest and the library's \<open>ln\<close> promise in the range the
  estimate uses: rounding is monotone, exact on the integers up to \<open>2 ^ 53\<close> and off by at
  most \<open>2 ^ -40\<close> up to 8192, and so is the logarithm between 1 and 4096.
\<close>

definition float_ok :: "float_env \<Rightarrow> bool" where
  "float_ok fe \<longleftrightarrow>
     (\<forall>x y. 0 \<le> x \<and> x \<le> y \<and> y \<le> 2 ^ 53 \<longrightarrow> fl fe x \<le> fl fe y) \<and>
     (\<forall>n::nat. n \<le> 2 ^ 53 \<longrightarrow> fl fe (real n) = real n) \<and>
     (\<forall>x. - 1 \<le> x \<and> x \<le> 8192 \<longrightarrow> \<bar>fl fe x - x\<bar> \<le> 1 / 2 ^ 40) \<and>
     (\<forall>x. 1 \<le> x \<and> x \<le> 4096 \<longrightarrow> \<bar>ln64 fe x - ln x\<bar> \<le> 1 / 2 ^ 40)"

lemma float_okD:
  assumes "float_ok fe"
  shows "0 \<le> x \<Longrightarrow> x \<le> y \<Longrightarrow> y \<le> 2 ^ 53 \<Longrightarrow> fl fe x \<le> fl fe y"
    and "n \<le> 2 ^ 53 \<Longrightarrow> fl fe (real n) = real n"
    and "- 1 \<le> x \<Longrightarrow> x \<le> 8192 \<Longrightarrow> \<bar>fl fe x - x\<bar> \<le> 1 / 2 ^ 40"
    and "1 \<le> x \<Longrightarrow> x \<le> 4096 \<Longrightarrow> \<bar>ln64 fe x - ln x\<bar> \<le> 1 / 2 ^ 40"
  using assms unfolding float_ok_def by blast+

lemma fl_between:
  assumes "float_ok fe" "real n \<le> x" "x \<le> real m" "m \<le> 2 ^ 53"
  shows "real n \<le> fl fe x" "fl fe x \<le> real m"
proof -
  have "real m \<le> 2 ^ 53" using assms(4) by (metis of_nat_le_iff of_nat_numeral of_nat_power)
  moreover have "n \<le> 2 ^ 53" using assms(2-4) by linarith
  ultimately show "real n \<le> fl fe x" "fl fe x \<le> real m"
    using assms(2-4) float_okD(1) [OF assms(1), of "real n" x] float_okD(1) [OF assms(1), of x "real m"]
      float_okD(2) [OF assms(1)] of_nat_0_le_iff [of n, where 'a = real] by auto
qed

lemma sum64_bounds:
  assumes "float_ok fe"
  shows "real n \<le> acc \<Longrightarrow> acc \<le> real m \<Longrightarrow> m + length rs \<le> 2 ^ 53 \<Longrightarrow>
    real (n + count_zeros rs) \<le> sum64 fe acc rs \<and> sum64 fe acc rs \<le> real (m + length rs)"
proof (induction rs arbitrary: acc n m)
  case Nil
  then show ?case by (simp add: count_zeros_def)
next
  case (Cons r rs)
  let ?n = "n + (if r = 0 then 1 else 0)"
  have "0 \<le> (1 / 2 :: real) ^ unat r" "(1 / 2 :: real) ^ unat r \<le> 1" by (simp_all add: power_le_one)
  then have "real ?n \<le> acc + (1 / 2) ^ unat r" "acc + (1 / 2) ^ unat r \<le> real (Suc m)"
    using Cons.prems(1,2) by (cases "r = 0"; simp add: add_increasing2)+
  moreover have "Suc m \<le> 2 ^ 53" using Cons.prems(3) by simp
  ultimately have "real ?n \<le> fl fe (acc + (1 / 2) ^ unat r)" "fl fe (acc + (1 / 2) ^ unat r) \<le> real (Suc m)"
    by (rule fl_between [OF assms])+
  from Cons.IH [OF this] Cons.prems(3) show ?case
    by (cases "r = 0") (simp_all add: count_zeros_def)
qed

lemma raw_small:
  assumes ok: "float_ok fe" and inv: "hll_inv h" and z: "4000 \<le> count_zeros (registers h)"
  shows "raw_estimate fe h \<le> fl fe (5 / 2 * 4096)"
proof -
  let ?s = "sum64 fe 0 (registers h)"
  have s: "4000 \<le> ?s"
    using sum64_bounds [OF ok, of 0 0 0 "registers h"] inv z by (simp add: hll_inv_def HLL_M_def)
  note b = fl_between [OF ok]
  have a1: "0 \<le> fl fe (7213 / 10000)" "fl fe (7213 / 10000) \<le> 1"
    using b [of 0 "7213 / 10000" 1] by simp_all
  have "0 \<le> fl fe (1079 / 1000)" "fl fe (1079 / 1000) \<le> 2" using b [of 0 "1079 / 1000" 2] by simp_all
  then have "0 \<le> fl fe (fl fe (1079 / 1000) / 4096)" "fl fe (fl fe (1079 / 1000) / 4096) \<le> 1"
    using b [of 0 "fl fe (1079 / 1000) / 4096" 1] by simp_all
  then have a2: "1 \<le> fl fe (1 + fl fe (fl fe (1079 / 1000) / 4096))"
    using b [of 1 "1 + fl fe (fl fe (1079 / 1000) / 4096)" 2] by simp
  define alpha where "alpha = fl fe (fl fe (7213 / 10000) / fl fe (1 + fl fe (fl fe (1079 / 1000) / 4096)))"
  have "0 \<le> fl fe (7213 / 10000) / fl fe (1 + fl fe (fl fe (1079 / 1000) / 4096))"
    "fl fe (7213 / 10000) / fl fe (1 + fl fe (fl fe (1079 / 1000) / 4096)) \<le> 1"
    using a1 a2 by (simp_all add: divide_le_eq)
  then have a: "0 \<le> alpha" "alpha \<le> 1" unfolding alpha_def
    using b [of 0 "fl fe (7213 / 10000) / fl fe (1 + fl fe (fl fe (1079 / 1000) / 4096))" 1] by simp_all
  then have m1: "0 \<le> fl fe (alpha * 4096)" "fl fe (alpha * 4096) \<le> 4096"
    using b [of 0 "alpha * 4096" 4096] by simp_all
  then have m2: "0 \<le> fl fe (fl fe (alpha * 4096) * 4096)" "fl fe (fl fe (alpha * 4096) * 4096) \<le> 16777216"
    using b [of 0 "fl fe (alpha * 4096) * 4096" 16777216] by simp_all
  define q where "q = fl fe (fl fe (alpha * 4096) * 4096) / ?s"
  have "q \<le> 16777216 / 4000" unfolding q_def using m2 s by (intro frac_le) simp_all
  then have "q \<le> real 4195" by simp
  moreover have "0 \<le> q" using m2(1) s by (simp add: q_def)
  ultimately have "fl fe q \<le> real 4195" using b(2) [of 0 q 4195] by simp
  then have "raw_estimate fe h \<le> 4195"
    by (simp add: raw_estimate_def alpha_def [symmetric] Let_def q_def)
  moreover have "fl fe (5 / 2 * 4096) = 10240" using float_okD(2) [OF ok, of 10240] by simp
  ultimately show ?thesis by simp
qed

lemma ln_close: "1 \<le> a \<Longrightarrow> 1 \<le> b \<Longrightarrow> \<bar>ln a - ln b\<bar> \<le> \<bar>a - b\<bar>" for a b :: real
proof (induction a b rule: linorder_wlog)
  case (le a b)
  have "ln b - ln a = ln (b / a)" using le by (simp add: ln_div)
  also have "\<dots> \<le> b / a - 1" using le by (intro ln_le_minus_one) simp
  also have "\<dots> = (b - a) / a" using le by (simp add: diff_divide_distrib)
  also have "\<dots> \<le> b - a" using le by (simp add: divide_le_eq mult_le_cancel_left1)
  finally show ?case using le by simp
next
  case (sym a b)
  then show ?case by (simp add: abs_minus_commute)
qed

lemma ln_linear:
  assumes "k \<le> 31"
  shows "real k \<le> 4096 * ln (4096 / real (4096 - k))" "4096 * ln (4096 / real (4096 - k)) \<le> real k + 12 / 25"
proof -
  let ?v = "real k / 4096"
  have v: "0 \<le> ?v" "?v \<le> 1 / 2" "?v < 1" using assms by simp_all
  have "4096 / real (4096 - k) = inverse (1 - ?v)" using assms by (simp add: field_simps of_nat_diff)
  then have e: "ln (4096 / real (4096 - k)) = - ln (1 - ?v)"
    using v(3) by (simp only: ln_inverse)
  have "ln (1 - ?v) \<le> - ?v" using ln_le_minus_one [of "1 - ?v"] v by simp
  then show "real k \<le> 4096 * ln (4096 / real (4096 - k))" by (simp add: e)
  have "- ?v - 2 * ?v\<^sup>2 \<le> ln (1 - ?v)" by (rule ln_one_minus_pos_lower_bound [OF v(1,2)])
  moreover have "(real k)\<^sup>2 \<le> 31\<^sup>2" using assms by (intro power_mono) simp_all
  ultimately show "4096 * ln (4096 / real (4096 - k)) \<le> real k + 12 / 25"
    by (simp add: e power_divide)
qed

lemma estimate_linear:
  assumes ok: "float_ok fe" and inv: "hll_inv h" and k: "count_zeros (registers h) = 4096 - k" "k \<le> 31"
  shows "hll_estimate fe h = of_nat k"
proof -
  define z where "z = 4096 - k"
  have z: "0 < z" "z \<le> 4096" "4000 \<le> z" using k by (simp_all add: z_def)
  define x where "x = 4096 / real z"
  have "4096 / real z \<le> 4096 / 4000" using z by (intro divide_left_mono) simp_all
  moreover have "1 \<le> 4096 / real z" using z by (simp add: le_divide_eq)
  ultimately have x: "1 \<le> x" "x \<le> 2" by (simp_all add: x_def)
  have f: "1 \<le> fl fe x" "fl fe x \<le> 2" using fl_between [OF ok, of 1 x 2] x by simp_all
  define eps :: real where "eps = 1 / 2 ^ 40"
  have "\<bar>fl fe x - x\<bar> \<le> eps" unfolding eps_def using x by (intro float_okD(3) [OF ok]) simp_all
  then have "\<bar>ln (fl fe x) - ln x\<bar> \<le> eps" using ln_close [OF f(1) x(1)] by linarith
  moreover have "\<bar>ln64 fe (fl fe x) - ln (fl fe x)\<bar> \<le> eps"
    unfolding eps_def using f by (intro float_okD(4) [OF ok]) simp_all
  ultimately have "\<bar>4096 * ln64 fe (fl fe x) - 4096 * ln x\<bar> \<le> 8192 * eps" by linarith
  moreover have "8192 * eps \<le> 1 / 100" by (simp add: eps_def)
  ultimately have l: "\<bar>4096 * ln64 fe (fl fe x) - 4096 * ln x\<bar> \<le> 1 / 100" by linarith
  have n: "real k \<le> 4096 * ln x" "4096 * ln x \<le> real k + 12 / 25"
    using ln_linear [OF k(2)] by (simp_all add: x_def z_def)
  have k31: "real k \<le> 31" using k(2) by simp
  have "- 1 \<le> 4096 * ln64 fe (fl fe x)" "4096 * ln64 fe (fl fe x) \<le> 8192" using l n k31 by linarith+
  then have "\<bar>fl fe (4096 * ln64 fe (fl fe x)) - 4096 * ln64 fe (fl fe x)\<bar> \<le> eps"
    unfolding eps_def by (rule float_okD(3) [OF ok])
  moreover have "eps \<le> 1 / 1000" by (simp add: eps_def)
  ultimately have "real k - 1 / 2 \<le> fl fe (4096 * ln64 fe (fl fe x))"
    "fl fe (4096 * ln64 fe (fl fe x)) < real k + 1 / 2" using l n by linarith+
  then have "\<lfloor>fl fe (4096 * ln64 fe (fl fe x)) + 1 / 2\<rfloor> = int k"
    by (intro floor_unique) simp_all
  then have "saturating_u64 (fl fe (4096 * ln64 fe (fl fe x))) = of_nat k"
    using k(2) by (simp add: saturating_u64_def Let_def)
  then show ?thesis
    using raw_small [OF ok inv] k(1) z by (simp add: hll_estimate_def Let_def x_def z_def)
qed

lemma count_zeros_fold:
  "count_zeros (registers (fold add_hash xs hll_new)) = 4096 - card (hash_idx ` set xs)"
proof -
  let ?rs = "registers (fold add_hash xs hll_new)"
  have len: "length ?rs = 4096" using hll_inv_fold [OF hll_inv_new] by (simp add: hll_inv_def HLL_M_def)
  have pos: "0 < fold max (map hash_rho (filter (\<lambda>x. hash_idx x = i) ys)) m"
    if "0 < m \<or> i \<in> hash_idx ` set ys" for i m and ys
    using that by (induction ys arbitrary: m) (auto simp: hash_rho_pos less_max_iff_disj)
  have "?rs ! i = 0 \<longleftrightarrow> i \<notin> hash_idx ` set xs" if "i < 4096" for i
  proof -
    have "unat (?rs ! i) = fold max (map hash_rho (filter (\<lambda>x. hash_idx x = i) xs)) 0"
      using register_fold [of i hll_new xs] that by (simp add: hll_new_def HLL_M_def)
    moreover have "i \<notin> hash_idx ` set xs \<Longrightarrow> filter (\<lambda>x. hash_idx x = i) xs = []"
      by (auto simp: filter_empty_conv)
    ultimately show ?thesis using pos [of 0 i xs] unat_eq_0 [of "?rs ! i"] by auto
  qed
  then have "{i. i < length ?rs \<and> ?rs ! i = 0} = {..<4096} - hash_idx ` set xs" using len by auto
  then have "count_zeros ?rs = card ({..<4096} - hash_idx ` set xs)"
    unfolding count_zeros_def by (simp add: length_filter_conv_card)
  moreover have "hash_idx ` set xs \<subseteq> {..<4096}" using hash_idx_less by (auto simp: HLL_M_def)
  ultimately show ?thesis by (simp add: card_Diff_subset)
qed

section \<open>Properties\<close>

text \<open>
  The sketch depends only on the set of hashes folded in: neither repetitions nor the
  order of the visits change any register, and so no estimate.
\<close>

lemma sketch_is_set_function:
  assumes "set xs = set ys"
  shows "fold add_hash xs h = fold add_hash ys h"
  using assms by (rule hll_sketch.fold_set)

text \<open>
  C30: after any visits every register holds the greatest rank among the hashes of its
  position, or 0; a rank is between 1 and 52, or 65 when the 52 low bits are all zero, so
  the \<open>u8\<close> clamp never acts and the standard rank 53 for that case never occurs.
\<close>

theorem register_is_max_rank:
  "length (registers (fold add_hash xs hll_new)) = 4096 \<and>
   (\<forall>i < 4096. unat (registers (fold add_hash xs hll_new) ! i) = spec_register xs i) \<and>
   0 < hash_rho x \<and> (hash_rho x \<le> 52 \<or> hash_rho x = 65) \<and> (hash_rho x = 65 \<longleftrightarrow> take_bit 52 x = 0)"
proof -
  have "length (registers (fold add_hash xs hll_new)) = 4096"
    using hll_inv_fold [OF hll_inv_new] by (simp add: hll_inv_def HLL_M_def)
  moreover have "\<forall>i < 4096. unat (registers (fold add_hash xs hll_new) ! i) = spec_register xs i"
    using register_fold [of _ hll_new xs] by (simp add: spec_register_def hll_new_def HLL_M_def)
  moreover have "hash_rho x = 65 \<longleftrightarrow> take_bit 52 x = 0"
    using hash_rho_zero hash_rho_nonzero by fastforce
  ultimately show ?thesis using hash_rho_pos hash_rho_range by blast
qed

theorem register_is_max_rank_witness:
  "unat (registers (fold add_hash [1] hll_new) ! 0) = spec_register [1] 0"
  using register_is_max_rank [of "[1]" 0] by simp

text \<open>
  With at most 31 occupied registers the estimate is exactly their number, under
  IEEE rounding and an accurate logarithm; in particular an empty sketch estimates 0 and a
  sketch of one visitor 1.
\<close>

lemma estimate_small_exact:
  assumes "float_ok fe" and "hll_inv h" and "count_zeros (registers h) = 4096 - k" and "k \<le> 31"
  shows "hll_estimate fe h = of_nat k"
  using assms by (rule estimate_linear)

end
