(* ===== verification/Visitors.thy ===== *)
theory Visitors
  imports Engine Hll
begin

text \<open>
  The rest of \<open>src/visitors.rs\<close>: regions and visitor keys, the per-region tracker with
  its region cap, and the global tracker. The tracker's \<open>HashMap\<close> is a list of pairs
  with distinct keys; the order a map iterates in is an argument. \<open>try_lock\<close> fails when
  another thread holds the lock, an argument of each call, or when the lock is poisoned.
\<close>

section \<open>Regions and keys\<close>

definition VISITORS_TOTAL :: rstr where "VISITORS_TOTAL = lit ''visitors_total''"
definition UNIQUE_VISITORS_ESTIMATE :: rstr where
  "UNIQUE_VISITORS_ESTIMATE = lit ''unique_visitors_estimate''"
definition REGION_UNKNOWN :: rstr where "REGION_UNKNOWN = lit ''unknown''"
definition REGION_OTHER :: rstr where "REGION_OTHER = lit ''other''"
definition DEFAULT_MAX_REGIONS :: nat where "DEFAULT_MAX_REGIONS = 512"

definition DEFAULT_SNAPSHOT_INTERVAL :: nat where
  "DEFAULT_SNAPSHOT_INTERVAL = from_secs 15"

definition country_code :: "rstr \<Rightarrow> bool" where
  "country_code code \<longleftrightarrow> str_len code = 2 \<and> list_all is_ascii_alphabetic code"

text \<open>The loop over the headers that are present.\<close>

fun first_code :: "rstr list \<Rightarrow> rstr" where
  "first_code [] = REGION_UNKNOWN"
| "first_code (raw # raws) =
     (let code = to_ascii_uppercase (trim raw)
      in if country_code code then code else first_code raws)"

definition parse_region :: "rstr option \<Rightarrow> rstr option \<Rightarrow> rstr option \<Rightarrow> rstr" where
  "parse_region cf vercel cloudfront =
     first_code (concat (map (case_option [] (\<lambda>h. [h])) [cf, vercel, cloudfront]))"

definition normalize_region :: "rstr \<Rightarrow> rstr" where
  "normalize_region region =
     (let code = to_ascii_uppercase (trim region)
      in if country_code code then code
         else if code = to_ascii_uppercase REGION_OTHER then REGION_OTHER
         else REGION_UNKNOWN)"

definition visitor_key :: "rstr option \<Rightarrow> rstr \<Rightarrow> rstr \<Rightarrow> rstr" where
  "visitor_key forwarded_for peer user_agent =
     (let ip = (case forwarded_for of
                  None \<Rightarrow> peer
                | Some h \<Rightarrow> (let s = trim (split_first 44 h) in if s = [] then peer else s))
      in ip @ [0] @ user_agent)"

section \<open>The tracker\<close>

record tracker =
  inner :: "(rstr \<times> hll) list lock"
  max_regions :: nat

definition tracker_new :: "nat \<Rightarrow> tracker" where
  "tracker_new n = \<lparr>inner = lock_new [], max_regions = max 1 (min n 4096)\<rparr>"

text \<open>\<open>map.entry(bucket).or_default().add(visitor_key)\<close>\<close>

fun entry_add :: "(rstr \<Rightarrow> u64) \<Rightarrow> rstr \<Rightarrow> rstr \<Rightarrow> (rstr \<times> hll) list \<Rightarrow> (rstr \<times> hll) list" where
  "entry_add hash bucket key [] = [(bucket, hll_add hash key hll_default)]"
| "entry_add hash bucket key ((r, h) # m) =
     (if r = bucket then (r, hll_add hash key h) # m else (r, h) # entry_add hash bucket key m)"

definition bucket_for :: "tracker \<Rightarrow> rstr \<Rightarrow> rstr" where
  "bucket_for tr region =
     (if map_of (guarded (inner tr)) region = None \<and> max_regions tr \<le> length (guarded (inner tr))
      then REGION_OTHER else region)"

definition try_lock_fails :: "bool \<Rightarrow> tracker \<Rightarrow> bool" where
  "try_lock_fails contended tr \<longleftrightarrow> contended \<or> poisoned (inner tr)"

text \<open>What \<open>observe\<close> does under the lock.\<close>

definition tracker_visit :: "(rstr \<Rightarrow> u64) \<Rightarrow> rstr \<Rightarrow> rstr \<Rightarrow> tracker \<Rightarrow> tracker" where
  "tracker_visit hash key rg tr =
     tr\<lparr>inner := (inner tr)\<lparr>guarded :=
       entry_add hash (bucket_for tr rg) key (guarded (inner tr))\<rparr>\<rparr>"

definition tracker_observe ::
  "('pw, 'h, 'c, 'p) deps \<Rightarrow> (rstr \<Rightarrow> u64) \<Rightarrow> int \<Rightarrow> bool \<Rightarrow> rstr \<Rightarrow> rstr
     \<Rightarrow> tracker \<times> ('pw, 'h, 'c, 'p) process \<Rightarrow> bool res \<times> tracker \<times> ('pw, 'h, 'c, 'p) process" where
  "tracker_observe d hash now contended key region ts =
     (case ts of (tr, s) \<Rightarrow>
        (let rg = normalize_region region
         in case record_counter d now VISITORS_TOTAL (Fin 1) [(lit ''region'', rg)] s of
              (Panicked p, s') \<Rightarrow> (Panicked p, tr, s')
            | (Ret _, s') \<Rightarrow>
                if try_lock_fails contended tr then (Ret False, tr, s')
                else (Ret True, tracker_visit hash key rg tr, s')))"

definition tracker_estimate :: "float_env \<Rightarrow> bool \<Rightarrow> rstr \<Rightarrow> tracker \<Rightarrow> u64" where
  "tracker_estimate fe contended region tr =
     (if try_lock_fails contended tr then 0
      else (case map_of (guarded (inner tr)) (normalize_region region) of
              None \<Rightarrow> 0 | Some h \<Rightarrow> hll_estimate fe h))"

text \<open>\<open>as f64\<close> of an estimate, rounded like any conversion.\<close>

definition u64_as_f64 :: "float_env \<Rightarrow> u64 \<Rightarrow> f64" where
  "u64_as_f64 fe w = Fin (fl fe (real (unat w)))"

text \<open>The loop of \<open>snapshot\<close>; the clock is read once per gauge.\<close>

fun export_estimates ::
  "('pw, 'h, 'c, 'p) deps \<Rightarrow> float_env \<Rightarrow> (nat \<Rightarrow> int) \<Rightarrow> (rstr \<times> hll) list
     \<Rightarrow> ('pw, 'h, 'c, 'p) process \<Rightarrow> unit res \<times> ('pw, 'h, 'c, 'p) process" where
  "export_estimates d fe clock [] s = (Ret (), s)"
| "export_estimates d fe clock ((region, h) # m) s =
     (case record_gauge d (clock 0) UNIQUE_VISITORS_ESTIMATE (u64_as_f64 fe (hll_estimate fe h))
             [(lit ''region'', region)] s of
        (Panicked p, s') \<Rightarrow> (Panicked p, s')
      | (Ret _, s') \<Rightarrow> export_estimates d fe (\<lambda>i. clock (Suc i)) m s')"

text \<open>The guard is held while recording, so a panic there poisons the lock.\<close>

definition tracker_snapshot ::
  "('pw, 'h, 'c, 'p) deps \<Rightarrow> float_env \<Rightarrow> (nat \<Rightarrow> int)
     \<Rightarrow> ((rstr \<times> hll) list \<Rightarrow> (rstr \<times> hll) list) \<Rightarrow> bool
     \<Rightarrow> tracker \<times> ('pw, 'h, 'c, 'p) process \<Rightarrow> nat res \<times> tracker \<times> ('pw, 'h, 'c, 'p) process" where
  "tracker_snapshot d fe clock iter contended ts =
     (case ts of (tr, s) \<Rightarrow>
        (if try_lock_fails contended tr then (Ret 0, tr, s)
         else
           (case export_estimates d fe clock (iter (guarded (inner tr))) s of
              (Panicked p, s') \<Rightarrow> (Panicked p, tr\<lparr>inner := (inner tr)\<lparr>poisoned := True\<rparr>\<rparr>, s')
            | (Ret _, s') \<Rightarrow> (Ret (length (guarded (inner tr))), tr, s'))))"

definition region_count :: "bool \<Rightarrow> tracker \<Rightarrow> nat" where
  "region_count contended tr =
     (if try_lock_fails contended tr then 0 else length (guarded (inner tr)))"

section \<open>The global tracker\<close>

text \<open>\<open>GLOBAL_VISITORS\<close> and its \<open>get_or_init\<close>.\<close>

definition global_tracker :: "tracker option \<Rightarrow> tracker" where
  "global_tracker g = (case g of Some tr \<Rightarrow> tr | None \<Rightarrow> tracker_new DEFAULT_MAX_REGIONS)"

definition observe_visitor ::
  "('pw, 'h, 'c, 'p) deps \<Rightarrow> (rstr \<Rightarrow> u64) \<Rightarrow> int \<Rightarrow> bool \<Rightarrow> rstr \<Rightarrow> rstr
     \<Rightarrow> tracker option \<times> ('pw, 'h, 'c, 'p) process
     \<Rightarrow> bool res \<times> tracker option \<times> ('pw, 'h, 'c, 'p) process" where
  "observe_visitor d hash now contended key region gs =
     (case gs of (g, s) \<Rightarrow>
        (case tracker_observe d hash now contended key region (global_tracker g, s) of
           (r, tr, s') \<Rightarrow> (r, Some tr, s')))"

definition snapshot_visitors ::
  "('pw, 'h, 'c, 'p) deps \<Rightarrow> float_env \<Rightarrow> (nat \<Rightarrow> int)
     \<Rightarrow> ((rstr \<times> hll) list \<Rightarrow> (rstr \<times> hll) list) \<Rightarrow> bool
     \<Rightarrow> tracker option \<times> ('pw, 'h, 'c, 'p) process
     \<Rightarrow> nat res \<times> tracker option \<times> ('pw, 'h, 'c, 'p) process" where
  "snapshot_visitors d fe clock iter contended gs =
     (case gs of (g, s) \<Rightarrow>
        (case tracker_snapshot d fe clock iter contended (global_tracker g, s) of
           (r, tr, s') \<Rightarrow> (r, Some tr, s')))"

text \<open>
  \<open>spawn_snapshot_task\<close>: nothing outside a runtime; inside, the task's loop, given the
  ticks it gets before it is aborted. A panicking snapshot ends the task.
\<close>

record tick =
  t_clock :: "nat \<Rightarrow> int"
  t_iter :: "(rstr \<times> hll) list \<Rightarrow> (rstr \<times> hll) list"
  t_contended :: bool

fun snapshot_task ::
  "('pw, 'h, 'c, 'p) deps \<Rightarrow> float_env \<Rightarrow> tick list
     \<Rightarrow> tracker option \<times> ('pw, 'h, 'c, 'p) process \<Rightarrow> tracker option \<times> ('pw, 'h, 'c, 'p) process" where
  "snapshot_task d fe [] gs = gs"
| "snapshot_task d fe (t # ticks) gs =
     (case snapshot_visitors d fe (t_clock t) (t_iter t) (t_contended t) gs of
        (Panicked p, gs') \<Rightarrow> gs'
      | (Ret _, gs') \<Rightarrow> snapshot_task d fe ticks gs')"

definition spawn_snapshot_task ::
  "bool \<Rightarrow> ('pw, 'h, 'c, 'p) deps \<Rightarrow> float_env \<Rightarrow> tick list
     \<Rightarrow> tracker option \<times> ('pw, 'h, 'c, 'p) process
     \<Rightarrow> unit option \<times> tracker option \<times> ('pw, 'h, 'c, 'p) process" where
  "spawn_snapshot_task runtime d fe ticks gs =
     (if runtime then (Some (), snapshot_task d fe ticks gs) else (None, gs))"

section \<open>Facts about regions\<close>

lemma country_code_ascii: "country_code code \<Longrightarrow> is_ascii code"
  by (auto simp: country_code_def is_ascii_iff list_all_iff ascii_defs)

lemma country_code_upper:
  assumes "country_code (to_ascii_uppercase s)"
  shows "trim (to_ascii_uppercase s) = to_ascii_uppercase s"
    and "to_ascii_uppercase (to_ascii_uppercase s) = to_ascii_uppercase s"
proof -
  have al: "c \<in> set (to_ascii_uppercase s) \<Longrightarrow> is_ascii_alphabetic c" for c
    using assms by (auto simp: country_code_def list_all_iff)
  have "\<not> is_whitespace c" if "is_ascii_alphabetic c" for c
    using that by (auto simp: is_whitespace_def ascii_defs)
  then have "list_all (\<lambda>c. \<not> is_whitespace c) (to_ascii_uppercase s)" using al by (simp add: list_all_iff)
  then show "trim (to_ascii_uppercase s) = to_ascii_uppercase s" by (rule trim_none)
  show "to_ascii_uppercase (to_ascii_uppercase s) = to_ascii_uppercase s"
    by (auto simp: to_ascii_uppercase_def ascii_upper_def is_ascii_lower_def)
qed

lemma normalize_special:
  "normalize_region REGION_UNKNOWN = REGION_UNKNOWN" "normalize_region REGION_OTHER = REGION_OTHER"
  by (simp_all add: normalize_region_def REGION_UNKNOWN_def REGION_OTHER_def country_code_def str_eval
      to_ascii_uppercase_def ascii_upper_def Let_def)

lemma normalize_code:
  "country_code (to_ascii_uppercase s) \<Longrightarrow> normalize_region (to_ascii_uppercase s) = to_ascii_uppercase s"
  by (simp add: normalize_region_def country_code_upper Let_def)

lemma normalize_idem [simp]: "normalize_region (normalize_region r) = normalize_region r"
  using normalize_code [of "trim r"] normalize_special
  by (auto simp: normalize_region_def [of r] Let_def)

lemma first_code_filter:
  "first_code hs = (case filter country_code (map (\<lambda>h. to_ascii_uppercase (trim h)) hs) of
     [] \<Rightarrow> REGION_UNKNOWN | code # _ \<Rightarrow> code)"
  by (induction hs) (simp_all add: Let_def)

lemma normalize_first_code: "normalize_region (first_code hs) = first_code hs"
  by (induction hs) (simp_all add: Let_def normalize_special normalize_code)

section \<open>The tracker's invariant\<close>

definition tracker_inv :: "tracker \<Rightarrow> bool" where
  "tracker_inv tr \<longleftrightarrow>
     1 \<le> max_regions tr \<and> max_regions tr \<le> 4096 \<and> distinct (map fst (guarded (inner tr))) \<and>
     length (guarded (inner tr)) \<le>
       max_regions tr + (if REGION_OTHER \<in> fst ` set (guarded (inner tr)) then 1 else 0) \<and>
     (\<forall>(r, h) \<in> set (guarded (inner tr)). normalize_region r = r \<and> hll_inv h)"

lemma tracker_inv_new: "tracker_inv (tracker_new n)"
  by (simp add: tracker_inv_def tracker_new_def lock_new_def)

lemma keys_entry_add: "fst ` set (entry_add hash b key m) = insert b (fst ` set m)"
proof (induction m)
  case (Cons p m)
  obtain r h where "p = (r, h)" by fastforce
  then show ?case using Cons.IH by (cases "r = b") (simp_all add: insert_commute)
qed simp

lemma length_entry_add:
  "length (entry_add hash b key m) = (if b \<in> fst ` set m then length m else Suc (length m))"
proof (induction m)
  case (Cons p m)
  obtain r h where "p = (r, h)" by fastforce
  then show ?case using Cons.IH by (cases "r = b") auto
qed simp

lemma distinct_entry_add: "distinct (map fst m) \<Longrightarrow> distinct (map fst (entry_add hash b key m))"
proof (induction m)
  case (Cons p m)
  obtain r h where p: "p = (r, h)" by fastforce
  have "r \<notin> fst ` set m" using Cons.prems p by simp
  then have "r \<noteq> b \<Longrightarrow> r \<notin> fst ` set (entry_add hash b key m)" by (simp add: keys_entry_add)
  then show ?case using Cons p by (cases "r = b") simp_all
qed simp

lemma map_of_entry_add:
  "map_of (entry_add hash b key m) = (map_of m)(b \<mapsto>
     hll_add hash key (case map_of m b of None \<Rightarrow> hll_new | Some h \<Rightarrow> h))"
  by (induction m) (auto simp: fun_eq_iff split: option.split)

lemma set_entry_add:
  "(r, h) \<in> set (entry_add hash b key m) \<Longrightarrow>
     (r, h) \<in> set m \<or> (r = b \<and> (\<exists>h0. (h0 = hll_new \<or> (b, h0) \<in> set m) \<and> h = hll_add hash key h0))"
  by (induction m) (auto split: if_splits)

lemma tracker_inv_visit:
  assumes inv: "tracker_inv tr"
  shows "tracker_inv (tracker_visit hash key (normalize_region rg) tr)"
proof -
  let ?m = "guarded (inner tr)" and ?b = "bucket_for tr (normalize_region rg)"
  have b: "normalize_region ?b = ?b" by (simp add: bucket_for_def normalize_special)
  have "normalize_region r = r \<and> hll_inv h" if "(r, h) \<in> set (entry_add hash ?b key ?m)" for r h
    using set_entry_add [OF that] inv b by (auto simp: tracker_inv_def hll_add_def hll_inv_add)
  moreover have "length (entry_add hash ?b key ?m) \<le>
      max_regions tr + (if REGION_OTHER \<in> fst ` set (entry_add hash ?b key ?m) then 1 else 0)"
    using inv unfolding length_entry_add keys_entry_add
    by (auto simp: tracker_inv_def bucket_for_def map_of_eq_None_iff split: if_splits)
  ultimately show ?thesis
    using inv distinct_entry_add [of ?m hash ?b key]
    by (auto simp: tracker_inv_def tracker_visit_def)
qed

text \<open>
  \<open>visited d hash tr0 vs tr\<close>: calls of \<open>observe\<close> led from \<open>tr0\<close> to \<open>tr\<close>;
  \<open>vs\<close> are those that returned \<open>true\<close>. The others met a held or poisoned lock.
\<close>

inductive visited ::
  "('pw, 'h, 'c, 'p) deps \<Rightarrow> (rstr \<Rightarrow> u64) \<Rightarrow> tracker \<Rightarrow> (rstr \<times> rstr) list \<Rightarrow> tracker \<Rightarrow> bool"
  for d hash tr0
where
  none: "visited d hash tr0 [] tr0"
| folded: "visited d hash tr0 vs tr \<Longrightarrow>
    tracker_observe d hash now contended key region (tr, s) = (Ret True, tr', s') \<Longrightarrow>
    visited d hash tr0 (vs @ [(key, region)]) tr'"
| missed: "visited d hash tr0 vs tr \<Longrightarrow>
    tracker_observe d hash now contended key region (tr, s) = (Ret False, tr', s') \<Longrightarrow>
    visited d hash tr0 vs tr'"

definition visit_all :: "(rstr \<Rightarrow> u64) \<Rightarrow> (rstr \<times> rstr) list \<Rightarrow> tracker \<Rightarrow> tracker" where
  "visit_all hash = fold (\<lambda>(key, region). tracker_visit hash key (normalize_region region))"

lemma visited_all: "visited d hash tr0 vs tr \<Longrightarrow> tr = visit_all hash vs tr0"
  by (induction rule: visited.induct)
     (auto simp: visit_all_def tracker_observe_def Let_def split: prod.splits res.splits if_splits)

lemma visit_all_inv: "tracker_inv tr \<Longrightarrow> tracker_inv (visit_all hash vs tr)"
  unfolding visit_all_def by (induction vs arbitrary: tr) (auto simp: tracker_inv_visit)

text \<open>While the cap is not reached a region's sketch is that of its own visitors.\<close>

definition region_keys :: "(rstr \<times> rstr) list \<Rightarrow> rstr \<Rightarrow> rstr list" where
  "region_keys vs rg = map fst (filter (\<lambda>v. normalize_region (snd v) = rg) vs)"

definition sketch_of :: "(rstr \<Rightarrow> u64) \<Rightarrow> rstr list \<Rightarrow> hll option" where
  "sketch_of hash ks = (if ks = [] then None else Some (fold add_hash (map hash ks) hll_new))"

lemma visit_all_sketches:
  "card (set (map (\<lambda>v. normalize_region (snd v)) vs)) \<le> max_regions tr0 \<Longrightarrow>
   guarded (inner tr0) = [] \<Longrightarrow>
   max_regions (visit_all hash vs tr0) = max_regions tr0 \<and>
   fst ` set (guarded (inner (visit_all hash vs tr0))) = set (map (\<lambda>v. normalize_region (snd v)) vs) \<and>
   distinct (map fst (guarded (inner (visit_all hash vs tr0)))) \<and>
   map_of (guarded (inner (visit_all hash vs tr0))) = (\<lambda>rg. sketch_of hash (region_keys vs rg))"
proof (induction vs rule: rev_induct)
  case Nil
  then show ?case by (simp add: visit_all_def sketch_of_def region_keys_def fun_eq_iff)
next
  case (snoc v vs)
  obtain key region where v: "v = (key, region)" by fastforce
  let ?tr = "visit_all hash vs tr0" and ?rg = "normalize_region region"
  let ?R = "set (map (\<lambda>v. normalize_region (snd v)) vs)"
  have "card ?R \<le> max_regions tr0"
    by (rule order_trans [OF card_mono snoc.prems(1)]) auto
  note IH = snoc.IH [OF this snoc.prems(2)]
  have len: "length (guarded (inner ?tr)) = card ?R"
    using IH by (metis distinct_card length_map list.set_map)
  have "card (insert ?rg ?R) \<le> max_regions tr0" using snoc.prems(1) by (simp add: v insert_commute)
  then have "?rg \<notin> ?R \<Longrightarrow> card ?R < max_regions tr0" by (simp add: card_insert_disjoint)
  moreover have "map_of (guarded (inner ?tr)) ?rg = None \<longleftrightarrow> ?rg \<notin> ?R"
    using IH by (metis map_of_eq_None_iff)
  ultimately have b: "bucket_for ?tr ?rg = ?rg"
    using IH len by (auto simp: bucket_for_def)
  have step: "visit_all hash (vs @ [v]) tr0 = tracker_visit hash key ?rg ?tr"
    by (simp add: visit_all_def v)
  have "map_of (guarded (inner (tracker_visit hash key ?rg ?tr))) = (\<lambda>rg. sketch_of hash (region_keys (vs @ [v]) rg))"
    using IH by (auto simp: tracker_visit_def b map_of_entry_add fun_eq_iff v region_keys_def sketch_of_def hll_add_def)
  then show ?case
    using IH keys_entry_add [of hash ?rg key "guarded (inner ?tr)"] distinct_entry_add
    unfolding step by (simp add: tracker_visit_def b v)
qed

section \<open>How many regions there are\<close>

definition upper_codes :: "rstr set" where
  "upper_codes = (\<lambda>(a, b). [a, b]) ` ({65..90} \<times> {65..90})"

lemma card_upper_codes: "card upper_codes = 676"
proof -
  have "inj_on (\<lambda>(a, b). [a, b]) ({65..90::nat} \<times> {65..90::nat})" by (auto simp: inj_on_def)
  then show ?thesis by (simp add: upper_codes_def card_image)
qed

lemma finite_upper_codes: "finite upper_codes"
  by (simp add: upper_codes_def)

lemma country_code_upper_codes: "country_code (to_ascii_uppercase s) \<Longrightarrow> to_ascii_uppercase s \<in> upper_codes"
proof -
  assume c: "country_code (to_ascii_uppercase s)"
  then have "is_ascii (to_ascii_uppercase s)" by (rule country_code_ascii)
  then have "length (to_ascii_uppercase s) = 2"
    using c str_len_ascii by (simp add: country_code_def)
  then have "length s = 2" by (simp add: to_ascii_uppercase_def)
  then obtain x y where s: "s = [x, y]" by (auto simp: numeral_2_eq_2 length_Suc_conv)
  have "ascii_upper z \<in> {65..90}" if "is_ascii_alphabetic (ascii_upper z)" for z
    using that by (auto simp: ascii_upper_def ascii_defs split: if_splits)
  then have "(ascii_upper x, ascii_upper y) \<in> {65..90} \<times> {65..90}"
    using c by (simp add: s to_ascii_uppercase_def country_code_def)
  then show ?thesis
    unfolding upper_codes_def s to_ascii_uppercase_def by (intro image_eqI [where x = "(ascii_upper x, ascii_upper y)"]) simp_all
qed

lemma upper_codes_normal:
  assumes "r \<in> upper_codes"
  shows "normalize_region r = r"
proof -
  obtain a b where r: "r = [a, b]" and ab: "65 \<le> a" "a \<le> 90" "65 \<le> b" "b \<le> 90"
    using assms by (auto simp: upper_codes_def)
  have "to_ascii_uppercase r = r" "country_code r"
    using ab by (auto simp: r to_ascii_uppercase_def ascii_upper_def country_code_def ascii_defs utf8_len_def)
  then show ?thesis using normalize_code [of r] by simp
qed

lemma range_normalize: "range normalize_region = insert REGION_UNKNOWN (insert REGION_OTHER upper_codes)"
proof
  show "range normalize_region \<subseteq> insert REGION_UNKNOWN (insert REGION_OTHER upper_codes)"
    by (auto simp: normalize_region_def Let_def country_code_upper_codes)
  have "REGION_UNKNOWN \<in> range normalize_region" "REGION_OTHER \<in> range normalize_region"
    using normalize_special by (metis rangeI)+
  moreover have "upper_codes \<subseteq> range normalize_region" using upper_codes_normal by (metis rangeI subsetI)
  ultimately show "insert REGION_UNKNOWN (insert REGION_OTHER upper_codes) \<subseteq> range normalize_region" by blast
qed

lemma card_regions: "finite (range normalize_region)" "card (range normalize_region) = 678"
proof -
  have "length r = 2" if "r \<in> upper_codes" for r using that by (auto simp: upper_codes_def)
  then have "REGION_UNKNOWN \<notin> upper_codes" "REGION_OTHER \<notin> upper_codes"
    by (force simp: REGION_UNKNOWN_def REGION_OTHER_def str_eval)+
  moreover have "REGION_UNKNOWN \<noteq> REGION_OTHER" by (simp add: REGION_UNKNOWN_def REGION_OTHER_def str_eval)
  ultimately show "finite (range normalize_region)" "card (range normalize_region) = 678"
    by (simp_all add: range_normalize card_upper_codes finite_upper_codes)
qed

lemma tracker_inv_card:
  assumes "tracker_inv tr"
  shows "length (guarded (inner tr)) \<le> 678"
proof -
  have "r \<in> range normalize_region" if "(r, h) \<in> set (guarded (inner tr))" for r h
  proof -
    have "normalize_region r = r" using assms that by (auto simp: tracker_inv_def)
    then show ?thesis by (metis rangeI)
  qed
  then have "fst ` set (guarded (inner tr)) \<subseteq> range normalize_region" by auto
  then have "card (fst ` set (guarded (inner tr))) \<le> card (range normalize_region)"
    by (rule card_mono [OF card_regions(1)])
  moreover have "length (guarded (inner tr)) = card (fst ` set (guarded (inner tr)))"
    using assms distinct_card [of "map fst (guarded (inner tr))"] by (simp add: tracker_inv_def)
  ultimately show ?thesis using card_regions(2) by linarith
qed

lemma lock_visit_all: "poisoned (inner (visit_all hash vs tr)) = poisoned (inner tr)"
  unfolding visit_all_def by (induction vs arbitrary: tr) (simp_all add: tracker_visit_def split_beta)

lemma max_visit_all [simp]: "max_regions (visit_all hash vs tr) = max_regions tr"
  unfolding visit_all_def by (induction vs arbitrary: tr) (auto simp: tracker_visit_def)

lemma ascii_normalize: "is_ascii (normalize_region r)"
  using country_code_ascii
  by (auto simp: normalize_region_def Let_def REGION_UNKNOWN_def REGION_OTHER_def str_eval)

lemma observe_uninit:
  assumes "global s = None" and "\<not> try_lock_fails contended tr"
  shows "tracker_observe d hash now contended key region (tr, s) =
    (Ret True, tracker_visit hash key (normalize_region region) tr, s)"
proof -
  have "record_counter d now VISITORS_TOTAL (Fin 1) [(lit ''region'', normalize_region region)] s = (Ret (), s)"
    using global_record_noop [of s] assms(1) has_cut_ascii [OF ascii_normalize]
    by (simp add: record_counter_def record_metric_def metric_entry_new_def sanitize_labels_def
        sanitize_take_eq MAX_PAIRS_def)
  then show ?thesis using assms(2) by (simp add: tracker_observe_def Let_def)
qed

lemma visit_all_visited:
  assumes "\<not> poisoned (inner tr)"
  shows "visited demo_deps hash tr vs (visit_all hash vs tr)"
proof (induction vs rule: rev_induct)
  case Nil
  show ?case by (simp add: visit_all_def visited.none)
next
  case (snoc v vs)
  obtain key region where v: "v = (key, region)" by fastforce
  have "tracker_observe demo_deps hash 0 False key region (visit_all hash vs tr, process_start) =
      (Ret True, visit_all hash (vs @ [v]) tr, process_start)"
    using assms by (subst observe_uninit)
      (simp_all add: process_start_def try_lock_fails_def lock_visit_all v, simp add: visit_all_def)
  from visited.folded [OF snoc.IH this] show ?case by (simp add: v)
qed

text \<open>The visitors of a region are counted apart from the others as long as the cap is not reached.\<close>

lemma estimate_visit_all:
  assumes "card (set (map (\<lambda>v. normalize_region (snd v)) vs)) \<le> max 1 (min n 4096)"
  shows "tracker_estimate fe False region (visit_all hash vs (tracker_new n)) =
    (case sketch_of hash (region_keys vs (normalize_region region)) of None \<Rightarrow> 0 | Some h \<Rightarrow> hll_estimate fe h)"
  using visit_all_sketches [of vs "tracker_new n" hash] assms lock_visit_all [of hash vs "tracker_new n"]
  by (simp add: tracker_estimate_def try_lock_fails_def tracker_new_def lock_new_def)

section \<open>Properties\<close>

text \<open>
  The region of a request is the first of the three headers that, trimmed and in upper
  case, is two ASCII letters, and \<open>unknown\<close> when none is. Whatever the headers or the
  callers pass, there are only 678 regions, so the region label cannot blow up the
  registry.
\<close>

lemma region_label_bounded:
  "parse_region cf vercel cloudfront =
     (case filter country_code (map (\<lambda>h. to_ascii_uppercase (trim h))
        (concat (map (case_option [] (\<lambda>h. [h])) [cf, vercel, cloudfront]))) of
        [] \<Rightarrow> REGION_UNKNOWN | code # _ \<Rightarrow> code) \<and>
   normalize_region (parse_region cf vercel cloudfront) = parse_region cf vercel cloudfront \<and>
   card (range normalize_region) = 678"
  unfolding parse_region_def by (intro conjI first_code_filter normalize_first_code card_regions)

text \<open>
  C17: whatever is observed, a tracker made by \<open>new\<close> holds each region once, each under
  its canonical name with a well-formed sketch, and at most one region more than its cap
  (the extra one is \<open>other\<close>) and at most 678 in all.
\<close>

theorem region_cap:
  assumes "visited d hash (tracker_new n) vs tr"
  shows "tracker_inv tr \<and> max_regions tr = max 1 (min n 4096) \<and>
    region_count contended tr \<le> min (max_regions tr + 1) 678 \<and>
    (REGION_OTHER \<notin> fst ` set (guarded (inner tr)) \<longrightarrow> region_count contended tr \<le> max_regions tr)"
proof -
  have tr: "tr = visit_all hash vs (tracker_new n)" using assms by (rule visited_all)
  then have inv: "tracker_inv tr" using visit_all_inv tracker_inv_new by blast
  moreover have "max_regions tr = max 1 (min n 4096)" by (simp add: tr tracker_new_def)
  ultimately show ?thesis
    using tracker_inv_card [OF inv] by (auto simp: region_count_def tracker_inv_def split: if_splits)
qed


definition demo_visits :: "(rstr \<times> rstr) list" where
  "demo_visits = [(lit ''a'', lit ''AA''), (lit ''b'', lit '' bb''), (lit ''c'', lit ''AA'')]"

lemma demo_regions:
  "map (\<lambda>v. normalize_region (snd v)) demo_visits = [lit ''AA'', lit ''BB'', lit ''AA'']"
  by (simp add: demo_visits_def normalize_region_def Let_def trim_def is_whitespace_def str_eval
      to_ascii_uppercase_def ascii_upper_def country_code_def ascii_defs utf8_len_def)

theorem region_cap_witness:
  "region_count False (visit_all (\<lambda>_. 7) demo_visits (tracker_new 0)) \<le> 2"
proof -
  have "visited demo_deps (\<lambda>_. 7) (tracker_new 0) demo_visits (visit_all (\<lambda>_. 7) demo_visits (tracker_new 0))"
    by (rule visit_all_visited) (simp add: tracker_new_def lock_new_def)
  from region_cap [OF this, of False] show ?thesis by (simp add: tracker_new_def)
qed

text \<open>
  C14: while a tracker has seen no more regions than its cap, a region's estimate is the
  estimate of a sketch of exactly its own visitors, whatever was observed for the others,
  in whatever order and however often; and it is their exact number when their hashes
  occupy as many registers and these are at most 31.
\<close>

theorem region_estimate:
  assumes "visited d hash (tracker_new n) vs tr" and "float_ok fe"
    and "card (set (map (\<lambda>v. normalize_region (snd v)) vs)) \<le> max 1 (min n 4096)"
  shows "tracker_estimate fe False region tr =
      hll_estimate fe (fold add_hash (sorted_list_of_set
        (hash ` set (region_keys vs (normalize_region region)))) hll_new) \<and>
    (inj_on (\<lambda>k. hash_idx (hash k)) (set (region_keys vs (normalize_region region))) \<and>
       card (set (region_keys vs (normalize_region region))) \<le> 31 \<longrightarrow>
     tracker_estimate fe False region tr = of_nat (card (set (region_keys vs (normalize_region region)))))"
proof -
  let ?ks = "region_keys vs (normalize_region region)"
  have zero: "hll_estimate fe hll_new = 0"
    using estimate_linear [OF assms(2) hll_inv_new, of 0] count_zeros_fold [of "[]"] by simp
  have "tracker_estimate fe False region tr = hll_estimate fe (fold add_hash (map hash ?ks) hll_new)"
    using estimate_visit_all [OF assms(3)] visited_all [OF assms(1)] zero by (simp add: sketch_of_def)
  moreover have "fold add_hash (map hash ?ks) hll_new =
      fold add_hash (sorted_list_of_set (hash ` set ?ks)) hll_new"
    by (rule hll_sketch.fold_set) simp
  moreover have "hll_estimate fe (fold add_hash (map hash ?ks) hll_new) = of_nat (card (set ?ks))"
    if "inj_on (\<lambda>k. hash_idx (hash k)) (set ?ks)" "card (set ?ks) \<le> 31"
    using that estimate_linear [OF assms(2) hll_inv_fold [OF hll_inv_new], of "map hash ?ks"]
      count_zeros_fold [of "map hash ?ks"] card_image [OF that(1)] by (simp add: image_image)
  ultimately show ?thesis by simp
qed

theorem region_estimate_witness:
  "tracker_estimate \<lparr>fl = (\<lambda>x. x), ln64 = ln\<rparr> False (lit ''bb'')
     (visit_all (\<lambda>_. 7) demo_visits (tracker_new 2)) = 1"
proof -
  have v: "visited demo_deps (\<lambda>_. 7) (tracker_new 2) demo_visits (visit_all (\<lambda>_. 7) demo_visits (tracker_new 2))"
    by (rule visit_all_visited) (simp add: tracker_new_def lock_new_def)
  have ok: "float_ok \<lparr>fl = (\<lambda>x. x), ln64 = ln\<rparr>" by (simp add: float_ok_def)
  have c: "card (set (map (\<lambda>v. normalize_region (snd v)) demo_visits)) \<le> max 1 (min 2 4096)"
    by (simp only: demo_regions) (simp add: card_insert_if str_eval)
  have k: "region_keys demo_visits (normalize_region (lit ''bb'')) = [lit ''b'']"
    by (simp add: region_keys_def demo_visits_def normalize_region_def Let_def trim_def is_whitespace_def
        str_eval to_ascii_uppercase_def ascii_upper_def country_code_def ascii_defs utf8_len_def)
  show ?thesis
    by (rule trans [OF mp [OF conjunct2 [OF region_estimate [OF v ok c, of "lit ''bb''"]]]]) (simp_all add: k)
qed

text \<open>
  C38: a panic of the registry while \<open>snapshot\<close> exports poisons the tracker's lock for
  good: the sketches stay, but from then on no visit is folded in, and every estimate,
  region count and snapshot is 0.
\<close>

theorem snapshot_panic_poisons:
  assumes "tracker_snapshot d fe clock iter contended (tr, s) = (Panicked p, tr', s')"
  shows "guarded (inner tr') = guarded (inner tr) \<and> max_regions tr' = max_regions tr \<and>
    (visited d' hash tr' vs tr'' \<longrightarrow> vs = [] \<and> tr'' = tr') \<and>
    tracker_estimate fe' c' region tr' = 0 \<and> region_count c' tr' = 0 \<and>
    tracker_snapshot d' fe' clock' iter' c' (tr', s2) = (Ret 0, tr', s2)"
proof -
  have tr': "tr' = tr\<lparr>inner := (inner tr)\<lparr>poisoned := True\<rparr>\<rparr>"
    using assms by (auto simp: tracker_snapshot_def split: if_splits prod.splits res.splits)
  have "vs = [] \<and> tr'' = tr'" if "visited d' hash tr' vs tr''"
    using that by induction
      (auto simp: tracker_observe_def try_lock_fails_def tr' Let_def split: prod.splits res.splits if_splits)
  then show ?thesis
    by (simp add: tracker_estimate_def region_count_def tracker_snapshot_def try_lock_fails_def tr')
qed

text \<open>A program that set the gauge of the estimates itself, without labels.\<close>

definition bare_gauge :: metric_entry where
  "bare_gauge = \<lparr>timestamp = 0, name = UNIQUE_VISITORS_ESTIMATE, sample = Fin 1, metric_kind = Gauge, labels = []\<rparr>"

definition gauge_process ::
  "(ref_world, nat) prom_registry \<Rightarrow> (ref_world, nat, chan_view, kv_store) process" where
  "gauge_process r = process_start\<lparr>global :=
     Some \<lparr>tx = None, eh_registry = Some r, eh_fjall = None, dropped_total = 0, eh_has_fjall = False\<rparr>\<rparr>"

definition one_region :: tracker where
  "one_region = visit_all (\<lambda>_. 7) [(lit ''a'', lit ''AA'')] (tracker_new 2)"

lemma gauge_registry:
  "\<exists>r r1. prom_registry_new ref_prom [] = Inr r \<and> update ref_prom r bare_gauge = (Ret (), r1) \<and>
     prom_inv ref_view r1 \<and>
     families (abs_registry ref_view r1) UNIQUE_VISITORS_ESTIMATE = Some (Gauge, [])"
proof -
  obtain r where r: "prom_registry_new ref_prom [] = Inr r" "prom_inv ref_view r"
    "abs_registry ref_view r = \<lparr>families = Map.empty, samples = (\<lambda>_ _. [])\<rparr>"
    using prom_registry_new_ok [OF ref_prom_spec, of "[]"] by blast
  obtain res r1 where u: "update ref_prom r bare_gauge = (res, r1)" by fastforce
  have "ref_ok Gauge UNIQUE_VISITORS_ESTIMATE []" "UNIQUE_VISITORS_ESTIMATE \<noteq> dropped_name"
    by (simp_all add: ref_ok_def dropped_name_def UNIQUE_VISITORS_ESTIMATE_def str_eval)
  moreover have "admissible (metric_kind bare_gauge) (sample bare_gauge)"
    by (simp add: bare_gauge_def admissible_def)
  ultimately show ?thesis
    using update_refines [OF ref_prom_spec r(2), of bare_gauge] r u
    by (auto simp: abs_update_def abs_sample_def bare_gauge_def)
qed

lemma gauge_snapshot_panics:
  assumes "prom_inv ref_view r1"
    and "families (abs_registry ref_view r1) UNIQUE_VISITORS_ESTIMATE = Some (Gauge, [])"
  shows "\<exists>tr' s'. tracker_snapshot demo_deps fe (\<lambda>_. 0) (\<lambda>m. m) False (one_region, gauge_process r1)
    = (Panicked LabelCardinality, tr', s')"
proof -
  have m: "guarded (inner one_region) = [(lit ''AA'', add_hash 7 hll_new)]" "\<not> poisoned (inner one_region)"
    by (simp_all add: one_region_def visit_all_def tracker_visit_def tracker_new_def lock_new_def
        bucket_for_def hll_add_def normalize_region_def Let_def trim_def is_whitespace_def
        str_eval to_ascii_uppercase_def ascii_upper_def country_code_def ascii_defs utf8_len_def)
  define e where "e = \<lparr>timestamp = 0, name = UNIQUE_VISITORS_ESTIMATE,
    sample = u64_as_f64 fe (hll_estimate fe (add_hash 7 hll_new)), metric_kind = Gauge,
    labels = [(lit ''region'', lit ''AA'')]\<rparr>"
  have new: "metric_entry_new 0 UNIQUE_VISITORS_ESTIMATE (u64_as_f64 fe (hll_estimate fe (add_hash 7 hll_new)))
      Gauge [(lit ''region'', lit ''AA'')] = Ret e"
  proof -
    have "wf_label (lit ''region'', lit ''AA'')"
      by (simp add: wf_label_def lit_def utf8_len_def name_char_ok_def name_tail_ok_def ascii_defs)
    then have "sanitize_labels [(lit ''region'', lit ''AA'')] = Ret [(lit ''region'', lit ''AA'')]"
      by (intro sanitize_labels_id) simp_all
    moreover have "sanitize_metric_name UNIQUE_VISITORS_ESTIMATE = UNIQUE_VISITORS_ESTIMATE"
      by (rule sanitize_name_id) (simp add: UNIQUE_VISITORS_ESTIMATE_def lit_def name_char_ok_def name_tail_ok_def ascii_defs)
    ultimately show ?thesis by (simp add: e_def metric_entry_new_def)
  qed
  have "admissible (metric_kind e) (sample e)" by (simp add: e_def admissible_def)
  from update_refines [OF ref_prom_spec assms(1) this]
  have "fst (update ref_prom r1 e) = Panicked LabelCardinality"
    using assms(2) by (auto simp: abs_update_def e_def split: prod.splits)
  then obtain r2 where "update ref_prom r1 e = (Panicked LabelCardinality, r2)" by (metis prod.collapse)
  then show ?thesis
    using m new by (simp add: tracker_snapshot_def try_lock_fails_def record_gauge_def record_metric_def
        global_record_def gauge_process_def process_start_def engine_record_def)
qed

theorem snapshot_panic_poisons_witness:
  "\<exists>r tr' s'. tracker_snapshot demo_deps \<lparr>fl = (\<lambda>x. x), ln64 = ln\<rparr> (\<lambda>_. 0) (\<lambda>m. m) False
       (one_region, gauge_process r) = (Panicked LabelCardinality, tr', s') \<and>
     region_count False one_region = 1 \<and> region_count False tr' = 0"
proof -
  let ?fe = "\<lparr>fl = (\<lambda>x. x), ln64 = ln\<rparr>"
  obtain r1 where "prom_inv ref_view r1"
    "families (abs_registry ref_view r1) UNIQUE_VISITORS_ESTIMATE = Some (Gauge, [])"
    using gauge_registry by blast
  from gauge_snapshot_panics [OF this] obtain tr' s' where
    p: "tracker_snapshot demo_deps ?fe (\<lambda>_. 0) (\<lambda>m. m) False (one_region, gauge_process r1)
      = (Panicked LabelCardinality, tr', s')" by blast
  have "region_count False one_region = 1"
    by (simp add: one_region_def visit_all_def tracker_visit_def tracker_new_def lock_new_def
        region_count_def try_lock_fails_def)
  moreover have "region_count False tr' = 0" using snapshot_panic_poisons [OF p] by blast
  ultimately show ?thesis using p by blast
qed

end
