(* ===== verification/Compaction.thy ===== *)
theory Compaction
  imports Config KeyCodec ValueCodec Interfaces
begin

text \<open>
  \<open>src/storage/parquet_exporter.rs\<close>: one hot-to-cold pass
  (\<open>run_compaction_once_blocking\<close> with \<open>PendingBatch\<close>, \<open>open_export_writer\<close>
  and \<open>finalize_export\<close>), the background loop and \<open>latest_cold_file\<close>. The
  file system and the Parquet writer are the record \<open>parquet_api\<close>, the clock and the
  \<open>chrono\<close> arithmetic the record \<open>pass_env\<close>; both are arguments.
\<close>

section \<open>What the pass uses\<close>

text \<open>A row of the export; the timestamp column is a signed 64-bit number of microseconds.\<close>

record row =
  r_ts :: int
  r_name :: rstr
  r_value :: f64
  r_kind :: rstr
  r_labels :: rstr

datatype arrow_type = TimestampMicrosecond | Utf8 | Float64

definition arrow_schema :: "(rstr \<times> arrow_type \<times> bool) list" where
  "arrow_schema =
     [(lit ''ts'', TimestampMicrosecond, False), (lit ''name'', Utf8, False),
      (lit ''value'', Float64, False), (lit ''metric_type'', Utf8, False),
      (lit ''labels'', Utf8, False)]"

record ('w, 'fs) parquet_api =
  create_dirs :: "path \<Rightarrow> 'fs \<Rightarrow> (rstr + unit) \<times> 'fs"
  file_create :: "path \<Rightarrow> 'fs \<Rightarrow> (rstr + unit) \<times> 'fs"
  writer_new :: "path \<Rightarrow> (rstr \<times> arrow_type \<times> bool) list \<Rightarrow> 'fs \<Rightarrow> (rstr + 'w) \<times> 'fs"
  batch_new ::
    "(rstr \<times> arrow_type \<times> bool) list \<Rightarrow> int list \<Rightarrow> rstr list \<Rightarrow> f64 list \<Rightarrow> rstr list \<Rightarrow> rstr list
       \<Rightarrow> rstr + row list"
  writer_write :: "row list \<Rightarrow> 'w \<Rightarrow> 'fs \<Rightarrow> (rstr + 'w) \<times> 'fs"
  writer_close :: "'w \<Rightarrow> 'fs \<Rightarrow> (rstr + unit) \<times> 'fs"
  rename_file :: "path \<Rightarrow> path \<Rightarrow> 'fs \<Rightarrow> (rstr + unit) \<times> 'fs"
  read_dir :: "path \<Rightarrow> 'fs \<Rightarrow> (rstr + (rstr + rstr) list)"

text \<open>
  The clock in nanoseconds since the epoch at the start of the pass, the formatted stamps
  read when the export is opened and when it is published, and \<open>chrono\<close>'s conversion
  of the retention (an error when too large) and subtraction (a panic when out of range).
\<close>

record pass_env =
  utc_now :: int
  open_stamp :: rstr
  publish_stamp :: rstr
  duration_from_std :: "nat \<Rightarrow> rstr + int"
  sub_duration :: "int \<Rightarrow> int \<Rightarrow> int res"

definition PARQUET_FILE_PREFIX :: rstr where
  "PARQUET_FILE_PREFIX = lit ''metrics_cold_''"

definition ROWS_PER_BATCH :: nat where
  "ROWS_PER_BATCH = 5000"

section \<open>Buffered rows\<close>

text \<open>The column builders, and the keys to remove once they are written.\<close>

record pending_batch =
  pb_ts :: "int list"
  pb_names :: "rstr list"
  pb_values :: "f64 list"
  pb_kinds :: "rstr list"
  pb_labels :: "rstr list"
  pb_removals :: "byte list list"

definition pending_new :: pending_batch where
  "pending_new =
     \<lparr>pb_ts = [], pb_names = [], pb_values = [], pb_kinds = [], pb_labels = [], pb_removals = []\<rparr>"

definition pending_len :: "pending_batch \<Rightarrow> nat" where
  "pending_len b = length (pb_ts b)"

text \<open>\<open>i64::try_from(row_ts).unwrap_or(i64::MAX)\<close>\<close>

definition i64_or_max :: "u64 \<Rightarrow> int" where
  "i64_or_max t = (if unat t < 2 ^ 63 then int (unat t) else 2 ^ 63 - 1)"

definition pending_push ::
  "u64 \<Rightarrow> rstr \<Rightarrow> f64 \<Rightarrow> rstr \<Rightarrow> rstr \<Rightarrow> byte list \<Rightarrow> pending_batch \<Rightarrow> pending_batch" where
  "pending_push row_ts nm v kind lbls key b =
     \<lparr>pb_ts = pb_ts b @ [i64_or_max row_ts], pb_names = pb_names b @ [nm],
      pb_values = pb_values b @ [v], pb_kinds = pb_kinds b @ [kind],
      pb_labels = pb_labels b @ [lbls], pb_removals = pb_removals b @ [key]\<rparr>"

text \<open>The state of a pass: what it buffers, the open export, the partition, the files.\<close>

record ('w, 'p, 'fs) pass_state =
  pending :: pending_batch
  export :: "(path \<times> 'w) option"
  ps_part :: 'p
  ps_fs :: 'fs

fun remove_keys :: "'p fjall_api \<Rightarrow> byte list list \<Rightarrow> 'p \<Rightarrow> 'p" where
  "remove_keys fl [] p = p"
| "remove_keys fl (k # ks) p = remove_keys fl ks (snd (part_remove fl p k))"

definition pending_flush ::
  "('w, 'fs) parquet_api \<Rightarrow> 'p fjall_api \<Rightarrow> ('w, 'p, 'fs) pass_state
     \<Rightarrow> (error + nat) \<times> ('w, 'p, 'fs) pass_state" where
  "pending_flush pq fl st =
     (let b = pending st
      in if pending_len b = 0 then (Inr 0, st\<lparr>pending := b\<lparr>pb_removals := []\<rparr>\<rparr>)
         else
           (let st1 = st\<lparr>pending := \<lparr>pb_ts = [], pb_names = [], pb_values = [], pb_kinds = [],
                                  pb_labels = [], pb_removals = pb_removals b\<rparr>\<rparr>
            in case batch_new pq arrow_schema (pb_ts b) (pb_names b) (pb_values b) (pb_kinds b) (pb_labels b) of
                 Inl e \<Rightarrow> (Inl (Storage (lit ''arrow batch: '' @ e)), st1)
               | Inr batch \<Rightarrow>
                   (case export st1 of
                      None \<Rightarrow> (Inl (Storage (lit ''parquet writer missing'')), st1)
                    | Some (tmp, w) \<Rightarrow>
                        (case writer_write pq batch w (ps_fs st1) of
                           (Inl e, fs) \<Rightarrow> (Inl (Storage (lit ''parquet write: '' @ e)), st1\<lparr>ps_fs := fs\<rparr>)
                         | (Inr w', fs) \<Rightarrow>
                             (Inr (length batch),
                              st1\<lparr>export := Some (tmp, w'), ps_fs := fs,
                                ps_part := remove_keys fl (pb_removals b) (ps_part st1),
                                pending := (pending st1)\<lparr>pb_removals := []\<rparr>\<rparr>)))))"

section \<open>The export file\<close>

definition tmp_path :: "fjall_config \<Rightarrow> rstr \<Rightarrow> path" where
  "tmp_path cfg stamp =
     path_join (cold_dir cfg) (lit ''.'' @ PARQUET_FILE_PREFIX @ stamp @ lit ''.parquet.tmp'')"

definition final_path :: "fjall_config \<Rightarrow> rstr \<Rightarrow> path" where
  "final_path cfg stamp = path_join (cold_dir cfg) (PARQUET_FILE_PREFIX @ stamp @ lit ''.parquet'')"

definition open_export_writer ::
  "('w, 'fs) parquet_api \<Rightarrow> pass_env \<Rightarrow> fjall_config \<Rightarrow> (rstr \<times> arrow_type \<times> bool) list \<Rightarrow> 'fs
     \<Rightarrow> (error + path \<times> 'w) \<times> 'fs" where
  "open_export_writer pq env cfg schema fs =
     (let tmp = tmp_path cfg (open_stamp env)
      in case file_create pq tmp fs of
           (Inl e, fs1) \<Rightarrow> (Inl (Storage (lit ''create tmp parquet: '' @ e)), fs1)
         | (Inr _, fs1) \<Rightarrow>
             (case writer_new pq tmp schema fs1 of
                (Inl e, fs2) \<Rightarrow> (Inl (Storage (lit ''parquet writer: '' @ e)), fs2)
              | (Inr w, fs2) \<Rightarrow> (Inr (tmp, w), fs2)))"

definition finalize_export ::
  "('w, 'fs) parquet_api \<Rightarrow> pass_env \<Rightarrow> fjall_config \<Rightarrow> path \<Rightarrow> 'w \<Rightarrow> 'fs \<Rightarrow> (error + unit) \<times> 'fs" where
  "finalize_export pq env cfg tmp w fs =
     (case writer_close pq w fs of
        (Inl e, fs1) \<Rightarrow> (Inl (Storage (lit ''parquet close: '' @ e)), fs1)
      | (Inr _, fs1) \<Rightarrow>
          (case rename_file pq tmp (final_path cfg (publish_stamp env)) fs1 of
             (Inl e, fs2) \<Rightarrow> (Inl (Storage (lit ''parquet rename: '' @ e)), fs2)
           | (Inr _, fs2) \<Rightarrow> (Inr (), fs2)))"

section \<open>One pass\<close>

definition cutoff_micros :: "pass_env \<Rightarrow> fjall_config \<Rightarrow> (error + u64) res" where
  "cutoff_micros env cfg =
     (case duration_from_std env (retention cfg) of
        Inl e \<Rightarrow> Ret (Inl (Storage (lit ''invalid retention: '' @ e)))
      | Inr d \<Rightarrow>
          map_res (\<lambda>t. Inr (if t div 1000 < 0 then 0 else of_nat (nat (t div 1000))))
            (sub_duration env (utc_now env) d))"

definition scan_item ::
  "('w, 'fs) parquet_api \<Rightarrow> 'p fjall_api \<Rightarrow> json_api \<Rightarrow> pass_env \<Rightarrow> fjall_config \<Rightarrow> rstr + kv
     \<Rightarrow> ('w, 'p, 'fs) pass_state \<Rightarrow> (error + nat) \<times> ('w, 'p, 'fs) pass_state" where
  "scan_item pq fl jn env cfg item st =
     (case item of
        Inl e \<Rightarrow> (Inl (Storage (lit ''fjall scan: '' @ e)), st)
      | Inr (key, val) \<Rightarrow>
          (case decode_key key of
             None \<Rightarrow>
               (Inr 0, st\<lparr>pending := (pending st)\<lparr>pb_removals := pb_removals (pending st) @ [key]\<rparr>\<rparr>)
           | Some (row_ts, row_name) \<Rightarrow>
               (case decode_value jn val of
                  (row_value, row_kind, row_labels) \<Rightarrow>
                    (case (if export st = None
                           then (case open_export_writer pq env cfg arrow_schema (ps_fs st) of
                                   (Inl e, fs) \<Rightarrow> (Inl e, st\<lparr>ps_fs := fs\<rparr>)
                                 | (Inr x, fs) \<Rightarrow> (Inr (), st\<lparr>export := Some x, ps_fs := fs\<rparr>))
                           else (Inr (), st)) of
                       (Inl e, st1) \<Rightarrow> (Inl e, st1)
                     | (Inr _, st1) \<Rightarrow>
                         (let st2 = st1\<lparr>pending :=
                            pending_push row_ts row_name row_value row_kind row_labels key (pending st1)\<rparr>
                          in if ROWS_PER_BATCH \<le> pending_len (pending st2)
                             then pending_flush pq fl st2 else (Inr 0, st2))))))"

fun scan_items ::
  "('w, 'fs) parquet_api \<Rightarrow> 'p fjall_api \<Rightarrow> json_api \<Rightarrow> pass_env \<Rightarrow> fjall_config \<Rightarrow> (rstr + kv) list
     \<Rightarrow> nat \<Rightarrow> ('w, 'p, 'fs) pass_state \<Rightarrow> (error + nat) \<times> ('w, 'p, 'fs) pass_state" where
  "scan_items pq fl jn env cfg [] moved st = (Inr moved, st)"
| "scan_items pq fl jn env cfg (item # items) moved st =
     (case scan_item pq fl jn env cfg item st of
        (Inl e, st') \<Rightarrow> (Inl e, st')
      | (Inr n, st') \<Rightarrow> scan_items pq fl jn env cfg items (moved + n) st')"

text \<open>After the scan: the last flush, then publishing when anything was exported.\<close>

definition finish_pass ::
  "('w, 'fs) parquet_api \<Rightarrow> 'p fjall_api \<Rightarrow> pass_env \<Rightarrow> fjall_config \<Rightarrow> nat
     \<Rightarrow> ('w, 'p, 'fs) pass_state \<Rightarrow> (error + nat) \<times> 'p \<times> 'fs" where
  "finish_pass pq fl env cfg moved st =
     (case pending_flush pq fl st of
        (Inl e, st1) \<Rightarrow> (Inl e, ps_part st1, ps_fs st1)
      | (Inr n, st1) \<Rightarrow>
          (case export st1 of
             None \<Rightarrow> (Inr (moved + n), ps_part st1, ps_fs st1)
           | Some (tmp, w) \<Rightarrow>
               (case finalize_export pq env cfg tmp w (ps_fs st1) of
                  (Inl e, fs2) \<Rightarrow> (Inl e, ps_part st1, fs2)
                | (Inr _, fs2) \<Rightarrow> (Inr (moved + n), snd (persist fl (ps_part st1)), fs2))))"

definition run_compaction_once_blocking ::
  "('w, 'fs) parquet_api \<Rightarrow> 'p fjall_api \<Rightarrow> json_api \<Rightarrow> pass_env \<Rightarrow> fjall_config \<Rightarrow> 'p \<Rightarrow> 'fs
     \<Rightarrow> (error + nat) res \<times> 'p \<times> 'fs" where
  "run_compaction_once_blocking pq fl jn env cfg part fs =
     (case cutoff_micros env cfg of
        Panicked x \<Rightarrow> (Panicked x, part, fs)
      | Ret (Inl e) \<Rightarrow> (Ret (Inl e), part, fs)
      | Ret (Inr cutoff) \<Rightarrow>
          (case create_dirs pq (cold_dir cfg) fs of
             (Inl e, fs1) \<Rightarrow> (Ret (Inl (error_from_io e)), part, fs1)
           | (Inr _, fs1) \<Rightarrow>
               (case scan_items pq fl jn env cfg (part_range_to fl part (utf8 (cutoff_prefix cutoff))) 0
                       \<lparr>pending = pending_new, export = None, ps_part = part, ps_fs = fs1\<rparr> of
                  (Inl e, st) \<Rightarrow> (Ret (Inl e), ps_part st, ps_fs st)
                | (Inr moved, st) \<Rightarrow>
                    (case finish_pass pq fl env cfg moved st of (r, part', fs') \<Rightarrow> (Ret r, part', fs')))))"

text \<open>
  The background loop, over the passes it gets to run before it is aborted: the result of
  a pass, error or panic, is logged and the loop goes on.
\<close>

fun compaction_loop ::
  "('w, 'fs) parquet_api \<Rightarrow> 'p fjall_api \<Rightarrow> json_api \<Rightarrow> pass_env list \<Rightarrow> fjall_config \<Rightarrow> 'p \<Rightarrow> 'fs
     \<Rightarrow> 'p \<times> 'fs" where
  "compaction_loop pq fl jn [] cfg part fs = (part, fs)"
| "compaction_loop pq fl jn (env # envs) cfg part fs =
     (if \<not> enable_compaction cfg then (part, fs)
      else (case run_compaction_once_blocking pq fl jn env cfg part fs of
              (_, part', fs') \<Rightarrow> compaction_loop pq fl jn envs cfg part' fs'))"

section \<open>The newest export\<close>

definition starts_with :: "rstr \<Rightarrow> rstr \<Rightarrow> bool" where
  "starts_with p s \<longleftrightarrow> take (length p) s = p"

text \<open>\<open>Path::extension\<close> of a file name: what follows the last dot, unless that dot is first.\<close>

definition file_extension :: "rstr \<Rightarrow> rstr option" where
  "file_extension s =
     (let suffix = rev (takeWhile (\<lambda>c. c \<noteq> 46) (rev s))
      in if suffix = s \<or> length s = Suc (length suffix) then None else Some suffix)"

definition is_cold_file :: "rstr \<Rightarrow> bool" where
  "is_cold_file nm \<longleftrightarrow> starts_with PARQUET_FILE_PREFIX nm \<and> file_extension nm = Some (lit ''parquet'')"

text \<open>\<open>Iterator::max\<close> of names in one directory: the last of the greatest, in byte order.\<close>

fun max_name :: "rstr list \<Rightarrow> rstr option" where
  "max_name [] = None"
| "max_name (x # xs) =
     (case max_name xs of None \<Rightarrow> Some x | Some y \<Rightarrow> if utf8 y < utf8 x then Some x else Some y)"

definition latest_cold_file :: "('w, 'fs) parquet_api \<Rightarrow> path \<Rightarrow> 'fs \<Rightarrow> path option" where
  "latest_cold_file pq cdir fs =
     (case read_dir pq cdir fs of
        Inl e \<Rightarrow> None
      | Inr entries \<Rightarrow> map_option (path_join cdir) (max_name (filter is_cold_file (oks entries))))"

section \<open>What the pass relies on\<close>

definition rows_of ::
  "int list \<Rightarrow> rstr list \<Rightarrow> f64 list \<Rightarrow> rstr list \<Rightarrow> rstr list \<Rightarrow> row list" where
  "rows_of ts ns vs ks ls =
     map (\<lambda>(t, n, v, k, l). \<lparr>r_ts = t, r_name = n, r_value = v, r_kind = k, r_labels = l\<rparr>)
       (zip ts (zip ns (zip vs (zip ks ls))))"

text \<open>
  Documented behaviour of \<open>arrow\<close>, \<open>parquet\<close> and the file system, over a view of the
  readable Parquet files of a directory tree and of the batches a writer was given: columns
  of one length make a batch; writing appends a batch; closing makes the file; renaming moves
  it; a failing step touches no file but the one it works on, a failing rename none.
\<close>

definition parquet_spec ::
  "('fs \<Rightarrow> path \<rightharpoonup> row list) \<Rightarrow> ('w \<Rightarrow> path \<times> row list list) \<Rightarrow> ('w, 'fs) parquet_api \<Rightarrow> bool" where
  "parquet_spec fv wv pq \<longleftrightarrow>
     (\<forall>ts ns vs ks ls. length ns = length ts \<and> length vs = length ts \<and> length ks = length ts \<and>
        length ls = length ts \<longrightarrow> batch_new pq arrow_schema ts ns vs ks ls = Inr (rows_of ts ns vs ks ls)) \<and>
     (\<forall>p fs. fv (snd (create_dirs pq p fs)) = fv fs) \<and>
     (\<forall>p fs q. q \<noteq> p \<longrightarrow> fv (snd (file_create pq p fs)) q = fv fs q) \<and>
     (\<forall>p sch fs q. q \<noteq> p \<longrightarrow> fv (snd (writer_new pq p sch fs)) q = fv fs q) \<and>
     (\<forall>p sch fs w fs'. writer_new pq p sch fs = (Inr w, fs') \<longrightarrow> wv w = (p, [])) \<and>
     (\<forall>b w fs q. q \<noteq> fst (wv w) \<longrightarrow> fv (snd (writer_write pq b w fs)) q = fv fs q) \<and>
     (\<forall>b w fs w' fs'. writer_write pq b w fs = (Inr w', fs') \<longrightarrow> wv w' = (fst (wv w), snd (wv w) @ [b])) \<and>
     (\<forall>w fs q. q \<noteq> fst (wv w) \<longrightarrow> fv (snd (writer_close pq w fs)) q = fv fs q) \<and>
     (\<forall>w fs fs'. writer_close pq w fs = (Inr (), fs') \<longrightarrow> fv fs' (fst (wv w)) = Some (concat (snd (wv w)))) \<and>
     (\<forall>a b fs. case rename_file pq a b fs of
        (Inl e, fs') \<Rightarrow> fv fs' = fv fs
      | (Inr _, fs') \<Rightarrow> a \<noteq> b \<longrightarrow> fv fs' = (fv fs)(a := None, b := fv fs a))"

text \<open>Everything up to publishing succeeds.\<close>

definition parquet_writable :: "('w, 'fs) parquet_api \<Rightarrow> bool" where
  "parquet_writable pq \<longleftrightarrow>
     (\<forall>p fs e. fst (create_dirs pq p fs) \<noteq> Inl e) \<and>
     (\<forall>p fs e. fst (file_create pq p fs) \<noteq> Inl e) \<and>
     (\<forall>p sch fs e. fst (writer_new pq p sch fs) \<noteq> Inl e) \<and>
     (\<forall>b w fs e. fst (writer_write pq b w fs) \<noteq> Inl e)"

text \<open>The row of a stored pair, and the rows of a scan; an undecodable key has none.\<close>

definition row_of_kv :: "json_api \<Rightarrow> kv \<Rightarrow> row option" where
  "row_of_kv jn x =
     (case decode_key (fst x) of
        None \<Rightarrow> None
      | Some (t, nm) \<Rightarrow>
          (case decode_value jn (snd x) of
             (v, k, l) \<Rightarrow> Some \<lparr>r_ts = i64_or_max t, r_name = nm, r_value = v, r_kind = k, r_labels = l\<rparr>))"

fun expired_rows :: "json_api \<Rightarrow> kv list \<Rightarrow> row list" where
  "expired_rows jn [] = []"
| "expired_rows jn (x # xs) =
     (case row_of_kv jn x of None \<Rightarrow> expired_rows jn xs | Some r \<Rightarrow> r # expired_rows jn xs)"

lemma expired_rows_append: "expired_rows jn (xs @ ys) = expired_rows jn xs @ expired_rows jn ys"
  by (induction xs) (auto split: option.split)

lemma row_of_kv_None: "row_of_kv jn x = None \<longleftrightarrow> decode_key (fst x) = None"
  by (auto simp: row_of_kv_def split: option.split prod.split)

lemma expired_rows_Nil: "expired_rows jn xs = [] \<longleftrightarrow> (\<forall>x \<in> set xs. decode_key (fst x) = None)"
proof (induction xs)
  case (Cons x xs)
  then show ?case by (cases "row_of_kv jn x") (use row_of_kv_None [of jn x] in simp_all)
qed simp

subsection \<open>The invariant of a pass\<close>

definition aligned :: "pending_batch \<Rightarrow> bool" where
  "aligned b \<longleftrightarrow>
     length (pb_names b) = length (pb_ts b) \<and> length (pb_values b) = length (pb_ts b) \<and>
     length (pb_kinds b) = length (pb_ts b) \<and> length (pb_labels b) = length (pb_ts b)"

definition pending_rows :: "pending_batch \<Rightarrow> row list" where
  "pending_rows b = rows_of (pb_ts b) (pb_names b) (pb_values b) (pb_kinds b) (pb_labels b)"

definition batch_ok :: "row list \<Rightarrow> bool" where
  "batch_ok b \<longleftrightarrow> 0 < length b \<and> length b \<le> ROWS_PER_BATCH"

definition written :: "('w \<Rightarrow> path \<times> row list list) \<Rightarrow> path \<Rightarrow> (path \<times> 'w) option \<Rightarrow> row list list \<Rightarrow> bool" where
  "written wv tmp ex batches \<longleftrightarrow>
     (case ex of None \<Rightarrow> batches = [] | Some (t, w) \<Rightarrow> t = tmp \<and> wv w = (tmp, batches))"

text \<open>
  After the scan of \<open>exported @ buf\<close>: the rows of \<open>exported\<close> are in the written
  batches and its keys removed; the rows of \<open>buf\<close> are buffered with its keys.
\<close>

definition pass_inv ::
  "('fs \<Rightarrow> path \<rightharpoonup> row list) \<Rightarrow> ('w \<Rightarrow> path \<times> row list list) \<Rightarrow> ('p \<Rightarrow> byte list \<rightharpoonup> byte list)
     \<Rightarrow> json_api \<Rightarrow> path \<Rightarrow> 'fs \<Rightarrow> 'p \<Rightarrow> kv list \<Rightarrow> kv list \<Rightarrow> nat \<Rightarrow> nat \<Rightarrow> row list list
     \<Rightarrow> ('w, 'p, 'fs) pass_state \<Rightarrow> bool" where
  "pass_inv fv wv cont jn tmp fs0 p0 exported buf m moved batches st \<longleftrightarrow>
     aligned (pending st) \<and> pending_len (pending st) \<le> m \<and>
     (\<forall>q. q \<noteq> tmp \<longrightarrow> fv (ps_fs st) q = fv fs0 q) \<and>
     map fst buf = pb_removals (pending st) \<and> expired_rows jn buf = pending_rows (pending st) \<and>
     (\<forall>k. cont (ps_part st) k = (if k \<in> fst ` set exported then None else cont p0 k)) \<and>
     written wv tmp (export st) batches \<and> list_all batch_ok batches \<and>
     expired_rows jn exported = concat batches \<and> moved = length (concat batches) \<and>
     (export st = None \<longleftrightarrow> expired_rows jn (exported @ buf) = []) \<and>
     (export st = None \<longrightarrow> fv (ps_fs st) = fv fs0 \<and> exported = [])"

lemma pass_inv_mono:
  assumes "pass_inv fv wv cont jn tmp fs0 p0 exported buf m moved batches st"
    and "m \<le> m' \<or> pending_len (pending st) \<le> m'"
  shows "pass_inv fv wv cont jn tmp fs0 p0 exported buf m' moved batches st"
proof -
  have "pending_len (pending st) \<le> m'" using assms by (auto simp: pass_inv_def)
  then show ?thesis using assms(1) unfolding pass_inv_def by (elim conjE) (intro conjI; assumption)
qed

lemma pending_rows_new [simp]: "pending_rows pending_new = []" "aligned pending_new" "pending_len pending_new = 0"
  by (simp_all add: pending_rows_def pending_new_def rows_of_def aligned_def pending_len_def)

lemma aligned_push [simp]: "aligned (pending_push t n v k l key b) = aligned b"
  by (simp add: aligned_def pending_push_def)

lemma pending_len_push [simp]: "pending_len (pending_push t n v k l key b) = Suc (pending_len b)"
  by (simp add: pending_len_def pending_push_def)

lemma pb_removals_push [simp]: "pb_removals (pending_push t n v k l key b) = pb_removals b @ [key]"
  by (simp add: pending_push_def)

lemma pending_rows_push:
  "aligned b \<Longrightarrow> pending_rows (pending_push t n v k l key b) =
     pending_rows b @ [\<lparr>r_ts = i64_or_max t, r_name = n, r_value = v, r_kind = k, r_labels = l\<rparr>]"
  by (simp add: aligned_def pending_rows_def pending_push_def rows_of_def)

lemma length_pending_rows: "aligned b \<Longrightarrow> length (pending_rows b) = pending_len b"
  by (simp add: aligned_def pending_rows_def rows_of_def pending_len_def)

lemma remove_keys_contents:
  assumes "fjall_spec cont fl" "fjall_reliable fl"
  shows "cont (remove_keys fl ks p) k = (if k \<in> set ks then None else cont p k)"
  by (induction ks arbitrary: p) (auto simp: part_remove_reliable [OF assms])

lemma parquet_specD:
  assumes "parquet_spec fv wv pq"
  shows "aligned b \<Longrightarrow> batch_new pq arrow_schema (pb_ts b) (pb_names b) (pb_values b) (pb_kinds b) (pb_labels b)
      = Inr (pending_rows b)"
    and "create_dirs pq p fs = (r, fs') \<Longrightarrow> fv fs' = fv fs"
    and "file_create pq p fs = (r, fs') \<Longrightarrow> q \<noteq> p \<Longrightarrow> fv fs' q = fv fs q"
    and "writer_new pq p sch fs = (rw, fs') \<Longrightarrow> q \<noteq> p \<Longrightarrow> fv fs' q = fv fs q"
    and "writer_new pq p sch fs = (Inr w, fs') \<Longrightarrow> wv w = (p, [])"
    and "writer_write pq bt w fs = (rw, fs') \<Longrightarrow> q \<noteq> fst (wv w) \<Longrightarrow> fv fs' q = fv fs q"
    and "writer_write pq bt w fs = (Inr w', fs') \<Longrightarrow> wv w' = (fst (wv w), snd (wv w) @ [bt])"
    and "writer_close pq w fs = (r, fs') \<Longrightarrow> q \<noteq> fst (wv w) \<Longrightarrow> fv fs' q = fv fs q"
    and "writer_close pq w fs = (Inr (), fs') \<Longrightarrow> fv fs' (fst (wv w)) = Some (concat (snd (wv w)))"
    and "rename_file pq p p' fs = (Inl e, fs') \<Longrightarrow> fv fs' = fv fs"
    and "rename_file pq p p' fs = (Inr (), fs') \<Longrightarrow> p \<noteq> p' \<Longrightarrow> fv fs' = (fv fs)(p := None, p' := fv fs p)"
proof -
  show "batch_new pq arrow_schema (pb_ts b) (pb_names b) (pb_values b) (pb_kinds b) (pb_labels b)
      = Inr (pending_rows b)" if "aligned b"
    using assms that by (simp add: parquet_spec_def aligned_def pending_rows_def)
  show "create_dirs pq p fs = (r, fs') \<Longrightarrow> fv fs' = fv fs"
    "file_create pq p fs = (r, fs') \<Longrightarrow> q \<noteq> p \<Longrightarrow> fv fs' q = fv fs q"
    "writer_new pq p sch fs = (rw, fs') \<Longrightarrow> q \<noteq> p \<Longrightarrow> fv fs' q = fv fs q"
    "writer_new pq p sch fs = (Inr w, fs') \<Longrightarrow> wv w = (p, [])"
    "writer_write pq bt w fs = (rw, fs') \<Longrightarrow> q \<noteq> fst (wv w) \<Longrightarrow> fv fs' q = fv fs q"
    "writer_write pq bt w fs = (Inr w', fs') \<Longrightarrow> wv w' = (fst (wv w), snd (wv w) @ [bt])"
    "writer_close pq w fs = (r, fs') \<Longrightarrow> q \<noteq> fst (wv w) \<Longrightarrow> fv fs' q = fv fs q"
    "writer_close pq w fs = (Inr (), fs') \<Longrightarrow> fv fs' (fst (wv w)) = Some (concat (snd (wv w)))"
    using assms unfolding parquet_spec_def by (metis snd_conv)+
  have rn: "case rename_file pq p p' fs of
        (Inl e, fs') \<Rightarrow> fv fs' = fv fs
      | (Inr _, fs') \<Rightarrow> p \<noteq> p' \<longrightarrow> fv fs' = (fv fs)(p := None, p' := fv fs p)"
    using assms unfolding parquet_spec_def by (elim conjE allE)
  show "rename_file pq p p' fs = (Inl e, fs') \<Longrightarrow> fv fs' = fv fs"
    "rename_file pq p p' fs = (Inr (), fs') \<Longrightarrow> p \<noteq> p' \<Longrightarrow> fv fs' = (fv fs)(p := None, p' := fv fs p)"
    using rn by auto
qed

text \<open>Flushing a buffer that holds rows.\<close>

lemma flush_inv:
  assumes spec: "parquet_spec fv wv pq" "fjall_spec cont fl" "fjall_reliable fl"
    and inv: "pass_inv fv wv cont jn tmp fs0 p0 exported buf ROWS_PER_BATCH moved batches st"
    and len: "pending_len (pending st) \<noteq> 0" and ex: "export st \<noteq> None"
    and res: "pending_flush pq fl st = (Inr n, st')"
  shows "pass_inv fv wv cont jn tmp fs0 p0 (exported @ buf) [] 0 (moved + n)
      (batches @ [pending_rows (pending st)]) st'"
proof -
  obtain t w where w: "export st = Some (t, w)" using ex by auto
  from inv have al: "aligned (pending st)" by (simp add: pass_inv_def)
  from inv w have wr: "t = tmp" "wv w = (tmp, batches)" by (simp_all add: pass_inv_def written_def)
  obtain rw fs' where wf: "writer_write pq (pending_rows (pending st)) w (ps_fs st) = (rw, fs')" by fastforce
  let ?b = "\<lparr>pb_ts = [], pb_names = [], pb_values = [], pb_kinds = [], pb_labels = [], pb_removals = []\<rparr>"
  obtain w' where w': "rw = Inr w'" and n: "n = length (pending_rows (pending st))"
    and st': "st' = st\<lparr>pending := ?b, export := Some (t, w'), ps_fs := fs',
       ps_part := remove_keys fl (pb_removals (pending st)) (ps_part st)\<rparr>"
    using res len
    by (cases rw) (auto simp: pending_flush_def Let_def parquet_specD(1) [OF spec(1) al] w wf)
  have "q \<noteq> tmp \<Longrightarrow> fv fs' q = fv (ps_fs st) q" for q
    using parquet_specD(6) [OF spec(1) wf] wr by simp
  moreover have "wv w' = (tmp, batches @ [pending_rows (pending st)])"
    using parquet_specD(7) [OF spec(1) wf [unfolded w']] wr by simp
  moreover have "batch_ok (pending_rows (pending st))"
    using inv len length_pending_rows [OF al] by (simp add: batch_ok_def pass_inv_def)
  moreover have "pending_rows ?b = []" "aligned ?b" "pending_len ?b = 0"
    using pending_rows_new by (simp_all add: pending_new_def)
  moreover have "set (pb_removals (pending st)) = fst ` set buf"
    using inv unfolding pass_inv_def by (metis list.set_map)
  ultimately show ?thesis
    using inv w wr(1) unfolding pass_inv_def st' n
    by (simp add: remove_keys_contents [OF spec(2,3)] written_def expired_rows_append) (auto simp: image_Un)
qed

lemma open_export_ok:
  assumes "parquet_spec fv wv pq" "open_export_writer pq env cfg arrow_schema fs = (Inr (t, w), fs')"
  shows "t = tmp_path cfg (open_stamp env) \<and> wv w = (t, []) \<and> (\<forall>q. q \<noteq> t \<longrightarrow> fv fs' q = fv fs q)"
proof -
  obtain u fs1 where c: "file_create pq (tmp_path cfg (open_stamp env)) fs = (Inr u, fs1)"
    "writer_new pq t arrow_schema fs1 = (Inr w, fs')" "t = tmp_path cfg (open_stamp env)"
    using assms(2) by (auto simp: open_export_writer_def Let_def split: prod.splits sum.splits)
  then show ?thesis
    using parquet_specD(3) [OF assms(1) c(1)] parquet_specD(4,5) [OF assms(1) c(2)] by auto
qed

text \<open>Buffering one decodable pair, the export being open.\<close>

lemma push_inv:
  assumes inv: "pass_inv fv wv cont jn tmp fs0 p0 exported buf m moved batches st0"
    and dk: "decode_key (fst kv) = Some (t, nm)" and dv: "decode_value jn (snd kv) = (v, k, l)"
    and st1: "pending st1 = pending st0" "ps_part st1 = ps_part st0" "export st1 \<noteq> None"
      "written wv tmp (export st1) batches" "\<And>q. q \<noteq> tmp \<Longrightarrow> fv (ps_fs st1) q = fv fs0 q"
  shows "pass_inv fv wv cont jn tmp fs0 p0 exported (buf @ [kv]) (Suc m) moved batches
      (st1\<lparr>pending := pending_push t nm v k l (fst kv) (pending st1)\<rparr>)"
  using inv st1
  by (simp add: pass_inv_def pending_rows_push expired_rows_append row_of_kv_def dk dv)
     (auto simp flip: append_assoc)

lemma scan_item_inv:
  assumes spec: "parquet_spec fv wv pq" "fjall_spec cont fl" "fjall_reliable fl"
    and tmp: "tmp = tmp_path cfg (open_stamp env)"
    and inv: "pass_inv fv wv cont jn tmp fs0 p0 exported buf (ROWS_PER_BATCH - 1) moved batches st"
    and res: "scan_item pq fl jn env cfg (Inr kv) st = (Inr n, st')"
  shows "\<exists>flushed buf' batches'. flushed @ buf' = buf @ [kv] \<and>
    pass_inv fv wv cont jn tmp fs0 p0 (exported @ flushed) buf' (ROWS_PER_BATCH - 1) (moved + n) batches' st'"
proof (cases "decode_key (fst kv)")
  case None
  then have "n = 0" "st' = st\<lparr>pending := (pending st)\<lparr>pb_removals := pb_removals (pending st) @ [fst kv]\<rparr>\<rparr>"
    using res by (auto simp: scan_item_def split: prod.splits)
  then have "pass_inv fv wv cont jn tmp fs0 p0 exported (buf @ [kv]) (ROWS_PER_BATCH - 1) (moved + n) batches st'"
    using inv None
    by (simp add: pass_inv_def aligned_def pending_len_def pending_rows_def expired_rows_append row_of_kv_def)
  then show ?thesis by (intro exI [of _ "[]"] exI [of _ "buf @ [kv]"] exI [of _ batches]) simp
next
  case (Some x)
  obtain t nm where x: "x = (t, nm)" by fastforce
  obtain v k l where dv: "decode_value jn (snd kv) = (v, k, l)" by (metis prod_cases3)
  define opened where "opened = (if export st = None
     then (case open_export_writer pq env cfg arrow_schema (ps_fs st) of
             (Inl e, fs) \<Rightarrow> (Inl e, st\<lparr>ps_fs := fs\<rparr>)
           | (Inr x, fs) \<Rightarrow> (Inr (), st\<lparr>export := Some x, ps_fs := fs\<rparr>))
     else (Inr (), st))"
  obtain st1 where op: "opened = (Inr (), st1)"
    and cont: "(let st2 = st1\<lparr>pending := pending_push t nm v k l (fst kv) (pending st1)\<rparr>
       in if ROWS_PER_BATCH \<le> pending_len (pending st2)
          then pending_flush pq fl st2 else (Inr 0, st2)) = (Inr n, st')"
    using res Some x dv unfolding scan_item_def opened_def
    by (auto simp: Let_def split: prod.splits sum.splits if_splits)
  have st1: "pending st1 = pending st" "ps_part st1 = ps_part st" "export st1 \<noteq> None"
    "written wv tmp (export st1) batches" "\<And>q. q \<noteq> tmp \<Longrightarrow> fv (ps_fs st1) q = fv fs0 q"
    using op inv open_export_ok [OF spec(1)]
    by (auto simp: opened_def pass_inv_def written_def tmp split: if_splits prod.splits sum.splits option.splits)
  let ?st2 = "st1\<lparr>pending := pending_push t nm v k l (fst kv) (pending st1)\<rparr>"
  have inv2: "pass_inv fv wv cont jn tmp fs0 p0 exported (buf @ [kv]) ROWS_PER_BATCH moved batches ?st2"
    using push_inv [OF inv Some [unfolded x] dv st1] by (simp add: ROWS_PER_BATCH_def)
  show ?thesis
  proof (cases "ROWS_PER_BATCH \<le> pending_len (pending ?st2)")
    case True
    then have "pending_flush pq fl ?st2 = (Inr n, st')" using cont by (simp add: Let_def)
    from flush_inv [OF spec inv2 _ _ this] True st1(3)
    have "pass_inv fv wv cont jn tmp fs0 p0 (exported @ buf @ [kv]) [] 0 (moved + n)
        (batches @ [pending_rows (pending ?st2)]) st'" by (auto simp: ROWS_PER_BATCH_def)
    then have "pass_inv fv wv cont jn tmp fs0 p0 (exported @ buf @ [kv]) [] (ROWS_PER_BATCH - 1) (moved + n)
        (batches @ [pending_rows (pending ?st2)]) st'" by (rule pass_inv_mono) simp
    then show ?thesis
      by (intro exI [of _ "buf @ [kv]"] exI [of _ "[]"] exI) simp
  next
    case False
    then have "pass_inv fv wv cont jn tmp fs0 p0 exported (buf @ [kv]) (ROWS_PER_BATCH - 1) (moved + n) batches st'"
      using cont pass_inv_mono [OF inv2, of "ROWS_PER_BATCH - 1"]
      by (auto simp: Let_def ROWS_PER_BATCH_def)
    then show ?thesis by (intro exI [of _ "[]"] exI [of _ "buf @ [kv]"] exI [of _ batches]) simp
  qed
qed

lemma scan_items_inv:
  assumes spec: "parquet_spec fv wv pq" "fjall_spec cont fl" "fjall_reliable fl"
    and tmp: "tmp = tmp_path cfg (open_stamp env)"
  shows "pass_inv fv wv cont jn tmp fs0 p0 exported buf (ROWS_PER_BATCH - 1) moved batches st \<Longrightarrow>
    scan_items pq fl jn env cfg (map Inr kvs) moved st = (Inr moved', st') \<Longrightarrow>
    \<exists>exported' buf' batches'. exported' @ buf' = exported @ buf @ kvs \<and>
      pass_inv fv wv cont jn tmp fs0 p0 exported' buf' (ROWS_PER_BATCH - 1) moved' batches' st'"
proof (induction kvs arbitrary: exported buf moved batches st)
  case Nil
  then show ?case by (intro exI [of _ exported] exI [of _ buf] exI [of _ batches]) simp
next
  case (Cons kv kvs)
  then obtain n st1 where st1: "scan_item pq fl jn env cfg (Inr kv) st = (Inr n, st1)"
    "scan_items pq fl jn env cfg (map Inr kvs) (moved + n) st1 = (Inr moved', st')"
    by (auto split: prod.splits sum.splits)
  from scan_item_inv [OF spec tmp Cons.prems(1) st1(1)] obtain flushed buf' batches' where
    s1: "flushed @ buf' = buf @ [kv]"
    "pass_inv fv wv cont jn tmp fs0 p0 (exported @ flushed) buf' (ROWS_PER_BATCH - 1) (moved + n) batches' st1" by blast
  from Cons.IH [OF s1(2) st1(2)] obtain e' b' bs' where
    "e' @ b' = (exported @ flushed) @ buf' @ kvs"
    "pass_inv fv wv cont jn tmp fs0 p0 e' b' (ROWS_PER_BATCH - 1) moved' bs' st'" by blast
  moreover have "(exported @ flushed) @ buf' @ kvs = exported @ buf @ kv # kvs"
    using arg_cong [OF s1(1), of "\<lambda>xs. xs @ kvs"] by simp
  ultimately show ?case by metis
qed

lemma scan_items_ok:
  assumes "scan_items pq fl jn env cfg items moved st = (Inr moved', st')"
  shows "items = map Inr (oks items)"
  using assms
proof (induction items arbitrary: moved st)
  case (Cons item items)
  then show ?case by (cases item) (auto simp: scan_item_def split: prod.splits sum.splits)
qed simp

text \<open>After the last flush: what is written and removed before the file is published.\<close>

definition ready ::
  "('fs \<Rightarrow> path \<rightharpoonup> row list) \<Rightarrow> ('w \<Rightarrow> path \<times> row list list) \<Rightarrow> ('p \<Rightarrow> byte list \<rightharpoonup> byte list)
     \<Rightarrow> json_api \<Rightarrow> path \<Rightarrow> 'fs \<Rightarrow> 'p \<Rightarrow> kv list \<Rightarrow> row list list \<Rightarrow> ('w, 'p, 'fs) pass_state \<Rightarrow> bool" where
  "ready fv wv cont jn tmp fs0 p0 kvs batches st \<longleftrightarrow>
     (\<forall>q. q \<noteq> tmp \<longrightarrow> fv (ps_fs st) q = fv fs0 q) \<and>
     written wv tmp (export st) batches \<and> list_all batch_ok batches \<and>
     concat batches = expired_rows jn kvs \<and>
     (export st = None \<longleftrightarrow> expired_rows jn kvs = []) \<and>
     (export st = None \<longrightarrow> fv (ps_fs st) = fv fs0 \<and> cont (ps_part st) = cont p0) \<and>
     (\<forall>k. k \<notin> fst ` set kvs \<longrightarrow> cont (ps_part st) k = cont p0 k) \<and>
     (\<forall>k \<in> fst ` set kvs. decode_key k \<noteq> None \<longrightarrow> cont (ps_part st) k = None) \<and>
     (\<forall>k. cont (ps_part st) k = None \<or> cont (ps_part st) k = cont p0 k)"

lemma last_flush:
  assumes spec: "parquet_spec fv wv pq" "fjall_spec cont fl" "fjall_reliable fl"
    and inv: "pass_inv fv wv cont jn tmp fs0 p0 exported buf (ROWS_PER_BATCH - 1) moved batches st"
    and res: "pending_flush pq fl st = (Inr n, st')"
  shows "\<exists>batches'. ready fv wv cont jn tmp fs0 p0 (exported @ buf) batches' st' \<and>
    moved + n = length (expired_rows jn (exported @ buf))"
proof (cases "pending_len (pending st) = 0")
  case True
  then have "n = 0" "st' = st\<lparr>pending := (pending st)\<lparr>pb_removals := []\<rparr>\<rparr>"
    using res by (simp_all add: pending_flush_def Let_def)
  moreover have "expired_rows jn buf = []"
    using inv True length_pending_rows [of "pending st"] by (simp add: pass_inv_def)
  moreover from this have "\<forall>kv \<in> set buf. decode_key (fst kv) = None" by (simp add: expired_rows_Nil)
  ultimately show ?thesis
    using inv by (intro exI [of _ batches]) (auto simp: pass_inv_def ready_def expired_rows_append)
next
  case False
  have inv2: "pass_inv fv wv cont jn tmp fs0 p0 exported buf ROWS_PER_BATCH moved batches st"
    using inv by (rule pass_inv_mono) simp
  have "export st \<noteq> None"
    using inv False length_pending_rows [of "pending st"] by (auto simp: pass_inv_def expired_rows_append)
  note f = flush_inv [OF spec inv2 False this res, unfolded pass_inv_def]
  let ?bs = "batches @ [pending_rows (pending st)]"
  have all: "expired_rows jn (exported @ buf) = concat ?bs" and m: "moved + n = length (concat ?bs)"
    and w: "written wv tmp (export st') ?bs" "list_all batch_ok ?bs"
    and q: "\<forall>q. q \<noteq> tmp \<longrightarrow> fv (ps_fs st') q = fv fs0 q"
    and c: "\<forall>k. cont (ps_part st') k = (if k \<in> fst ` set (exported @ buf) then None else cont p0 k)"
    using f by blast+
  have "concat ?bs \<noteq> []" "export st' \<noteq> None" using w by (auto simp: batch_ok_def written_def split: option.splits)
  then have "ready fv wv cont jn tmp fs0 p0 (exported @ buf) ?bs st'"
    unfolding ready_def using all w q c by auto
  then show ?thesis using m all by (intro exI [of _ ?bs]) simp
qed

section \<open>A whole pass\<close>

definition pass_start :: "'p \<Rightarrow> 'fs \<Rightarrow> ('w, 'p, 'fs) pass_state" where
  "pass_start part fs = \<lparr>pending = pending_new, export = None, ps_part = part, ps_fs = fs\<rparr>"

lemma pass_start_inv: "pass_inv fv wv cont jn tmp fs part [] [] m 0 [] (pass_start part fs)"
  by (simp add: pass_inv_def pass_start_def written_def) (simp add: pending_new_def)

lemma scan_phase:
  assumes spec: "parquet_spec fv wv pq" "fjall_spec cont fl" "fjall_reliable fl"
    and scan: "scan_items pq fl jn env cfg items 0 (pass_start part fs) = (Inr moved, st)"
    and flush: "pending_flush pq fl st = (Inr n, st1)"
  shows "\<exists>batches. ready fv wv cont jn (tmp_path cfg (open_stamp env)) fs part (oks items) batches st1 \<and>
    moved + n = length (expired_rows jn (oks items))"
proof -
  from scan_items_ok [OF scan] have "items = map Inr (oks items)" .
  with scan have s: "scan_items pq fl jn env cfg (map Inr (oks items)) 0 (pass_start part fs) = (Inr moved, st)" by simp
  from scan_items_inv [OF spec refl pass_start_inv s]
  obtain ex buf batches where "ex @ buf = oks items"
    "pass_inv fv wv cont jn (tmp_path cfg (open_stamp env)) fs part ex buf (ROWS_PER_BATCH - 1) moved batches st"
    by auto
  from last_flush [OF spec this(2) flush] this(1) show ?thesis by auto
qed

lemma tmp_not_final: "tmp_path cfg a \<noteq> final_path cfg' b"
  by (simp add: tmp_path_def final_path_def path_join_def PARQUET_FILE_PREFIX_def lit_def)

lemma finalize_ok:
  assumes spec: "parquet_spec fv wv pq" and w: "wv w = (tmp_path cfg stamp, batches)"
    and res: "finalize_export pq env cfg (tmp_path cfg stamp) w fs = (r, fs')"
  shows "(r = Inr () \<longrightarrow> fv fs' (final_path cfg (publish_stamp env)) = Some (concat batches)) \<and>
    (\<forall>q. q \<noteq> tmp_path cfg stamp \<and> (q \<noteq> final_path cfg (publish_stamp env) \<or> r \<noteq> Inr ()) \<longrightarrow> fv fs' q = fv fs q)"
proof -
  obtain rc fs1 where c: "writer_close pq w fs = (rc, fs1)" by fastforce
  obtain rr fs2 where rn: "rename_file pq (tmp_path cfg stamp) (final_path cfg (publish_stamp env)) fs1 = (rr, fs2)"
    by fastforce
  note p = parquet_specD [OF spec]
  show ?thesis
  proof (cases rc)
    case (Inl e)
    then show ?thesis using res c p(8) [OF c] w by (auto simp: finalize_export_def)
  next
    case (Inr u)
    show ?thesis
    proof (cases rr)
      case (Inl e)
      then show ?thesis using res c rn Inr p(8) [OF c] p(10) [OF rn [unfolded Inl]] w
        by (auto simp: finalize_export_def)
    next
      case (Inr u')
      then have rr: "rr = Inr ()" by simp
      then have "fv fs2 = (fv fs1)(tmp_path cfg stamp := None,
          final_path cfg (publish_stamp env) := fv fs1 (tmp_path cfg stamp))"
        using p(11) [OF rn [unfolded rr]] tmp_not_final by simp
      moreover have "fv fs1 (tmp_path cfg stamp) = Some (concat batches)"
        using p(9) [of w fs fs1] c \<open>rc = Inr u\<close> w by simp
      ultimately show ?thesis using res c rn Inr \<open>rc = Inr u\<close> p(8) [OF c] w
        by (auto simp: finalize_export_def)
    qed
  qed
qed

text \<open>The keys a pass scans: those below the bound, in order.\<close>

definition expired :: "(byte list \<rightharpoonup> byte list) \<Rightarrow> u64 \<Rightarrow> kv list \<Rightarrow> bool" where
  "expired m cutoff kvs \<longleftrightarrow>
     sorted_wrt (<) (map fst kvs) \<and>
     (\<forall>k v. (k, v) \<in> set kvs \<longleftrightarrow> k < utf8 (cutoff_prefix cutoff) \<and> m k = Some v)"

lemma scan_expired:
  assumes "fjall_spec cont fl" "fjall_reliable fl"
  shows "expired (cont part) cutoff (oks (part_range_to fl part (utf8 (cutoff_prefix cutoff))))"
  using range_scan [OF assms(1), of part "utf8 (cutoff_prefix cutoff)"] assms(2)
  unfolding scan_ok_def expired_def fjall_reliable_def by fast

lemma run_scan:
  assumes "cutoff_micros env cfg = Ret (Inr cutoff)" "create_dirs pq (cold_dir cfg) fs = (Inr u, fs1)"
    and "scan_items pq fl jn env cfg (part_range_to fl part (utf8 (cutoff_prefix cutoff))) 0
      (pass_start part fs1) = (Inr moved, st)"
    and "pending_flush pq fl st = (Inr n, st1)"
  shows "run_compaction_once_blocking pq fl jn env cfg part fs =
    (case export st1 of
       None \<Rightarrow> (Ret (Inr (moved + n)), ps_part st1, ps_fs st1)
     | Some (tmp, w) \<Rightarrow>
         (case finalize_export pq env cfg tmp w (ps_fs st1) of
            (Inl e, fs2) \<Rightarrow> (Ret (Inl e), ps_part st1, fs2)
          | (Inr _, fs2) \<Rightarrow> (Ret (Inr (moved + n)), snd (persist fl (ps_part st1)), fs2)))"
  using assms
  by (simp add: run_compaction_once_blocking_def finish_pass_def pass_start_def
      split: option.split prod.split sum.split)

lemma run_success:
  assumes "run_compaction_once_blocking pq fl jn env cfg part fs = (Ret (Inr n), part', fs')"
  obtains cutoff fs1 moved st m st1 where
    "cutoff_micros env cfg = Ret (Inr cutoff)" "create_dirs pq (cold_dir cfg) fs = (Inr (), fs1)"
    "scan_items pq fl jn env cfg (part_range_to fl part (utf8 (cutoff_prefix cutoff))) 0
      (pass_start part fs1) = (Inr moved, st)" "pending_flush pq fl st = (Inr m, st1)"
  using assms
  by (auto simp: run_compaction_once_blocking_def finish_pass_def pass_start_def
      split: res.splits sum.splits prod.splits)

subsection \<open>When every write succeeds\<close>

lemma Inr_fst: "(\<And>e. fst x \<noteq> Inl e) \<Longrightarrow> \<exists>y z. x = (Inr y, z)"
  by (cases x; cases "fst x") auto

lemma writableD:
  assumes "parquet_writable pq"
  shows "\<exists>fs'. create_dirs pq p fs = (Inr (), fs')" "\<exists>fs'. file_create pq p fs = (Inr (), fs')"
    and "\<exists>w fs'. writer_new pq p sch fs = (Inr w, fs')"
    and "\<exists>w' fs'. writer_write pq b w fs = (Inr w', fs')"
  using assms Inr_fst [of "create_dirs pq p fs"] Inr_fst [of "file_create pq p fs"]
    Inr_fst [of "writer_new pq p sch fs"] Inr_fst [of "writer_write pq b w fs"]
  unfolding parquet_writable_def by auto

lemma flush_total:
  assumes spec: "parquet_spec fv wv pq" and wr: "parquet_writable pq"
    and inv: "pass_inv fv wv cont jn tmp fs0 p0 exported buf m moved batches st"
  shows "\<exists>n st'. pending_flush pq fl st = (Inr n, st')"
proof (cases "pending_len (pending st) = 0")
  case False
  have al: "aligned (pending st)" using inv by (simp add: pass_inv_def)
  have "export st \<noteq> None"
    using inv False length_pending_rows [OF al] by (auto simp: pass_inv_def expired_rows_append)
  then obtain t w where w: "export st = Some (t, w)" by auto
  obtain w' fs' where "writer_write pq (pending_rows (pending st)) w (ps_fs st) = (Inr w', fs')"
    using writableD(4) [OF wr] by blast
  then show ?thesis
    using False by (simp add: pending_flush_def Let_def parquet_specD(1) [OF spec al] w)
qed (simp add: pending_flush_def Let_def)

lemma scan_item_total:
  assumes spec: "parquet_spec fv wv pq" and wr: "parquet_writable pq"
    and tmp: "tmp = tmp_path cfg (open_stamp env)"
    and inv: "pass_inv fv wv cont jn tmp fs0 p0 exported buf m moved batches st"
  shows "\<exists>n st'. scan_item pq fl jn env cfg (Inr kv) st = (Inr n, st')"
proof (cases "decode_key (fst kv)")
  case (Some x)
  obtain t nm where x: "x = (t, nm)" by fastforce
  obtain v k l where dv: "decode_value jn (snd kv) = (v, k, l)" by (metis prod_cases3)
  have "\<exists>y fs'. open_export_writer pq env cfg arrow_schema fs = (Inr y, fs')" for fs
  proof -
    obtain fs1 where f: "file_create pq (tmp_path cfg (open_stamp env)) fs = (Inr (), fs1)"
      using writableD(2) [OF wr] by blast
    obtain w fs2 where "writer_new pq (tmp_path cfg (open_stamp env)) arrow_schema fs1 = (Inr w, fs2)"
      using writableD(3) [OF wr] by blast
    with f show ?thesis by (simp add: open_export_writer_def Let_def)
  qed
  then obtain y fs' where op: "open_export_writer pq env cfg arrow_schema (ps_fs st) = (Inr y, fs')" by blast
  define st1 where "st1 = (if export st = None then st\<lparr>export := Some y, ps_fs := fs'\<rparr> else st)"
  let ?st2 = "st1\<lparr>pending := pending_push t nm v k l (fst kv) (pending st1)\<rparr>"
  have st1: "pending st1 = pending st" "ps_part st1 = ps_part st" "export st1 \<noteq> None"
    "written wv tmp (export st1) batches" "\<And>q. q \<noteq> tmp \<Longrightarrow> fv (ps_fs st1) q = fv fs0 q"
    using inv open_export_ok [OF spec, of env cfg "ps_fs st" "fst y" "snd y" fs'] op
    by (auto simp: st1_def pass_inv_def written_def tmp split: option.splits)
  have "pass_inv fv wv cont jn tmp fs0 p0 exported (buf @ [kv]) (Suc m) moved batches ?st2"
    using push_inv [OF inv Some [unfolded x] dv st1] by simp
  from flush_total [OF spec wr this] obtain n st' where "pending_flush pq fl ?st2 = (Inr n, st')" by blast
  moreover have "scan_item pq fl jn env cfg (Inr kv) st =
      (if ROWS_PER_BATCH \<le> pending_len (pending ?st2) then pending_flush pq fl ?st2 else (Inr 0, ?st2))"
    using Some x dv op by (cases kv) (simp add: scan_item_def st1_def Let_def)
  ultimately show ?thesis by simp
qed (auto simp: scan_item_def split: prod.split)

lemma scan_items_total:
  assumes spec: "parquet_spec fv wv pq" "fjall_spec cont fl" "fjall_reliable fl" and wr: "parquet_writable pq"
    and tmp: "tmp = tmp_path cfg (open_stamp env)"
  shows "pass_inv fv wv cont jn tmp fs0 p0 exported buf (ROWS_PER_BATCH - 1) moved batches st \<Longrightarrow>
    \<exists>moved' st' ex' buf' bs'. scan_items pq fl jn env cfg (map Inr kvs) moved st = (Inr moved', st') \<and>
      pass_inv fv wv cont jn tmp fs0 p0 ex' buf' (ROWS_PER_BATCH - 1) moved' bs' st'"
proof (induction kvs arbitrary: exported buf moved batches st)
  case Nil
  then show ?case by auto
next
  case (Cons kv kvs)
  obtain n st1 where s: "scan_item pq fl jn env cfg (Inr kv) st = (Inr n, st1)"
    using scan_item_total [OF spec(1) wr tmp Cons.prems] by blast
  from scan_item_inv [OF spec tmp Cons.prems s] obtain flushed buf' bs' where
    "pass_inv fv wv cont jn tmp fs0 p0 (exported @ flushed) buf' (ROWS_PER_BATCH - 1) (moved + n) bs' st1" by blast
  from Cons.IH [OF this] obtain m' st' e' b' bs'' where
    "scan_items pq fl jn env cfg (map Inr kvs) (moved + n) st1 = (Inr m', st')"
    "pass_inv fv wv cont jn tmp fs0 p0 e' b' (ROWS_PER_BATCH - 1) m' bs'' st'" by blast
  moreover from this(1) have "scan_items pq fl jn env cfg (map Inr (kv # kvs)) moved st = (Inr m', st')"
    unfolding list.map scan_items.simps s by simp
  ultimately show ?case by blast
qed

lemma reliable_items:
  assumes "fjall_reliable fl"
  shows "part_range_to fl part b = map Inr (oks (part_range_to fl part b))"
proof -
  have all: "(\<forall>e. Inl e \<notin> set xs) \<Longrightarrow> xs = map Inr (oks xs)" for xs :: "('e + 'x) list"
    by (induction xs rule: oks.induct) auto
  have "\<forall>e. Inl e \<notin> set (part_range_to fl part b)" using assms by (simp add: fjall_reliable_def)
  then show ?thesis by (rule all)
qed

lemma run_reaches_publish:
  assumes spec: "parquet_spec fv wv pq" "fjall_spec cont fl" "fjall_reliable fl" and wr: "parquet_writable pq"
    and cut: "cutoff_micros env cfg = Ret (Inr cutoff)"
  obtains fs1 moved st n st1 where "create_dirs pq (cold_dir cfg) fs = (Inr (), fs1)"
    "scan_items pq fl jn env cfg (part_range_to fl part (utf8 (cutoff_prefix cutoff))) 0
      (pass_start part fs1) = (Inr moved, st)" "pending_flush pq fl st = (Inr n, st1)"
proof -
  obtain fs1 where c: "create_dirs pq (cold_dir cfg) fs = (Inr (), fs1)" using writableD(1) [OF wr] by blast
  from scan_items_total [OF spec wr refl pass_start_inv [of fv wv cont jn _ fs1 part],
      where kvs = "oks (part_range_to fl part (utf8 (cutoff_prefix cutoff)))" and env = env and cfg = cfg]
  obtain moved st ex buf bs where s: "scan_items pq fl jn env cfg (part_range_to fl part (utf8 (cutoff_prefix cutoff))) 0
      (pass_start part fs1) = (Inr moved, st)"
    "pass_inv fv wv cont jn (tmp_path cfg (open_stamp env)) fs1 part ex buf (ROWS_PER_BATCH - 1) moved bs st"
    by (auto simp flip: reliable_items [OF spec(3)])
  from flush_total [OF spec(1) wr s(2)] obtain n st1 where "pending_flush pq fl st = (Inr n, st1)" by blast
  with c s(1) show ?thesis by (rule that)
qed

lemma run_returns:
  assumes spec: "parquet_spec fv wv pq" "fjall_spec cont fl" "fjall_reliable fl" and wr: "parquet_writable pq"
    and cut: "cutoff_micros env cfg = Ret (Inr cutoff)"
    and pub: "\<And>t w fs. fst (finalize_export pq env cfg t w fs) = Inr ()"
  shows "\<exists>n part' fs'. run_compaction_once_blocking pq fl jn env cfg part fs = (Ret (Inr n), part', fs')"
proof -
  obtain fs1 moved st n st1 where s: "create_dirs pq (cold_dir cfg) fs = (Inr (), fs1)"
    "scan_items pq fl jn env cfg (part_range_to fl part (utf8 (cutoff_prefix cutoff))) 0
      (pass_start part fs1) = (Inr moved, st)" "pending_flush pq fl st = (Inr n, st1)"
    using run_reaches_publish [OF spec wr cut] by blast
  show ?thesis
  proof (cases "export st1")
    case None
    then show ?thesis using run_scan [OF cut s] by simp
  next
    case (Some x)
    obtain fs2 where "finalize_export pq env cfg (fst x) (snd x) (ps_fs st1) = (Inr (), fs2)"
      using pub [of "fst x" "snd x" "ps_fs st1"] by (metis prod.collapse)
    then show ?thesis using run_scan [OF cut s] Some by (simp add: split_beta)
  qed
qed

text \<open>
  A Parquet crate in memory, on which the pass is evaluated: the files are a map, and
  renaming can be made to fail.
\<close>

definition ref_parquet :: "bool \<Rightarrow> (path \<times> row list list, path \<rightharpoonup> row list) parquet_api" where
  "ref_parquet rename_ok =
     \<lparr>create_dirs = (\<lambda>p fs. (Inr (), fs)),
      file_create = (\<lambda>p fs. (Inr (), fs(p := None))),
      writer_new = (\<lambda>p sch fs. (Inr (p, []), fs)),
      batch_new = (\<lambda>sch ts ns vs ks ls.
        if length ns = length ts \<and> length vs = length ts \<and> length ks = length ts \<and> length ls = length ts
        then Inr (rows_of ts ns vs ks ls) else Inl (lit ''all columns must have the same length'')),
      writer_write = (\<lambda>b w fs. (Inr (fst w, snd w @ [b]), fs)),
      writer_close = (\<lambda>w fs. (Inr (), fs(fst w \<mapsto> concat (snd w)))),
      rename_file = (\<lambda>a b fs. if rename_ok then (Inr (), fs(a := None, b := fs a)) else (Inl (lit ''EIO''), fs)),
      read_dir = (\<lambda>p fs. Inr [])\<rparr>"

lemma ref_parquet_spec: "parquet_spec id id (ref_parquet ok)"
  by (auto simp: parquet_spec_def ref_parquet_def)

lemma ref_parquet_writable: "parquet_writable (ref_parquet ok)"
  by (simp add: parquet_writable_def ref_parquet_def)

definition demo_env :: pass_env where
  "demo_env = \<lparr>utc_now = 86400000010000, open_stamp = lit ''20240101T000000'',
     publish_stamp = lit ''20240101T000001'', duration_from_std = (\<lambda>n. Inr (int n)),
     sub_duration = (\<lambda>a b. Ret (a - b))\<rparr>"

definition demo_cfg :: fjall_config where
  "demo_cfg = fjall_config_new [Normal (lit ''data'')]"

lemma demo_cutoff: "cutoff_micros demo_env demo_cfg = Ret (Inr 10)"
  by (simp add: cutoff_micros_def demo_env_def demo_cfg_def fjall_config_new_def fjall_config_default_def from_secs_def)

definition demo_key :: "byte list" where
  "demo_key = encode_key 7 0 (lit ''up'')"

definition demo_part :: kv_store where
  "demo_part = store_insert demo_key (encode_value (json_table demo_table) demo_sample) store_empty"

lemma store_map_demo: "store_map demo_part = [demo_key \<mapsto> encode_value (json_table demo_table) demo_sample]"
  by (simp add: store_map_def demo_part_def store_insert.rep_eq store_empty.rep_eq)

lemma demo_key_decodes: "decode_key demo_key = Some (7, lit ''up'')"
  unfolding demo_key_def by (rule decode_encode_key) (simp add: lit_def is_scalar_def)

lemma demo_key_expired: "demo_key < utf8 (cutoff_prefix 10)"
  unfolding demo_key_def by (simp add: fjall_key.enc_less_bound)

lemma distinct_singleton: "set xs = {x} \<Longrightarrow> distinct xs \<Longrightarrow> xs = [x]"
  by (cases xs; cases "tl xs") auto

lemma expired_demo:
  assumes "expired (store_map demo_part) 10 kvs"
  shows "kvs = [(demo_key, encode_value (json_table demo_table) demo_sample)]"
proof -
  have "(k, v) \<in> set kvs \<longleftrightarrow> k < utf8 (cutoff_prefix 10) \<and> store_map demo_part k = Some v" for k v
    using assms unfolding expired_def by blast
  then have "x \<in> set kvs \<longleftrightarrow> x = (demo_key, encode_value (json_table demo_table) demo_sample)" for x
    by (cases x) (auto simp: store_map_demo demo_key_expired)
  then have "set kvs = {(demo_key, encode_value (json_table demo_table) demo_sample)}" by blast
  moreover have "distinct kvs"
    using assms by (auto simp: expired_def strict_sorted_iff distinct_map)
  ultimately show ?thesis by (rule distinct_singleton)
qed

text \<open>What a successful pass has done.\<close>

lemma compaction_exports:
  assumes "parquet_spec fv wv pq" and "fjall_spec cont fl" and "fjall_reliable fl"
    and "run_compaction_once_blocking pq fl jn env cfg part fs = (Ret (Inr n), part', fs')"
  shows "\<exists>cutoff kvs. cutoff_micros env cfg = Ret (Inr cutoff) \<and> expired (cont part) cutoff kvs \<and>
    n = length (expired_rows jn kvs) \<and>
    (if expired_rows jn kvs = [] then fv fs' = fv fs \<and> cont part' = cont part
     else fv fs' (final_path cfg (publish_stamp env)) = Some (expired_rows jn kvs) \<and>
       (\<forall>q. q \<noteq> tmp_path cfg (open_stamp env) \<and> q \<noteq> final_path cfg (publish_stamp env) \<longrightarrow> fv fs' q = fv fs q) \<and>
       (\<forall>k. k \<notin> fst ` set kvs \<longrightarrow> cont part' k = cont part k) \<and>
       (\<forall>k \<in> fst ` set kvs. decode_key k \<noteq> None \<longrightarrow> cont part' k = None))"
proof -
  obtain cutoff fs1 moved st m st1 where s:
    "cutoff_micros env cfg = Ret (Inr cutoff)" "create_dirs pq (cold_dir cfg) fs = (Inr (), fs1)"
    "scan_items pq fl jn env cfg (part_range_to fl part (utf8 (cutoff_prefix cutoff))) 0
      (pass_start part fs1) = (Inr moved, st)" "pending_flush pq fl st = (Inr m, st1)"
    using run_success [OF assms(4)] by blast
  let ?kvs = "oks (part_range_to fl part (utf8 (cutoff_prefix cutoff)))"
  have fv1: "fv fs1 = fv fs" by (rule parquet_specD(2) [OF assms(1) s(2)])
  obtain batches where r: "ready fv wv cont jn (tmp_path cfg (open_stamp env)) fs1 part ?kvs batches st1"
    "moved + m = length (expired_rows jn ?kvs)" using scan_phase [OF assms(1-3) s(3,4)] by blast
  note run = run_scan [OF s(1-4)]
  have "n = length (expired_rows jn ?kvs) \<and>
    (if expired_rows jn ?kvs = [] then fv fs' = fv fs \<and> cont part' = cont part
     else fv fs' (final_path cfg (publish_stamp env)) = Some (expired_rows jn ?kvs) \<and>
       (\<forall>q. q \<noteq> tmp_path cfg (open_stamp env) \<and> q \<noteq> final_path cfg (publish_stamp env) \<longrightarrow> fv fs' q = fv fs q) \<and>
       (\<forall>k. k \<notin> fst ` set ?kvs \<longrightarrow> cont part' k = cont part k) \<and>
       (\<forall>k \<in> fst ` set ?kvs. decode_key k \<noteq> None \<longrightarrow> cont part' k = None))"
  proof (cases "export st1")
    case None
    then show ?thesis using assms(4) run r fv1 by (auto simp: ready_def)
  next
    case (Some x)
    obtain t w where x: "x = (t, w)" by fastforce
    then have w: "t = tmp_path cfg (open_stamp env)" "wv w = (tmp_path cfg (open_stamp env), batches)"
      using r(1) Some by (simp_all add: ready_def written_def)
    obtain rf fs2 where f: "finalize_export pq env cfg (tmp_path cfg (open_stamp env)) w (ps_fs st1) = (rf, fs2)" by fastforce
    then have "rf = Inr ()" "fs' = fs2" "part' = snd (persist fl (ps_part st1))" "n = moved + m"
      using assms(4) run Some x w by (auto split: sum.splits)
    then show ?thesis
      using finalize_ok [OF assms(1) w(2) f] r Some fv1 persist_contents [OF assms(2)]
      by (auto simp: ready_def)
  qed
  then show ?thesis using s(1) scan_expired [OF assms(2,3)] by blast
qed

section \<open>Names of exports\<close>

definition export_name :: "rstr \<Rightarrow> rstr" where
  "export_name stamp = PARQUET_FILE_PREFIX @ stamp @ lit ''.parquet''"

lemma final_path_export: "final_path cfg stamp = path_join (cold_dir cfg) (export_name stamp)"
  by (simp add: final_path_def export_name_def)

lemma file_extension_append:
  assumes "46 \<notin> set ext" "s \<noteq> []"
  shows "file_extension (s @ [46] @ ext) = Some ext"
proof -
  have "takeWhile (\<lambda>c. c \<noteq> 46) (rev (s @ [46] @ ext)) = rev ext"
    using assms(1) takeWhile_append2 [of "rev ext" "\<lambda>c. c \<noteq> 46" "46 # rev s"] by auto
  then show ?thesis using assms(2) by (simp add: file_extension_def Let_def)
qed

lemma export_name_cold: "is_cold_file (export_name stamp)"
proof -
  have "file_extension ((PARQUET_FILE_PREFIX @ stamp) @ [46] @ lit ''parquet'') = Some (lit ''parquet'')"
    by (rule file_extension_append) (simp_all add: lit_def PARQUET_FILE_PREFIX_def)
  then show ?thesis by (simp add: is_cold_file_def starts_with_def export_name_def lit_def)
qed

lemma tmp_name_not_cold: "\<not> is_cold_file (lit ''.'' @ PARQUET_FILE_PREFIX @ stamp @ lit ''.parquet.tmp'')"
  by (simp add: is_cold_file_def starts_with_def lit_def PARQUET_FILE_PREFIX_def)

lemma export_name_less:
  assumes "is_ascii s" "is_ascii t" "length s = length t"
  shows "utf8 (export_name s) < utf8 (export_name t) \<longleftrightarrow> s < t"
proof -
  have "map of_nat s < (map of_nat t :: byte list) \<longleftrightarrow> s < t"
    using assms(1,2) by (intro map_less_iff of_nat_byte_less) (auto simp: is_ascii_iff)
  then show ?thesis
    using assms by (simp add: export_name_def utf8_ascii list_less_append_fixed)
qed

lemma max_name_eq: "max_name xs = Some x \<Longrightarrow> x \<in> set xs \<and> (\<forall>y \<in> set xs. \<not> utf8 x < utf8 y)"
proof (induction xs arbitrary: x)
  case (Cons z xs)
  show ?case
  proof (cases "max_name xs")
    case None
    then have "xs = []" by (cases xs) (auto split: option.splits if_splits)
    then show ?thesis using Cons.prems by simp
  next
    case (Some y)
    then show ?thesis using Cons.IH [OF Some] Cons.prems by (auto split: if_splits)
  qed
qed simp

lemma max_name_None: "max_name xs = None \<longleftrightarrow> xs = []"
  by (cases xs) (auto split: option.splits if_splits)

lemma latest_cold_file_newest:
  assumes "read_dir pq cdir fs = Inr entries"
    and names: "{nm \<in> set (oks entries). is_cold_file nm} = export_name ` S"
    and stamps: "\<forall>s \<in> S. is_ascii s \<and> length s = k"
  shows "latest_cold_file pq cdir fs = (if S = {} then None else Some (path_join cdir (export_name (Max S))))"
proof (cases "S = {}")
  case True
  then have "filter is_cold_file (oks entries) = []" using names by (auto simp: filter_empty_conv)
  then show ?thesis using assms(1) True by (simp add: latest_cold_file_def)
next
  case False
  have set: "set (filter is_cold_file (oks entries)) = export_name ` S" using names by auto
  then obtain nm where nm: "max_name (filter is_cold_file (oks entries)) = Some nm"
    using False max_name_None by (metis image_is_empty option.exhaust set_empty)
  then obtain s where s: "s \<in> S" "nm = export_name s" "\<forall>t \<in> S. \<not> utf8 nm < utf8 (export_name t)"
    using max_name_eq [OF nm] unfolding set by auto
  have "finite (export_name ` S)" using set by (metis List.finite_set)
  moreover have "inj_on export_name S" by (auto simp: inj_on_def export_name_def)
  ultimately have "finite S" by (rule finite_imageD)
  moreover have "t \<le> s" if "t \<in> S" for t
    using that s stamps export_name_less [of s t] by (metis not_le_imp_less)
  ultimately have "Max S = s" using s(1) by (intro Max_eqI) auto
  then show ?thesis using assms(1) nm s(2) False by (simp add: latest_cold_file_def)
qed

section \<open>Properties\<close>

text \<open>
  C8: a pass that returns \<open>Ok(n)\<close> has scanned exactly the samples older than the
  cutoff, in key order; \<open>n\<close> is the number of those whose key decodes. If there is none,
  no file and no key changed. Otherwise the published file holds their rows in that order,
  every other file but the temporary one is as before, their keys are gone from the
  partition, and every sample that is not older than the cutoff is still there.
\<close>

theorem compaction_exports_exactly:
  assumes "parquet_spec fv wv pq" and "fjall_spec cont fl" and "fjall_reliable fl"
    and "run_compaction_once_blocking pq fl jn env cfg part fs = (Ret (Inr n), part', fs')"
  shows "\<exists>cutoff kvs. cutoff_micros env cfg = Ret (Inr cutoff) \<and> expired (cont part) cutoff kvs \<and>
    n = length (expired_rows jn kvs) \<and>
    (if expired_rows jn kvs = [] then fv fs' = fv fs \<and> cont part' = cont part
     else fv fs' (final_path cfg (publish_stamp env)) = Some (expired_rows jn kvs) \<and>
       (\<forall>q. q \<noteq> tmp_path cfg (open_stamp env) \<and> q \<noteq> final_path cfg (publish_stamp env) \<longrightarrow> fv fs' q = fv fs q) \<and>
       (\<forall>k. k \<notin> fst ` set kvs \<longrightarrow> cont part' k = cont part k) \<and>
       (\<forall>k \<in> fst ` set kvs. decode_key k \<noteq> None \<longrightarrow> cont part' k = None))"
  using assms by (rule compaction_exports)

theorem compaction_exports_exactly_witness:
  "\<exists>part' fs'. run_compaction_once_blocking (ref_parquet True) ref_fjall (json_table demo_table) demo_env demo_cfg
      demo_part Map.empty = (Ret (Inr 1), part', fs') \<and>
    fs' (final_path demo_cfg (lit ''20240101T000001'')) =
      Some [\<lparr>r_ts = 7, r_name = lit ''up'', r_value = Fin 1, r_kind = lit ''gauge'', r_labels = lit ''{k:v}''\<rparr>] \<and>
    store_map part' demo_key = None"
proof -
  have "fst (finalize_export (ref_parquet True) demo_env demo_cfg t w fs) = Inr ()" for t w fs
    by (simp add: finalize_export_def ref_parquet_def)
  then obtain n part' fs' where run: "run_compaction_once_blocking (ref_parquet True) ref_fjall (json_table demo_table)
      demo_env demo_cfg demo_part Map.empty = (Ret (Inr n), part', fs')"
    using run_returns [OF ref_parquet_spec ref_fjall_spec ref_fjall_reliable ref_parquet_writable demo_cutoff] by blast
  have row: "expired_rows (json_table demo_table) [(demo_key, encode_value (json_table demo_table) demo_sample)] =
      [\<lparr>r_ts = 7, r_name = lit ''up'', r_value = Fin 1, r_kind = lit ''gauge'', r_labels = lit ''{k:v}''\<rparr>]"
    by (simp add: row_of_kv_def demo_key_decodes decode_encode_value [OF json_floats_table json_exact_demo] i64_or_max_def)
       (simp add: demo_sample_def as_str_def labels_object_demo, simp add: json_table_def demo_table_def)
  note ex = compaction_exports_exactly [OF ref_parquet_spec ref_fjall_spec ref_fjall_reliable run,
      unfolded demo_cutoff id_apply]
  have st: "publish_stamp demo_env = lit ''20240101T000001''" by (simp add: demo_env_def)
  from ex show ?thesis
  proof (elim exE conjE)
    fix cutoff' kvs'
    assume c: "Ret (Inr 10) = Ret (Inr cutoff')" and e': "expired (store_map demo_part) cutoff' kvs'"
      and n: "n = length (expired_rows (json_table demo_table) kvs')"
      and r: "if expired_rows (json_table demo_table) kvs' = []
        then fs' = Map.empty \<and> store_map part' = store_map demo_part
        else fs' (final_path demo_cfg (publish_stamp demo_env)) = Some (expired_rows (json_table demo_table) kvs') \<and>
          (\<forall>q. q \<noteq> tmp_path demo_cfg (open_stamp demo_env) \<and> q \<noteq> final_path demo_cfg (publish_stamp demo_env) \<longrightarrow>
            fs' q = Map.empty q) \<and>
          (\<forall>k. k \<notin> fst ` set kvs' \<longrightarrow> store_map part' k = store_map demo_part k) \<and>
          (\<forall>k \<in> fst ` set kvs'. decode_key k \<noteq> None \<longrightarrow> store_map part' k = None)"
    have k': "kvs' = [(demo_key, encode_value (json_table demo_table) demo_sample)]"
      using c e' expired_demo by simp
    show ?thesis
      using run n r unfolding k' row st by (simp add: demo_key_decodes)
  qed
qed

text \<open>
  C21: when the rows can be written but publishing fails (closing the file, or renaming
  it), the pass returns the error after the keys have already been removed: the expired
  samples are gone from the partition and no published file has changed.
\<close>

theorem compaction_loses_unpublished_rows:
  assumes "parquet_spec fv wv pq" and "fjall_spec cont fl" and "fjall_reliable fl" and "parquet_writable pq"
    and "cutoff_micros env cfg = Ret (Inr cutoff)"
    and "\<And>t w fs. \<exists>e fs'. finalize_export pq env cfg t w fs = (Inl e, fs')"
    and "k < utf8 (cutoff_prefix cutoff)" and "cont part k \<noteq> None" and "decode_key k \<noteq> None"
  shows "\<exists>e part' fs'. run_compaction_once_blocking pq fl jn env cfg part fs = (Ret (Inl e), part', fs') \<and>
    cont part' k = None \<and> (\<forall>q. q \<noteq> tmp_path cfg (open_stamp env) \<longrightarrow> fv fs' q = fv fs q)"
proof -
  obtain fs1 moved st n st1 where s: "create_dirs pq (cold_dir cfg) fs = (Inr (), fs1)"
    "scan_items pq fl jn env cfg (part_range_to fl part (utf8 (cutoff_prefix cutoff))) 0
      (pass_start part fs1) = (Inr moved, st)" "pending_flush pq fl st = (Inr n, st1)"
    using run_reaches_publish [OF assms(1-5)] by blast
  let ?kvs = "oks (part_range_to fl part (utf8 (cutoff_prefix cutoff)))"
  have fv1: "fv fs1 = fv fs" by (rule parquet_specD(2) [OF assms(1) s(1)])
  obtain batches where r: "ready fv wv cont jn (tmp_path cfg (open_stamp env)) fs1 part ?kvs batches st1"
    using scan_phase [OF assms(1-3) s(2,3)] by blast
  obtain v where "cont part k = Some v" using assms(8) by auto
  then have kv: "(k, v) \<in> set ?kvs"
    using scan_expired [OF assms(2,3)] assms(7) unfolding expired_def by blast
  then have k: "k \<in> fst ` set ?kvs" by force
  then have "expired_rows jn ?kvs \<noteq> []" using assms(9) by (auto simp: expired_rows_Nil)
  then obtain t w where x: "export st1 = Some (t, w)" using r by (auto simp: ready_def)
  then have w: "t = tmp_path cfg (open_stamp env)" "wv w = (tmp_path cfg (open_stamp env), batches)"
    using r by (simp_all add: ready_def written_def)
  obtain e fs2 where f: "finalize_export pq env cfg (tmp_path cfg (open_stamp env)) w (ps_fs st1) = (Inl e, fs2)"
    using assms(6) by blast
  have "run_compaction_once_blocking pq fl jn env cfg part fs = (Ret (Inl e), ps_part st1, fs2)"
    using run_scan [OF assms(5) s] by (simp add: x w(1) f)
  moreover have "\<forall>k \<in> fst ` set ?kvs. decode_key k \<noteq> None \<longrightarrow> cont (ps_part st1) k = None"
    using r unfolding ready_def by (elim conjE)
  from bspec [OF this k] have "cont (ps_part st1) k = None" using assms(9) by (rule mp)
  moreover have "\<forall>q. q \<noteq> tmp_path cfg (open_stamp env) \<longrightarrow> fv fs2 q = fv fs q"
    using finalize_ok [OF assms(1) w(2) f] r fv1 by (simp add: ready_def)
  ultimately show ?thesis by blast
qed

theorem compaction_loses_unpublished_rows_witness:
  "\<exists>e part' fs'. run_compaction_once_blocking (ref_parquet False) ref_fjall (json_table demo_table) demo_env demo_cfg
      demo_part Map.empty = (Ret (Inl e), part', fs') \<and>
    store_map part' demo_key = None \<and>
    (\<forall>q. q \<noteq> tmp_path demo_cfg (open_stamp demo_env) \<longrightarrow> fs' q = None)"
proof -
  have fin: "\<exists>e fs'. finalize_export (ref_parquet False) demo_env demo_cfg t w fs = (Inl e, fs')" for t w fs
    by (simp add: finalize_export_def ref_parquet_def)
  have "store_map demo_part demo_key \<noteq> None" "decode_key demo_key \<noteq> None"
    by (simp_all add: store_map_demo demo_key_decodes)
  from compaction_loses_unpublished_rows [OF ref_parquet_spec ref_fjall_spec ref_fjall_reliable
      ref_parquet_writable demo_cutoff fin demo_key_expired this, of "json_table demo_table" Map.empty]
  show ?thesis by simp
qed



end
