(* ===== verification/Middleware.thy ===== *)
theory Middleware
  imports Visitors Compaction
begin

text \<open>
  \<open>src/middleware/axum.rs\<close> and \<open>src/middleware/actix.rs\<close>: the tracking
  middlewares, the scrape handlers and the route that serves the newest export. What a
  framework does with a request is an argument: the rest of the chain maps a request and
  the state to the outcome of awaiting it. Requests carry what the middlewares read.
\<close>

type_synonym u16 = "16 word"

section \<open>Requests, responses and awaiting\<close>

text \<open>\<open>to_string\<close> of an unsigned integer\<close>

fun dec_digits :: "nat \<Rightarrow> rstr" where
  "dec_digits n = (if n < 10 then [48 + n] else dec_digits (n div 10) @ [48 + n mod 10])"

declare dec_digits.simps [simp del]

text \<open>\<open>std::net::SocketAddr\<close>, the address as its \<open>Display\<close>, with scope and port.\<close>

datatype socket_addr = V4 rstr u16 | V6 rstr u32 u16

fun socket_addr_str :: "socket_addr \<Rightarrow> rstr" where
  "socket_addr_str (V4 ip port) = ip @ [58] @ dec_digits (unat port)"
| "socket_addr_str (V6 ip scope port) =
     [91] @ ip @ (if scope = 0 then [] else [37] @ dec_digits (unat scope)) @ [93, 58] @ dec_digits (unat port)"

text \<open>
  \<open>route\<close> is the route template when the router matched one, \<open>connect_info\<close> axum's
  extension of that name, \<open>realip\<close> what actix's connection info answers.
\<close>

record ('hv, 'b) http_request =
  http_method :: rstr
  route :: "rstr option"
  uri_path :: rstr
  header :: "rstr \<Rightarrow> 'hv option"
  connect_info :: "socket_addr option"
  realip :: "rstr option"
  payload_of :: 'b

text \<open>Awaiting a future ends with its value, a panic, or by the caller dropping it.\<close>

datatype 'a fut = Done 'a | Unwound panic | Dropped

fun map_fut :: "('a \<Rightarrow> 'b) \<Rightarrow> 'a fut \<Rightarrow> 'b fut" where
  "map_fut f (Done x) = Done (f x)"
| "map_fut f (Unwound p) = Unwound p"
| "map_fut f Dropped = Dropped"

type_synonym ('pw, 'h, 'c, 'p) app = "tracker option \<times> ('pw, 'h, 'c, 'p) process"

text \<open>\<open>Duration::as_secs_f64() * 1000.0\<close> of seconds and nanoseconds.\<close>

definition elapsed_ms :: "float_env \<Rightarrow> nat \<times> nat \<Rightarrow> f64" where
  "elapsed_ms fe t =
     Fin (fl fe (fl fe (fl fe (real (fst t)) + fl fe (real (snd t) / 1000000000)) * 1000))"

definition status_str :: "u16 \<Rightarrow> rstr" where
  "status_str s = dec_digits (unat s)"

definition truncate_path :: "rstr \<Rightarrow> rstr res" where
  "truncate_path p = (if 128 < str_len p then str_slice_to 128 p else Ret p)"

section \<open>Axum\<close>

text \<open>The two observations at the end of \<open>track\<close>; the clock is read once for each.\<close>

definition axum_observe ::
  "('pw, 'h, 'c, 'p) deps \<Rightarrow> int \<times> int \<Rightarrow> rstr \<Rightarrow> rstr \<Rightarrow> rstr \<Rightarrow> f64
     \<Rightarrow> ('pw, 'h, 'c, 'p) process \<Rightarrow> unit res \<times> ('pw, 'h, 'c, 'p) process" where
  "axum_observe d now mthd path status ms s =
     (case record_counter d (fst now) (lit ''http_requests_total'') (Fin 1)
             [(lit ''method'', mthd), (lit ''path'', path), (lit ''status'', status)] s of
        (Panicked p, s1) \<Rightarrow> (Panicked p, s1)
      | (Ret _, s1) \<Rightarrow>
          record_histogram d (snd now) (lit ''http_request_duration_ms'') ms
            [(lit ''method'', mthd), (lit ''path'', path)] s1)"

definition axum_track ::
  "('pw, 'h, 'c, 'p) deps \<Rightarrow> float_env \<Rightarrow> int \<times> int \<Rightarrow> nat \<times> nat \<Rightarrow> ('resp \<Rightarrow> u16)
     \<Rightarrow> (('hv, 'b) http_request \<Rightarrow> ('pw, 'h, 'c, 'p) app \<Rightarrow> 'resp fut \<times> ('pw, 'h, 'c, 'p) app)
     \<Rightarrow> ('hv, 'b) http_request \<Rightarrow> ('pw, 'h, 'c, 'p) app \<Rightarrow> 'resp fut \<times> ('pw, 'h, 'c, 'p) app" where
  "axum_track d fe now elapsed status_of next req st =
     (let mthd = http_method req
      in case (case route req of Some m \<Rightarrow> Ret m | None \<Rightarrow> truncate_path (uri_path req)) of
           Panicked p \<Rightarrow> (Unwound p, st)
         | Ret path \<Rightarrow>
             (case next req st of
                (Unwound p, st1) \<Rightarrow> (Unwound p, st1)
              | (Dropped, st1) \<Rightarrow> (Dropped, st1)
              | (Done response, g, s) \<Rightarrow>
                  (case axum_observe d now mthd path (status_str (status_of response)) (elapsed_ms fe elapsed) s of
                     (Panicked p, s1) \<Rightarrow> (Unwound p, g, s1)
                   | (Ret _, s1) \<Rightarrow> (Done response, g, s1))))"

text \<open>\<open>headers.get(name).and_then(|v| v.to_str().ok())\<close>\<close>

definition header_str ::
  "('hv \<Rightarrow> rstr option) \<Rightarrow> ('hv, 'b) http_request \<Rightarrow> rstr \<Rightarrow> rstr option" where
  "header_str to_str req nm = Option.bind (header req nm) to_str"

definition axum_visitor :: "('hv \<Rightarrow> rstr option) \<Rightarrow> ('hv, 'b) http_request \<Rightarrow> rstr \<times> rstr" where
  "axum_visitor to_str req =
     (let region = parse_region (header_str to_str req (lit ''cf-ipcountry''))
            (header_str to_str req (lit ''x-vercel-ip-country''))
            (header_str to_str req (lit ''cloudfront-viewer-country''));
          forwarded = header_str to_str req (lit ''x-forwarded-for'');
          user_agent = (case header_str to_str req (lit ''user-agent'') of None \<Rightarrow> [] | Some u \<Rightarrow> u);
          peer = (case connect_info req of None \<Rightarrow> lit ''direct'' | Some c \<Rightarrow> socket_addr_str c)
      in (visitor_key forwarded peer user_agent, region))"

definition axum_track_visitors ::
  "('pw, 'h, 'c, 'p) deps \<Rightarrow> (rstr \<Rightarrow> u64) \<Rightarrow> int \<Rightarrow> bool \<Rightarrow> ('hv \<Rightarrow> rstr option)
     \<Rightarrow> (('hv, 'b) http_request \<Rightarrow> ('pw, 'h, 'c, 'p) app \<Rightarrow> 'resp fut \<times> ('pw, 'h, 'c, 'p) app)
     \<Rightarrow> ('hv, 'b) http_request \<Rightarrow> ('pw, 'h, 'c, 'p) app \<Rightarrow> 'resp fut \<times> ('pw, 'h, 'c, 'p) app" where
  "axum_track_visitors d hash now contended to_str next req st =
     (case axum_visitor to_str req of
        (key, region) \<Rightarrow>
          (case observe_visitor d hash now contended key region st of
             (Panicked p, st1) \<Rightarrow> (Unwound p, st1)
           | (Ret _, st1) \<Rightarrow> next req st1))"

text \<open>A response; \<open>None\<close> leaves the content type to the framework.\<close>

record http_response =
  r_status :: u16
  r_type :: "rstr option"
  r_body :: rstr

definition axum_prometheus_handler ::
  "('pw, 'h, 'c, 'p) deps \<Rightarrow> ('pw, 'h, 'c, 'p) process \<Rightarrow> http_response" where
  "axum_prometheus_handler d s =
     (case prometheus_text d s of
        Inr body \<Rightarrow> \<lparr>r_status = 200, r_type = Some (lit ''text/plain; version=0.0.4; charset=utf-8''), r_body = body\<rparr>
      | Inl e \<Rightarrow> \<lparr>r_status = 503, r_type = None, r_body = lit ''metrics unavailable: '' @ error_display e\<rparr>)"

text \<open>Serving a file belongs to \<open>tower_http\<close> and is an argument.\<close>

definition serve_latest ::
  "('w, 'fs) parquet_api \<Rightarrow> (path \<Rightarrow> 'req \<Rightarrow> http_response) \<Rightarrow> path \<Rightarrow> 'fs \<Rightarrow> 'req \<Rightarrow> http_response" where
  "serve_latest pq serve_file cdir fs req =
     (case latest_cold_file pq cdir fs of
        Some path \<Rightarrow> serve_file path req
      | None \<Rightarrow> \<lparr>r_status = 404, r_type = None,
          r_body = lit ''no parquet export available yet (compaction has not exported any keys)''\<rparr>)"

text \<open>The router of \<open>parquet_route\<close>: its one path, served on \<open>GET\<close>.\<close>

definition parquet_route ::
  "('w, 'fs) parquet_api \<Rightarrow> (path \<Rightarrow> 'req \<Rightarrow> http_response) \<Rightarrow> path
     \<Rightarrow> (rstr \<times> rstr \<times> ('fs \<Rightarrow> 'req \<Rightarrow> http_response)) list" where
  "parquet_route pq serve_file cdir =
     [(lit ''/telemetry/parquet'', lit ''GET'', serve_latest pq serve_file cdir)]"

section \<open>Actix-web\<close>

definition actix_truncate_path :: "rstr \<Rightarrow> rstr res" where
  "actix_truncate_path p = (if 128 < str_len p then str_slice_to 128 p else Ret p)"

definition actix_observe_ok ::
  "('pw, 'h, 'c, 'p) deps \<Rightarrow> int \<times> int \<Rightarrow> rstr \<Rightarrow> rstr \<Rightarrow> rstr \<Rightarrow> f64
     \<Rightarrow> ('pw, 'h, 'c, 'p) process \<Rightarrow> unit res \<times> ('pw, 'h, 'c, 'p) process" where
  "actix_observe_ok d now mthd path status ms s =
     (case record_counter d (fst now) (lit ''http_requests_total'') (Fin 1)
             [(lit ''method'', mthd), (lit ''path'', path), (lit ''status'', status)] s of
        (Panicked p, s1) \<Rightarrow> (Panicked p, s1)
      | (Ret _, s1) \<Rightarrow>
          record_histogram d (snd now) (lit ''http_request_duration_ms'') ms
            [(lit ''method'', mthd), (lit ''path'', path)] s1)"

definition actix_observe_err ::
  "('pw, 'h, 'c, 'p) deps \<Rightarrow> int \<times> int \<Rightarrow> rstr \<Rightarrow> rstr \<Rightarrow> rstr \<Rightarrow> f64
     \<Rightarrow> ('pw, 'h, 'c, 'p) process \<Rightarrow> unit res \<times> ('pw, 'h, 'c, 'p) process" where
  "actix_observe_err d now mthd path status ms s =
     (case record_counter d (fst now) (lit ''http_requests_total'') (Fin 1)
             [(lit ''method'', mthd), (lit ''path'', path), (lit ''status'', status)] s of
        (Panicked p, s1) \<Rightarrow> (Panicked p, s1)
      | (Ret _, s1) \<Rightarrow>
          record_histogram d (snd now) (lit ''http_request_duration_ms'') ms
            [(lit ''method'', mthd), (lit ''path'', path)] s1)"

text \<open>
  \<open>TonggeretService::call\<close>; the inner service answers or fails, and \<open>err_status\<close>
  is the status of the response an error turns into.
\<close>

definition actix_call ::
  "('pw, 'h, 'c, 'p) deps \<Rightarrow> float_env \<Rightarrow> int \<times> int \<Rightarrow> nat \<times> nat \<Rightarrow> ('e \<Rightarrow> u16) \<Rightarrow> ('resp \<Rightarrow> u16)
     \<Rightarrow> (('hv, 'b) http_request \<Rightarrow> ('pw, 'h, 'c, 'p) app \<Rightarrow> ('e + 'resp) fut \<times> ('pw, 'h, 'c, 'p) app)
     \<Rightarrow> ('hv, 'b) http_request \<Rightarrow> ('pw, 'h, 'c, 'p) app
     \<Rightarrow> ('e + 'resp) fut \<times> ('pw, 'h, 'c, 'p) app" where
  "actix_call d fe now elapsed err_status status_of service req st =
     (let mthd = http_method req
      in case (case route req of Some m \<Rightarrow> Ret m | None \<Rightarrow> actix_truncate_path (uri_path req)) of
           Panicked p \<Rightarrow> (Unwound p, st)
         | Ret path \<Rightarrow>
             (case service req st of
                (Unwound p, st1) \<Rightarrow> (Unwound p, st1)
              | (Dropped, st1) \<Rightarrow> (Dropped, st1)
              | (Done (Inr response), g, s) \<Rightarrow>
                  (case actix_observe_ok d now mthd path (status_str (status_of response)) (elapsed_ms fe elapsed) s of
                     (Panicked p, s1) \<Rightarrow> (Unwound p, g, s1)
                   | (Ret _, s1) \<Rightarrow> (Done (Inr response), g, s1))
              | (Done (Inl e), g, s) \<Rightarrow>
                  (case actix_observe_err d now mthd path (status_str (err_status e)) (elapsed_ms fe elapsed) s of
                     (Panicked p, s1) \<Rightarrow> (Unwound p, g, s1)
                   | (Ret _, s1) \<Rightarrow> (Done (Inl e), g, s1))))"

definition actix_visitor :: "('hv \<Rightarrow> rstr option) \<Rightarrow> ('hv, 'b) http_request \<Rightarrow> rstr \<times> rstr" where
  "actix_visitor to_str req =
     (let peer = (case realip req of None \<Rightarrow> lit ''direct'' | Some r \<Rightarrow> r);
          region = parse_region (header_str to_str req (lit ''cf-ipcountry''))
            (header_str to_str req (lit ''x-vercel-ip-country''))
            (header_str to_str req (lit ''cloudfront-viewer-country''));
          forwarded = header_str to_str req (lit ''x-forwarded-for'');
          user_agent = (case header_str to_str req (lit ''user-agent'') of None \<Rightarrow> [] | Some u \<Rightarrow> u)
      in (visitor_key forwarded peer user_agent, region))"

definition actix_visitors_call ::
  "('pw, 'h, 'c, 'p) deps \<Rightarrow> (rstr \<Rightarrow> u64) \<Rightarrow> int \<Rightarrow> bool \<Rightarrow> ('hv \<Rightarrow> rstr option)
     \<Rightarrow> (('hv, 'b) http_request \<Rightarrow> ('pw, 'h, 'c, 'p) app \<Rightarrow> ('e + 'resp) fut \<times> ('pw, 'h, 'c, 'p) app)
     \<Rightarrow> ('hv, 'b) http_request \<Rightarrow> ('pw, 'h, 'c, 'p) app
     \<Rightarrow> ('e + 'resp) fut \<times> ('pw, 'h, 'c, 'p) app" where
  "actix_visitors_call d hash now contended to_str service req st =
     (case actix_visitor to_str req of
        (key, region) \<Rightarrow>
          (case observe_visitor d hash now contended key region st of
             (Panicked p, st1) \<Rightarrow> (Unwound p, st1)
           | (Ret _, st1) \<Rightarrow> service req st1))"

text \<open>
  Actix's trait \<open>Service\<close>: readiness, and calls, each with the readings of the clocks and
  of \<open>try_lock\<close> that the layers of the service make in it. A \<open>Transform\<close> puts a layer on a
  service: \<open>forward_ready!\<close> asks the inner one, and the readings of a call are those of
  the layer and those of the inner call.
\<close>

datatype 'a poll = Pending | Ready 'a

record ('c, 'rq, 'e, 'resp, 'st) service =
  poll_ready :: "'st \<Rightarrow> ('e + unit) poll \<times> 'st"
  service_call :: "'c \<Rightarrow> 'rq \<Rightarrow> 'st \<Rightarrow> ('e + 'resp) fut \<times> 'st"

definition tonggeret_service ::
  "('pw, 'h, 'c, 'p) deps \<Rightarrow> float_env \<Rightarrow> ('e \<Rightarrow> u16) \<Rightarrow> ('resp \<Rightarrow> u16)
     \<Rightarrow> ('r, ('hv, 'b) http_request, 'e, 'resp, ('pw, 'h, 'c, 'p) app) service
     \<Rightarrow> (((int \<times> int) \<times> nat \<times> nat) \<times> 'r, ('hv, 'b) http_request, 'e, 'resp, ('pw, 'h, 'c, 'p) app) service" where
  "tonggeret_service d fe err_status status_of service =
     \<lparr>poll_ready = poll_ready service,
      service_call = (\<lambda>((now, elapsed), r). actix_call d fe now elapsed err_status status_of (service_call service r))\<rparr>"

definition tonggeret_new_transform ::
  "('pw, 'h, 'c, 'p) deps \<Rightarrow> float_env \<Rightarrow> ('e \<Rightarrow> u16) \<Rightarrow> ('resp \<Rightarrow> u16)
     \<Rightarrow> ('r, ('hv, 'b) http_request, 'e, 'resp, ('pw, 'h, 'c, 'p) app) service
     \<Rightarrow> unit + (((int \<times> int) \<times> nat \<times> nat) \<times> 'r, ('hv, 'b) http_request, 'e, 'resp, ('pw, 'h, 'c, 'p) app) service" where
  "tonggeret_new_transform d fe err_status status_of service = Inr (tonggeret_service d fe err_status status_of service)"

definition track_visitors_service ::
  "('pw, 'h, 'c, 'p) deps \<Rightarrow> (rstr \<Rightarrow> u64) \<Rightarrow> ('hv \<Rightarrow> rstr option)
     \<Rightarrow> ('r, ('hv, 'b) http_request, 'e, 'resp, ('pw, 'h, 'c, 'p) app) service
     \<Rightarrow> ((int \<times> bool) \<times> 'r, ('hv, 'b) http_request, 'e, 'resp, ('pw, 'h, 'c, 'p) app) service" where
  "track_visitors_service d hash to_str service =
     \<lparr>poll_ready = poll_ready service,
      service_call = (\<lambda>((now, contended), r). actix_visitors_call d hash now contended to_str (service_call service r))\<rparr>"

definition track_visitors_new_transform ::
  "('pw, 'h, 'c, 'p) deps \<Rightarrow> (rstr \<Rightarrow> u64) \<Rightarrow> ('hv \<Rightarrow> rstr option)
     \<Rightarrow> ('r, ('hv, 'b) http_request, 'e, 'resp, ('pw, 'h, 'c, 'p) app) service
     \<Rightarrow> unit + ((int \<times> bool) \<times> 'r, ('hv, 'b) http_request, 'e, 'resp, ('pw, 'h, 'c, 'p) app) service" where
  "track_visitors_new_transform d hash to_str service = Inr (track_visitors_service d hash to_str service)"

definition actix_prometheus_handler ::
  "('pw, 'h, 'c, 'p) deps \<Rightarrow> ('pw, 'h, 'c, 'p) process \<Rightarrow> http_response" where
  "actix_prometheus_handler d s =
     (case prometheus_text d s of
        Inr body \<Rightarrow> \<lparr>r_status = 200, r_type = Some (lit ''text/plain; version=0.0.4; charset=utf-8''), r_body = body\<rparr>
      | Inl e \<Rightarrow> \<lparr>r_status = 503, r_type = None, r_body = lit ''metrics unavailable: '' @ error_display e\<rparr>)"

section \<open>Facts\<close>

fun dec_value :: "rstr \<Rightarrow> nat" where
  "dec_value [] = 0"
| "dec_value (c # cs) = (c - 48) + 10 * dec_value cs"

lemma dec_value_digits: "dec_value (rev (dec_digits n)) = n"
proof (induction n rule: dec_digits.induct)
  case (1 n)
  then show ?case by (cases "n < 10") (simp_all add: dec_digits.simps [of n])
qed

lemma dec_digits_inject: "dec_digits m = dec_digits n \<longleftrightarrow> m = n"
  by (metis dec_value_digits)

lemma dec_digits_chars: "c \<in> set (dec_digits n) \<Longrightarrow> 48 \<le> c \<and> c < 58"
proof (induction n rule: dec_digits.induct)
  case (1 n)
  then show ?case by (cases "n < 10") (auto simp: dec_digits.simps [of n])
qed

lemma dec_digits_ascii: "is_ascii (dec_digits n)"
  using dec_digits_chars by (fastforce simp: is_ascii_iff)

lemma length_dec_digits: "length (dec_digits n) \<le> Suc n"
proof (induction n rule: dec_digits.induct)
  case (1 n)
  then show ?case by (cases "n < 10") (simp_all add: dec_digits.simps [of n])
qed

lemma status_str_cut: "has_cut 256 (status_str st)"
  by (simp add: status_str_def has_cut_ascii dec_digits_ascii)

lemma truncate_path_eq:
  "truncate_path p = (if has_cut 128 p then Ret (cut_to 128 p) else Panicked SliceBoundary)"
  by (auto simp: truncate_path_def str_slice_to_def has_cut_def cut_to_def split: option.splits)

lemma actix_truncate_path_eq: "actix_truncate_path = truncate_path"
  by (simp add: fun_eq_iff truncate_path_def actix_truncate_path_def)

text \<open>Recording under valid names only cuts the label values.\<close>

definition clean_key :: "label \<Rightarrow> bool" where
  "clean_key kv \<longleftrightarrow> valid_name (fst kv) \<and> length (fst kv) \<le> 128"

lemma clean_pair_key: "clean_key kv \<Longrightarrow> clean_pair kv = (fst kv, cut_to 256 (snd kv)) \<and> named_pair kv"
  by (cases kv) (auto simp: clean_key_def clean_pair_def named_pair_def trim_valid_name sanitize_name_id)

lemma record_metric_clean:
  assumes "valid_name nm" "list_all clean_key ls" "list_all (\<lambda>kv. has_cut 256 (snd kv)) ls" "length ls \<le> 16"
  shows "record_metric mt d now nm v ls s = global_record d
    \<lparr>timestamp = now, name = nm, sample = v, metric_kind = mt, labels = map (apsnd (cut_to 256)) ls\<rparr> s"
proof -
  have "filter named_pair ls = ls" "map clean_pair ls = map (apsnd (cut_to 256)) ls"
    using assms(2) clean_pair_key by (auto simp: list_all_iff apsnd_def map_prod_def split_beta)
  then have "sanitize_labels ls = Ret (map (apsnd (cut_to 256)) ls)"
    using assms(3,4) by (simp add: sanitize_labels_def sanitize_take_eq MAX_PAIRS_def)
  then show ?thesis
    using assms(1) by (simp add: record_metric_def metric_entry_new_def sanitize_name_id)
qed

text \<open>The two samples of a request.\<close>

definition request_count :: "int \<Rightarrow> rstr \<Rightarrow> rstr \<Rightarrow> u16 \<Rightarrow> metric_entry" where
  "request_count now m p st =
     \<lparr>timestamp = now, name = lit ''http_requests_total'', sample = Fin 1, metric_kind = Counter,
      labels = [(lit ''method'', cut_to 256 m), (lit ''path'', cut_to 256 p),
        (lit ''status'', cut_to 256 (status_str st))]\<rparr>"

definition request_timing :: "int \<Rightarrow> rstr \<Rightarrow> rstr \<Rightarrow> f64 \<Rightarrow> metric_entry" where
  "request_timing now m p ms =
     \<lparr>timestamp = now, name = lit ''http_request_duration_ms'', sample = ms, metric_kind = Histogram,
      labels = [(lit ''method'', cut_to 256 m), (lit ''path'', cut_to 256 p)]\<rparr>"

lemma axum_observe_eq:
  assumes "has_cut 256 m" "has_cut 256 p"
  shows "axum_observe d now m p (status_str st) ms s =
    (case global_record d (request_count (fst now) m p st) s of
       (Panicked x, s1) \<Rightarrow> (Panicked x, s1)
     | (Ret _, s1) \<Rightarrow> global_record d (request_timing (snd now) m p ms) s1)"
proof -
  have names: "valid_name (lit ''http_requests_total'')" "valid_name (lit ''http_request_duration_ms'')"
    "valid_name (lit ''method'')" "valid_name (lit ''path'')" "valid_name (lit ''status'')"
    by (simp_all add: lit_def name_char_ok_def name_tail_ok_def ascii_defs)
  have keys: "clean_key (lit ''method'', x)" "clean_key (lit ''path'', x)" "clean_key (lit ''status'', x)" for x
    using names(3-5) by (simp_all add: clean_key_def lit_def)
  show ?thesis
    using assms names(1,2) keys status_str_cut
    by (simp add: axum_observe_def record_counter_def record_histogram_def record_metric_clean
        request_count_def request_timing_def split: prod.split res.split)
qed

lemma global_record_running:
  assumes spec: "prom_spec pv ok (prom d)" "chan_spec cv (chan d)"
    and s: "global s = Some h" "\<not> shutdown_flag s" "handle_inv pv h n" "tx h = Some c"
    and room: "rx_open (cv c)" "length (queue (cv c)) < capacity (cv c)"
    and adm: "admissible (metric_kind e) (sample e)"
    and obs: "abs_of pv h = Some A" "abs_update ok e A = (Ret (), A')"
  shows "\<exists>h' c'. global_record d e s = (Ret (), s\<lparr>global := Some h'\<rparr>) \<and> abs_of pv h' = Some A' \<and>
    handle_inv pv h' n \<and> tx h' = Some c' \<and> cv c' = (cv c)\<lparr>queue := queue (cv c) @ [Metric e]\<rparr>"
proof -
  have o: "abs_observe ok e (abs_of pv h) = (Ret (), Some A')" by (simp add: abs_observe_def obs)
  have v: "send_view (Metric e) (cv c) = (Inr (), (cv c)\<lparr>queue := queue (cv c) @ [Metric e]\<rparr>)"
    using room by (simp add: send_view_def)
  obtain h' c' where "engine_record d False e h = (Ret (), h')" "abs_of pv h' = Some A'"
    "tx h' = Some c'" "cv c' = (cv c)\<lparr>queue := queue (cv c) @ [Metric e]\<rparr>" "handle_inv pv h' n"
    using engine_record_spec [OF spec s(3) adm s(4)] by (auto simp: o v)
  then show ?thesis
    using s(1,2) by (intro exI [of _ h'] exI [of _ c']) (simp add: global_record_def)
qed

section \<open>Properties\<close>

text \<open>
  C15: a request that the rest of the chain answers, on a running engine with room for two
  samples and no clashing family, is counted once with its method, path and status and
  timed once with its method and path, in that order, in the registry and in the queue;
  the response is passed on.
\<close>

theorem request_tracked:
  assumes "prom_spec pv ok (prom d)" and "chan_spec cv (chan d)"
    and "next req st = (Done response, g, s)"
    and "route req = Some p \<or> route req = None \<and> truncate_path (uri_path req) = Ret p"
    and "has_cut 256 (http_method req)" and "has_cut 256 p"
    and "global s = Some h" and "\<not> shutdown_flag s" and "handle_inv pv h n" and "tx h = Some c"
    and "rx_open (cv c)" and "length (queue (cv c)) + 2 \<le> capacity (cv c)"
    and "abs_of pv h = Some A"
    and "abs_update ok (request_count (fst now) (http_method req) p (status_of response)) A = (Ret (), A1)"
    and "abs_update ok (request_timing (snd now) (http_method req) p (elapsed_ms fe elapsed)) A1 = (Ret (), A2)"
  shows "\<exists>h' c'. axum_track d fe now elapsed status_of next req st = (Done response, g, s\<lparr>global := Some h'\<rparr>) \<and>
    abs_of pv h' = Some A2 \<and> handle_inv pv h' n \<and> tx h' = Some c' \<and>
    queue (cv c') = queue (cv c) @
      [Metric (request_count (fst now) (http_method req) p (status_of response)),
       Metric (request_timing (snd now) (http_method req) p (elapsed_ms fe elapsed))]"
proof -
  let ?c = "request_count (fst now) (http_method req) p (status_of response)"
  let ?t = "request_timing (snd now) (http_method req) p (elapsed_ms fe elapsed)"
  have adm: "admissible (metric_kind ?c) (sample ?c)" "admissible (metric_kind ?t) (sample ?t)"
    by (simp_all add: request_count_def request_timing_def admissible_def)
  obtain h1 c1 where 1: "global_record d ?c s = (Ret (), s\<lparr>global := Some h1\<rparr>)" "abs_of pv h1 = Some A1"
    "handle_inv pv h1 n" "tx h1 = Some c1" "cv c1 = (cv c)\<lparr>queue := queue (cv c) @ [Metric ?c]\<rparr>"
    using global_record_running [OF assms(1,2,7-11) _ adm(1) assms(13,14)] assms(12) by auto
  have "\<exists>h' c'. global_record d ?t (s\<lparr>global := Some h1\<rparr>) = (Ret (), s\<lparr>global := Some h1\<rparr>\<lparr>global := Some h'\<rparr>) \<and>
    abs_of pv h' = Some A2 \<and> handle_inv pv h' n \<and> tx h' = Some c' \<and>
    cv c' = (cv c1)\<lparr>queue := queue (cv c1) @ [Metric ?t]\<rparr>"
    by (rule global_record_running [OF assms(1,2) _ _ 1(3,4) _ _ adm(2) 1(2) assms(15)])
      (use assms(8,11,12) in \<open>simp_all add: 1(5)\<close>)
  then show ?thesis
    using assms(3,4) 1 by (auto simp: axum_track_def Let_def axum_observe_eq [OF assms(5,6)])
qed

definition exact_floats :: float_env where
  "exact_floats = \<lparr>fl = (\<lambda>x. x), ln64 = ln\<rparr>"

definition demo_request :: "rstr option \<Rightarrow> rstr \<Rightarrow> (rstr, unit) http_request" where
  "demo_request rt p = \<lparr>http_method = lit ''GET'', route = rt, uri_path = p, header = (\<lambda>_. None),
     connect_info = None, realip = None, payload_of = ()\<rparr>"

definition web_process ::
  "(ref_world, nat) prom_registry \<Rightarrow> (ref_world, nat, chan_view, kv_store) process" where
  "web_process r = process_start\<lparr>global := Some
     \<lparr>tx = Some \<lparr>queue = [], capacity = 2, rx_open = True, tx_open = True\<rparr>, eh_registry = Some r,
      eh_fjall = Some store_empty, dropped_total = 0, eh_has_fjall = True\<rparr>\<rparr>"

lemma demo_updates:
  fixes A :: prom_abs
  assumes "families A = Map.empty"
  shows "\<exists>A1. abs_update ref_ok (request_count t m p st) A = (Ret (), A1) \<and>
    fst (abs_update ref_ok (request_timing t' m p ms) A1) = Ret ()"
proof -
  have "ref_ok Counter (lit ''http_requests_total'') [lit ''method'', lit ''path'', lit ''status'']"
    "ref_ok Histogram (lit ''http_request_duration_ms'') [lit ''method'', lit ''path'']"
    "lit ''http_requests_total'' \<noteq> dropped_name" "lit ''http_request_duration_ms'' \<noteq> dropped_name"
    "lit ''http_request_duration_ms'' \<noteq> lit ''http_requests_total''"
    by (simp_all add: ref_ok_def dropped_name_def str_eval)
  then show ?thesis
    using assms by (simp add: abs_update_def abs_sample_def request_count_def request_timing_def)
qed

theorem request_tracked_witness:
  "\<exists>r h' c'. prom_registry_new ref_prom [Fin 5] = Inr r \<and>
     axum_track demo_deps exact_floats (1, 2) (0, 5000000) (\<lambda>_. 200) (\<lambda>_ st. (Done (), st))
       (demo_request (Some (lit ''/x'')) []) (None, web_process r) =
       (Done (), None, web_process r\<lparr>global := Some h'\<rparr>) \<and>
     tx h' = Some c' \<and> length (queue c') = 2"
proof -
  obtain r where r: "prom_registry_new ref_prom [Fin 5] = Inr r" "prom_inv ref_view r"
    "abs_registry ref_view r = \<lparr>families = Map.empty, samples = (\<lambda>_ _. [])\<rparr>"
    "series (ref_view (registry r)) (dropped_counter r) [] = []"
    using prom_registry_new_ok [OF ref_prom_spec, of "[Fin 5]"] by blast
  let ?h = "the (global (web_process r))" and ?req = "demo_request (Some (lit ''/x'')) []"
  let ?c = "\<lparr>queue = [], capacity = 2, rx_open = True, tx_open = True\<rparr>"
  have spec: "prom_spec ref_view ref_ok (prom demo_deps)" "chan_spec id (chan demo_deps)"
    by (simp_all add: ref_prom_spec ref_chan_spec)
  have s: "global (web_process r) = Some ?h" "\<not> shutdown_flag (web_process r)" "handle_inv ref_view ?h 0"
    "tx ?h = Some ?c" "abs_of ref_view ?h = Some (abs_registry ref_view r)"
    using r by (simp_all add: web_process_def process_start_def handle_inv_def drops_recorded_def abs_of_def)
  have cuts: "has_cut 256 (http_method ?req)" "has_cut 256 (lit ''/x'')"
    by (simp_all add: demo_request_def lit_def has_cut_ascii)
  have "families (abs_registry ref_view r) = Map.empty" by (simp add: r(3))
  from demo_updates [OF this] obtain A1 A2 where
    u: "abs_update ref_ok (request_count (fst (1 :: int, 2 :: int)) (http_method ?req) (lit ''/x'') 200) (abs_registry ref_view r) = (Ret (), A1)"
      "abs_update ref_ok (request_timing (snd (1 :: int, 2 :: int)) (http_method ?req) (lit ''/x'') (elapsed_ms exact_floats (0, 5000000))) A1
        = (Ret (), A2)"
    by (metis prod.collapse)
  have "\<exists>h' c'. axum_track demo_deps exact_floats (1, 2) (0, 5000000) (\<lambda>_. 200) (\<lambda>_ st. (Done (), st))
       ?req (None, web_process r) = (Done (), None, web_process r\<lparr>global := Some h'\<rparr>) \<and>
      abs_of ref_view h' = Some A2 \<and> handle_inv ref_view h' 0 \<and> tx h' = Some c' \<and>
      queue (id c') = queue (id ?c) @ [Metric (request_count (fst (1 :: int, 2 :: int)) (http_method ?req) (lit ''/x'') 200),
       Metric (request_timing (snd (1 :: int, 2 :: int)) (http_method ?req) (lit ''/x'') (elapsed_ms exact_floats (0, 5000000)))]"
    by (rule request_tracked [where status_of = "\<lambda>_. 200" and response = "()",
          OF spec _ _ cuts s(1,2,3,4) _ _ s(5) u]) (simp_all add: demo_request_def)
  then show ?thesis using r(1) by auto
qed

text \<open>
  C39: a request to no known route whose path has a character across its 128th byte makes
  both middlewares panic before the rest of the chain has run: the request is neither
  answered nor counted. Any other path is cut to at most 128 bytes.
\<close>

theorem long_path_panics:
  assumes "route req = None"
  shows "(if has_cut 128 (uri_path req)
     then \<exists>p. truncate_path (uri_path req) = Ret p \<and> str_len p \<le> 128 \<and> p = take (length p) (uri_path req)
     else axum_track d fe now elapsed status_of nxt req st = (Unwound SliceBoundary, st) \<and>
       actix_call d fe now elapsed err_status status_of service req st = (Unwound SliceBoundary, st))"
proof (cases "has_cut 128 (uri_path req)")
  case True
  then have "str_len (cut_to 128 (uri_path req)) \<le> 128" by (rule str_len_cut_to)
  moreover have "cut_to 128 (uri_path req) = take (length (cut_to 128 (uri_path req))) (uri_path req)"
    using True by (auto simp: cut_to_def has_cut_def dest: take_bytes_Some split: option.splits)
  ultimately show ?thesis using True by (simp add: truncate_path_eq)
next
  case False
  then show ?thesis
    using assms by (simp add: axum_track_def actix_call_def actix_truncate_path_eq truncate_path_eq)
qed

theorem long_path_panics_witness:
  "axum_track demo_deps exact_floats (1, 2) (0, 5) (\<lambda>_. 200) (\<lambda>_ st. (Done (), st))
     (demo_request None (replicate 127 97 @ [233])) (None, process_start) = (Unwound SliceBoundary, None, process_start)"
proof -
  let ?p = "replicate 127 97 @ [233 :: nat]" and ?next = "\<lambda>_ st. (Done (), st)"
  have a: "is_ascii (replicate 127 97)" by (simp add: is_ascii_iff)
  have "take_bytes 128 ?p = None"
    using take_bytes_ascii_append [OF a, of 1 "[233]"] by (simp add: utf8_len_def)
  moreover have "str_len ?p = 129" using str_len_ascii [OF a] by (simp add: utf8_len_def)
  ultimately have "\<not> has_cut 128 (uri_path (demo_request None ?p))" by (simp add: has_cut_def demo_request_def)
  moreover have "route (demo_request None ?p) = None" by (simp add: demo_request_def)
  ultimately show ?thesis
    using long_path_panics [where req = "demo_request None ?p" and d = demo_deps and fe = exact_floats
        and now = "(1, 2)" and elapsed = "(0, 5)" and status_of = "\<lambda>_. 200" and nxt = ?next
        and st = "(None, process_start)"] by auto
qed





text \<open>
  C31: the export route serves the newest export: with the exports named by second-precise
  stamps of one length it is the one with the greatest stamp; a pass still writing its
  temporary file is never served, and without an export the answer is 404.
\<close>

theorem newest_export_served:
  assumes "read_dir pq (cold_dir cfg) fs = Inr entries"
    and "{nm \<in> set (oks entries). is_cold_file nm} = export_name ` S"
    and "\<forall>s \<in> S. is_ascii s \<and> length s = k"
  shows "(S = {} \<longrightarrow> r_status (serve_latest pq serve_file (cold_dir cfg) fs req) = 404) \<and>
    (S \<noteq> {} \<longrightarrow> serve_latest pq serve_file (cold_dir cfg) fs req = serve_file (final_path cfg (Max S)) req) \<and>
    is_cold_file (export_name stamp) \<and>
    \<not> is_cold_file (lit ''.'' @ PARQUET_FILE_PREFIX @ stamp @ lit ''.parquet.tmp'')"
  using latest_cold_file_newest [OF assms] export_name_cold [of stamp] tmp_name_not_cold [of stamp]
  by (simp add: serve_latest_def final_path_export)


definition demo_dir :: "(path \<times> row list list, path \<rightharpoonup> row list) parquet_api" where
  "demo_dir = (ref_parquet True)\<lparr>read_dir := (\<lambda>_ _. Inr
     [Inr (export_name (lit ''2024'')), Inl (lit ''EIO''), Inr (export_name (lit ''2025'')),
      Inr (lit ''.'' @ PARQUET_FILE_PREFIX @ lit ''2026'' @ lit ''.parquet.tmp'')])\<rparr>"

theorem newest_export_served_witness:
  "serve_latest demo_dir (\<lambda>p _. \<lparr>r_status = 200, r_type = None, r_body = path_display p\<rparr>)
     (cold_dir demo_cfg) Map.empty () =
   \<lparr>r_status = 200, r_type = None, r_body = path_display (final_path demo_cfg (lit ''2025''))\<rparr>"
proof -
  let ?es = "[Inr (export_name (lit ''2024'')), Inl (lit ''EIO''), Inr (export_name (lit ''2025'')),
      Inr (lit ''.'' @ PARQUET_FILE_PREFIX @ lit ''2026'' @ lit ''.parquet.tmp'')]"
  have dir: "read_dir demo_dir (cold_dir demo_cfg) Map.empty = Inr ?es" by (simp add: demo_dir_def)
  have names: "{nm \<in> set (oks ?es). is_cold_file nm} = export_name ` {lit ''2024'', lit ''2025''}"
    using export_name_cold tmp_name_not_cold by auto
  have stamps: "\<forall>s \<in> {lit ''2024'', lit ''2025''}. is_ascii s \<and> length s = 4" by (simp add: lit_def)
  have "Max {lit ''2024'', lit ''2025''} = lit ''2025''" by (simp add: lit_def)
  then show ?thesis
    using newest_export_served [OF dir names stamps,
        of "\<lambda>p _. \<lparr>r_status = 200, r_type = None, r_body = path_display p\<rparr>" "()"] by simp
qed

end
