(* ===== verification/Rows.thy ===== *)
theory Rows
  imports Writer Compaction "HOL-Library.Multiset"
begin

text \<open>
  Where the writer and the compaction meet: the pairs a batch is stored as, the row each of
  them becomes when it is exported, and what a scan of a store filled by the writer holds.
\<close>

section \<open>From a sample to its row\<close>

text \<open>The row an exported sample becomes.\<close>

definition row_of_entry :: "json_api \<Rightarrow> metric_entry \<Rightarrow> row" where
  "row_of_entry jn e =
     \<lparr>r_ts = i64_or_max (entry_micros e), r_name = name e, r_value = finite_part (sample e),
      r_kind = as_str (metric_kind e), r_labels = to_string jn (JObject (labels_object (labels e)))\<rparr>"

definition stored_pairs :: "json_api \<Rightarrow> metric_entry list \<Rightarrow> u32 \<Rightarrow> kv list" where
  "stored_pairs jn es seq = zip (batch_keys es seq) (map (encode_value jn) es)"

definition exportable :: "json_api \<Rightarrow> metric_entry \<Rightarrow> bool" where
  "exportable jn e \<longleftrightarrow> valid_str (name e) \<and> json_exact jn (payload jn e)"

lemma row_of_stored:
  assumes "json_floats jn" "exportable jn e"
  shows "row_of_kv jn (encode_key (entry_micros e) seq (name e), encode_value jn e) = Some (row_of_entry jn e)"
  using assms by (simp add: row_of_kv_def exportable_def row_of_entry_def decode_encode_key decode_encode_value)

lemma rows_of_stored_pairs:
  assumes "json_floats jn" "list_all (exportable jn) es"
  shows "map (row_of_kv jn) (stored_pairs jn es seq) = map (\<lambda>e. Some (row_of_entry jn e)) es"
  using assms(2)
  by (induction es arbitrary: seq) (simp_all add: stored_pairs_def row_of_stored [OF assms(1)])

lemma expired_rows_map: "expired_rows jn kvs = map the (filter (\<lambda>r. r \<noteq> None) (map (row_of_kv jn) kvs))"
  by (induction kvs) (auto split: option.split)

lemma stored_pairs_key:
  "(k, v) \<in> set (stored_pairs jn es seq) \<Longrightarrow>
     \<exists>e s. e \<in> set es \<and> k = encode_key (entry_micros e) s (name e) \<and> v = encode_value jn e"
proof (induction es arbitrary: seq)
  case (Cons e es)
  have "(k, v) = (encode_key (entry_micros e) seq (name e), encode_value jn e) \<or>
      (k, v) \<in> set (stored_pairs jn es (seq + 1))"
    using Cons.prems by (simp add: stored_pairs_def)
  then show ?case using Cons.IH [of "seq + 1"] by auto
qed (simp add: stored_pairs_def)

lemma stored_pairs_map:
  assumes "fjall_spec cont db" "fjall_reliable db" "length es \<le> 2 ^ 32" "cont part = Map.empty"
  shows "cont (fst (flush_batch jn db es part seq)) k = Some v \<longleftrightarrow> (k, v) \<in> set (stored_pairs jn es seq)"
proof -
  have "distinct (map fst (stored_pairs jn es seq))"
    using distinct_batch_keys [OF assms(3)] by (simp add: stored_pairs_def)
  then have "map_of (rev (stored_pairs jn es seq)) k = Some v \<longleftrightarrow> (k, v) \<in> set (stored_pairs jn es seq)"
    by (subst map_of_eq_Some_iff) (simp_all add: rev_map [symmetric])
  then show ?thesis using assms(4) by (simp add: flush_batch_contents [OF assms(1,2)] stored_pairs_def)
qed

lemma expired_stored_mset:
  assumes "distinct (map fst kvs)" "length es \<le> 2 ^ 32"
    and "\<forall>k v. (k, v) \<in> set kvs \<longleftrightarrow> (k, v) \<in> set (stored_pairs jn es seq)"
  shows "mset kvs = mset (stored_pairs jn es seq)"
proof -
  have "distinct kvs" using assms(1) by (simp add: distinct_map)
  moreover have "distinct (stored_pairs jn es seq)"
    using distinct_batch_keys [OF assms(2)] by (simp add: stored_pairs_def distinct_zipI1)
  ultimately show ?thesis using assms(3) by (intro set_eq_iff_mset_eq_distinct [THEN iffD1]) auto
qed

lemma i64_or_max_mono: "t \<le> t' \<Longrightarrow> i64_or_max t \<le> i64_or_max t'"
proof -
  assume "t \<le> t'"
  then have "unat t \<le> unat t'" by (simp add: word_le_nat_alt)
  moreover have "(if a < 2 ^ 63 then int a else 2 ^ 63 - 1) \<le> (if b < 2 ^ 63 then int b else 2 ^ 63 - 1)"
    if "a \<le> b" for a b :: nat using that by auto
  ultimately show ?thesis unfolding i64_or_max_def by blast
qed

lemma rows_sorted:
  assumes "sorted_wrt (<) (map fst kvs)" "json_floats jn" "list_all (exportable jn) es"
    and "set kvs \<subseteq> set (stored_pairs jn es seq)"
  shows "sorted (map r_ts (expired_rows jn kvs))"
  using assms(1,4)
proof (induction kvs)
  case (Cons x kvs)
  obtain e s where e: "e \<in> set es" "fst x = encode_key (entry_micros e) s (name e)" "snd x = encode_value jn e"
    using stored_pairs_key [of "fst x" "snd x" jn es seq] Cons.prems(2) by auto
  then have x: "row_of_kv jn x = Some (row_of_entry jn e)"
    using row_of_stored [OF assms(2)] assms(3) by (metis list_all_iff prod.collapse)
  have "i64_or_max (entry_micros e) \<le> r_ts r" if r: "r \<in> set (expired_rows jn kvs)" for r
  proof -
    from r obtain y where y: "y \<in> set kvs" "row_of_kv jn y = Some r" by (auto simp: expired_rows_map)
    then obtain e' s' where e': "e' \<in> set es" "fst y = encode_key (entry_micros e') s' (name e')" "snd y = encode_value jn e'"
      using stored_pairs_key [of "fst y" "snd y" jn es seq] Cons.prems(2) by auto
    then have "r = row_of_entry jn e'"
      using row_of_stored [OF assms(2)] assms(3) y(2) by (metis list_all_iff option.inject prod.collapse)
    moreover have "fst x < fst y" using Cons.prems(1) y(1) by simp
    then have "entry_micros e \<le> entry_micros e'" unfolding e(2) e'(2) fjall_key.enc_less_enc by auto
    ultimately show ?thesis by (simp add: row_of_entry_def i64_or_max_mono)
  qed
  then show ?case using Cons x by (simp add: row_of_entry_def)
qed simp

lemma expired_stored:
  assumes db: "fjall_spec cont db" "fjall_reliable db" "cont part = Map.empty" "length es \<le> 2 ^ 32"
    and js: "json_floats jn" "list_all (exportable jn) es"
    and old: "\<forall>e \<in> set es. entry_micros e < cutoff"
    and kvs: "expired (cont (fst (flush_batch jn db es part seq))) cutoff kvs"
  shows "mset (expired_rows jn kvs) = mset (map (row_of_entry jn) es)"
    and "sorted (map r_ts (expired_rows jn kvs))"
    and "(k, v) \<in> set kvs \<longleftrightarrow> cont (fst (flush_batch jn db es part seq)) k = Some v"
    and "(k, v) \<in> set kvs \<Longrightarrow> decode_key k \<noteq> None"
proof -
  let ?sp = "stored_pairs jn es seq"
  note stored = stored_pairs_map [OF db(1,2,4,3)]
  have below: "k < utf8 (cutoff_prefix cutoff) \<and> decode_key k \<noteq> None" if "(k, v) \<in> set ?sp" for k v
    using stored_pairs_key [OF that] js(2) old fjall_key.enc_less_bound fjall_key.dec_enc
    by (fastforce simp: list_all_iff exportable_def)
  have same: "(k, v) \<in> set kvs \<longleftrightarrow> (k, v) \<in> set ?sp" for k v
    using kvs below unfolding expired_def stored by blast
  then show "(k, v) \<in> set kvs \<longleftrightarrow> cont (fst (flush_batch jn db es part seq)) k = Some v"
    and "(k, v) \<in> set kvs \<Longrightarrow> decode_key k \<noteq> None" using stored below by blast+
  have "distinct (map fst kvs)"
    using kvs strict_sorted_iff [of "map fst kvs"] by (simp add: expired_def)
  then have "mset kvs = mset ?sp" using expired_stored_mset [OF _ db(4)] same by blast
  then have "mset (map (row_of_kv jn) kvs) = mset (map (row_of_kv jn) ?sp)" by simp
  then have "mset (map (row_of_kv jn) kvs) = mset (map (\<lambda>e. Some (row_of_entry jn e)) es)"
    by (simp only: rows_of_stored_pairs [OF js])
  then have "mset (map the (filter (\<lambda>r. r \<noteq> None) (map (row_of_kv jn) kvs))) =
      mset (map the (filter (\<lambda>r. r \<noteq> None) (map (\<lambda>e. Some (row_of_entry jn e)) es)))"
    by (simp only: mset_map mset_filter)
  moreover have "map the (filter (\<lambda>r. r \<noteq> None) (map (\<lambda>e. Some (row_of_entry jn e)) es)) = map (row_of_entry jn) es"
    by (induction es) simp_all
  ultimately show "mset (expired_rows jn kvs) = mset (map (row_of_entry jn) es)"
    by (simp only: expired_rows_map)
  have "set kvs \<subseteq> set ?sp" using same by auto
  then show "sorted (map r_ts (expired_rows jn kvs))"
    using rows_sorted [OF _ js] kvs by (simp add: expired_def)
qed

end
