(* ===== verification/Threads.thy ===== *)
theory Threads
  imports Lifecycle Rows
begin

text \<open>
  The running engine one atomic operation at a time: every thread that records, the writer
  thread, the thread in \<open>shutdown\<close> and the compaction pass have a program counter, and
  a step of one of them performs one operation on what they share (the static
  \<open>SHUTDOWN\<close>, the registry, the two drop counters, the channel, the partition, the files).
  Any schedule of such steps is a list of events; the steps run without interruption are
  the functions of the other theories.
\<close>

section \<open>A call of \<open>record\<close>\<close>

text \<open>
  The points of \<open>global_record\<close> and \<open>EngineHandle::record\<close> between two operations on
  shared state, and how a call ends.
\<close>

datatype call_pc =
    Entering metric_entry   \<comment> \<open>before \<open>GLOBAL\<close> and \<open>SHUTDOWN\<close> are read\<close>
  | Observing metric_entry  \<comment> \<open>before \<open>reg.update\<close>\<close>
  | Sending metric_entry    \<comment> \<open>before \<open>try_send\<close>\<close>
  | Refused metric_entry    \<comment> \<open>before \<open>dropped_total.fetch_add\<close>\<close>
  | Counting metric_entry   \<comment> \<open>before \<open>inc_dropped\<close>\<close>

datatype fate =
    Ignored        \<comment> \<open>no engine, or it is shut down\<close>
  | Unqueued       \<comment> \<open>no store is configured\<close>
  | Accepted       \<comment> \<open>the channel took the sample\<close>
  | Dropped        \<comment> \<open>the channel was full or closed\<close>
  | Crashed panic  \<comment> \<open>the registry panicked\<close>

definition on_handle ::
  "(('pw, 'h, 'c, 'p) engine_handle \<Rightarrow> ('pw, 'h, 'c, 'p) engine_handle) \<Rightarrow> ('pw, 'h, 'c, 'p) process
     \<Rightarrow> ('pw, 'h, 'c, 'p) process" where
  "on_handle f s = s\<lparr>global := map_option f (global s)\<rparr>"

definition enter_step ::
  "metric_entry \<Rightarrow> ('pw, 'h, 'c, 'p) process \<Rightarrow> (fate + call_pc) \<times> ('pw, 'h, 'c, 'p) process" where
  "enter_step e s =
     (if global s = None \<or> shutdown_flag s then (Inl Ignored, s) else (Inr (Observing e), s))"

definition observe_step ::
  "('pw, 'h, 'c, 'p) deps \<Rightarrow> metric_entry \<Rightarrow> ('pw, 'h, 'c, 'p) process
     \<Rightarrow> (fate + call_pc) \<times> ('pw, 'h, 'c, 'p) process" where
  "observe_step d e s =
     (case Option.bind (global s) eh_registry of
        None \<Rightarrow> (Inr (Sending e), s)
      | Some reg \<Rightarrow>
          (case update (prom d) reg e of
             (Panicked p, reg') \<Rightarrow> (Inl (Crashed p), on_handle (\<lambda>h. h\<lparr>eh_registry := Some reg'\<rparr>) s)
           | (Ret _, reg') \<Rightarrow> (Inr (Sending e), on_handle (\<lambda>h. h\<lparr>eh_registry := Some reg'\<rparr>) s)))"

definition send_step ::
  "('pw, 'h, 'c, 'p) deps \<Rightarrow> metric_entry \<Rightarrow> ('pw, 'h, 'c, 'p) process
     \<Rightarrow> (fate + call_pc) \<times> ('pw, 'h, 'c, 'p) process" where
  "send_step d e s =
     (case Option.bind (global s) tx of
        None \<Rightarrow> (Inl Unqueued, s)
      | Some c \<Rightarrow>
          (case try_send (chan d) c (Metric e) of
             (Inr _, c') \<Rightarrow> (Inl Accepted, set_tx c' s)
           | (Inl _, c') \<Rightarrow> (Inr (Refused e), set_tx c' s)))"

definition refuse_step ::
  "metric_entry \<Rightarrow> ('pw, 'h, 'c, 'p) process \<Rightarrow> (fate + call_pc) \<times> ('pw, 'h, 'c, 'p) process" where
  "refuse_step e s =
     (let s' = on_handle (\<lambda>h. h\<lparr>dropped_total := dropped_total h + 1\<rparr>) s
      in if Option.bind (global s) eh_registry = None then (Inl Dropped, s') else (Inr (Counting e), s'))"

definition count_step ::
  "('pw, 'h, 'c, 'p) deps \<Rightarrow> ('pw, 'h, 'c, 'p) process \<Rightarrow> (fate + call_pc) \<times> ('pw, 'h, 'c, 'p) process" where
  "count_step d s =
     (Inl Dropped, on_handle (\<lambda>h. h\<lparr>eh_registry := map_option (inc_dropped (prom d)) (eh_registry h)\<rparr>) s)"

fun call_step ::
  "('pw, 'h, 'c, 'p) deps \<Rightarrow> call_pc \<Rightarrow> ('pw, 'h, 'c, 'p) process
     \<Rightarrow> (fate + call_pc) \<times> ('pw, 'h, 'c, 'p) process" where
  "call_step d (Entering e) s = enter_step e s"
| "call_step d (Observing e) s = observe_step d e s"
| "call_step d (Sending e) s = send_step d e s"
| "call_step d (Refused e) s = refuse_step e s"
| "call_step d (Counting e) s = count_step d s"

text \<open>A call that is not interrupted has at most five steps.\<close>

fun call_run ::
  "nat \<Rightarrow> ('pw, 'h, 'c, 'p) deps \<Rightarrow> call_pc \<Rightarrow> ('pw, 'h, 'c, 'p) process
     \<Rightarrow> (fate + call_pc) \<times> ('pw, 'h, 'c, 'p) process" where
  "call_run 0 d pc s = (Inr pc, s)"
| "call_run (Suc n) d pc s =
     (case call_step d pc s of
        (Inl f, s') \<Rightarrow> (Inl f, s')
      | (Inr pc', s') \<Rightarrow> call_run n d pc' s')"

fun call_result :: "fate \<Rightarrow> unit res" where
  "call_result (Crashed p) = Panicked p"
| "call_result Ignored = Ret ()"
| "call_result Unqueued = Ret ()"
| "call_result Accepted = Ret ()"
| "call_result Dropped = Ret ()"

lemmas call_step_defs =
  enter_step_def observe_step_def send_step_def refuse_step_def count_step_def on_handle_def set_tx_def

lemma process_global_id: "global s = Some h \<Longrightarrow> s\<lparr>global := Some h\<rparr> = s"
  by (cases s) simp

text \<open>From the sending on, over a process with a handle.\<close>

lemma call_run_send:
  assumes "global s = Some h"
  shows "call_run 3 d (Sending e) s =
    (case tx h of
       None \<Rightarrow> (Inl Unqueued, s)
     | Some c \<Rightarrow>
         (case try_send (chan d) c (Metric e) of
            (Inr _, c') \<Rightarrow> (Inl Accepted, s\<lparr>global := Some (h\<lparr>tx := Some c'\<rparr>)\<rparr>)
          | (Inl _, c') \<Rightarrow> (Inl Dropped, s\<lparr>global := Some (h\<lparr>tx := Some c', dropped_total := dropped_total h + 1,
              eh_registry := map_option (inc_dropped (prom d)) (eh_registry h)\<rparr>)\<rparr>)))"
  using assms
  by (auto simp: numeral_3_eq_3 call_step_defs Let_def split: option.split prod.split sum.split)

lemma call_run_record:
  "\<exists>f. call_run 5 d (Entering e) s = (Inl f, snd (global_record d e s)) \<and>
    fst (global_record d e s) = call_result f"
proof (cases "global s = None \<or> shutdown_flag s")
  case True
  then show ?thesis
    using call_run.simps(2) [of 4 d "Entering e" s] by (simp add: global_record_noop enter_step_def)
next
  case False
  then obtain h where h: "global s = Some h" "\<not> shutdown_flag s" by auto
  have five: "call_run 5 d (Entering e) s = (case observe_step d e s of
      (Inl f, s') \<Rightarrow> (Inl f, s') | (Inr pc', s') \<Rightarrow> call_run 3 d pc' s')"
    using call_run.simps(2) [of 4 d "Entering e" s] call_run.simps(2) [of 3 d "Observing e" s] h
    by (simp add: enter_step_def)
  have send: "\<exists>f. call_run 3 d (Sending e) (s\<lparr>global := Some h1\<rparr>) = (Inl f, s\<lparr>global := Some (snd r)\<rparr>) \<and>
      fst r = call_result f"
    if "r = (case tx h1 of
                None \<Rightarrow> (Ret (), h1)
              | Some c \<Rightarrow>
                  (case try_send (chan d) c (Metric e) of
                     (Inr _, c') \<Rightarrow> (Ret (), h1\<lparr>tx := Some c'\<rparr>)
                   | (Inl _, c') \<Rightarrow>
                       (Ret (), h1\<lparr>tx := Some c', dropped_total := dropped_total h1 + 1,
                          eh_registry := map_option (inc_dropped (prom d)) (eh_registry h1)\<rparr>)))" for h1 r
    unfolding that by (auto simp: call_run_send split: option.split prod.split sum.split)
  show ?thesis
  proof (cases "eh_registry h")
    case None
    then show ?thesis
      using send [OF refl, of h] h process_global_id [OF h(1)]
      by (auto simp: five observe_step_def global_record_def engine_record_def split: prod.split)
  next
    case (Some reg)
    obtain res reg' where u: "update (prom d) reg e = (res, reg')" by fastforce
    show ?thesis
    proof (cases res)
      case (Panicked p)
      then show ?thesis using h Some u
        by (simp add: five observe_step_def on_handle_def global_record_def engine_record_def)
    next
      case (Ret _)
      then show ?thesis
        using send [OF refl, of "h\<lparr>eh_registry := Some reg'\<rparr>"] h Some u
        by (auto simp: five observe_step_def on_handle_def global_record_def engine_record_def split: prod.split)
    qed
  qed
qed

section \<open>The writer thread\<close>

text \<open>
  The points of \<open>writer_loop\<close> between two operations on the channel or the keyspace. An
  \<open>Inserting\<close> writer is inside \<open>flush_batch\<close>, with the rest of its batch and whether
  it took the shutdown message.
\<close>

datatype writer_pc =
    Waiting                          \<comment> \<open>before \<open>blocking_recv\<close>\<close>
  | Draining "metric_entry list"     \<comment> \<open>in the inner loop\<close>
  | Inserting "metric_entry list" bool
  | Leaving                          \<comment> \<open>before the last \<open>persist\<close>\<close>
  | Closing                          \<comment> \<open>before the receiver is dropped\<close>
  | Gone

fun write_op ::
  "json_api \<Rightarrow> 'p fjall_api \<Rightarrow> 'c chan_api \<Rightarrow> nat \<Rightarrow> writer_pc \<Rightarrow> ('c, 'p) writer
     \<Rightarrow> writer_pc \<times> ('c, 'p) writer" where
  "write_op jn fl ch rows Waiting w =
     (case blocking_recv ch (w_rx w) of
        (Received (Metric e), c) \<Rightarrow> (Draining [e], w\<lparr>w_rx := c\<rparr>)
      | (Received Shutdown, c) \<Rightarrow> (Leaving, w\<lparr>w_rx := c\<rparr>)
      | (Disconnected, c) \<Rightarrow> (Leaving, w\<lparr>w_rx := c\<rparr>)
      | (WouldBlock, c) \<Rightarrow> (Waiting, w\<lparr>w_rx := c\<rparr>))"
| "write_op jn fl ch rows (Draining batch) w =
     (if length batch < rows
      then (case try_recv ch (w_rx w) of
              (Some (Metric e), c) \<Rightarrow> (Draining (batch @ [e]), w\<lparr>w_rx := c\<rparr>)
            | (Some Shutdown, c) \<Rightarrow> (Inserting batch True, w\<lparr>w_rx := c\<rparr>)
            | (None, c) \<Rightarrow> (Inserting batch False, w\<lparr>w_rx := c\<rparr>))
      else (Inserting batch False, w))"
| "write_op jn fl ch rows (Inserting [] stop) w = (if stop then Leaving else Waiting, w)"
| "write_op jn fl ch rows (Inserting (e # es) stop) w =
     (Inserting es stop,
      w\<lparr>w_part := snd (part_insert fl (w_part w)
           (encode_key (entry_micros e) (w_seq w) (name e)) (encode_value jn e)),
        w_seq := w_seq w + 1\<rparr>)"
| "write_op jn fl ch rows Leaving w = (Closing, w\<lparr>w_part := persist_best_effort fl (w_part w)\<rparr>)"
| "write_op jn fl ch rows Closing w = (Gone, w\<lparr>w_rx := drop_receiver ch (w_rx w)\<rparr>)"
| "write_op jn fl ch rows Gone w = (Gone, w)"

fun write_ops ::
  "nat \<Rightarrow> json_api \<Rightarrow> 'p fjall_api \<Rightarrow> 'c chan_api \<Rightarrow> nat \<Rightarrow> writer_pc \<times> ('c, 'p) writer
     \<Rightarrow> writer_pc \<times> ('c, 'p) writer" where
  "write_ops 0 jn fl ch rows x = x"
| "write_ops (Suc n) jn fl ch rows x = write_ops n jn fl ch rows (write_op jn fl ch rows (fst x) (snd x))"

lemma write_ops_add:
  "write_ops (m + n) jn fl ch rows x = write_ops n jn fl ch rows (write_ops m jn fl ch rows x)"
  by (induction m arbitrary: x) simp_all

lemma write_ops_flush:
  "write_ops (Suc (length es)) jn fl ch rows (Inserting es stop, w) =
     (if stop then Leaving else Waiting,
      w\<lparr>w_part := fst (flush_batch jn fl es (w_part w) (w_seq w)),
        w_seq := snd (flush_batch jn fl es (w_part w) (w_seq w))\<rparr>)"
  by (induction es arbitrary: w) (simp_all add: Let_def)

lemma write_ops_drain:
  "drain ch rows batch (w_rx w) = (stop, batch', c') \<Longrightarrow>
     \<exists>n. write_ops n jn fl ch rows (Draining batch, w) = (Inserting batch' stop, w\<lparr>w_rx := c'\<rparr>)"
proof (induction "rows - length batch" arbitrary: batch w)
  case 0
  then show ?case by (intro exI [of _ 1]) (auto simp: drain.simps [of ch])
next
  case (Suc n)
  then have lt: "length batch < rows" by simp
  obtain x c where r: "try_recv ch (w_rx w) = (x, c)" by fastforce
  show ?case
  proof (cases "\<exists>e. x = Some (Metric e)")
    case True
    then obtain e where e: "x = Some (Metric e)" by blast
    have "drain ch rows (batch @ [e]) (w_rx (w\<lparr>w_rx := c\<rparr>)) = (stop, batch', c')"
      using Suc.prems lt r e by (simp add: drain.simps [of ch rows batch])
    moreover have "n = rows - length (batch @ [e])" using Suc.hyps(2) by simp
    ultimately obtain m where "write_ops m jn fl ch rows (Draining (batch @ [e]), w\<lparr>w_rx := c\<rparr>) =
        (Inserting batch' stop, w\<lparr>w_rx := c'\<rparr>)" using Suc.hyps(1) by fastforce
    then show ?thesis using lt r e by (intro exI [of _ "Suc m"]) simp
  next
    case False
    then show ?thesis using Suc.prems lt r
      by (intro exI [of _ 1])
         (auto simp: drain.simps [of ch rows batch] split: option.splits pipeline_msg.splits)
  qed
qed

text \<open>The operations of one turn, in a row, are the turn.\<close>

lemma write_ops_turn:
  assumes "writer_turn jn fl ch rows w = (status, w')"
  shows "\<exists>n. write_ops n jn fl ch rows (Waiting, w) = (if status = Exited then Gone else Waiting, w')"
proof -
  obtain b c where b: "blocking_recv ch (w_rx w) = (b, c)" by fastforce
  have leave: "write_ops 2 jn fl ch rows (Leaving, u) =
      (Gone, u\<lparr>w_part := persist_best_effort fl (w_part u), w_rx := drop_receiver ch (w_rx u)\<rparr>)" for u
    by (simp add: numeral_2_eq_2)
  show ?thesis
  proof (cases "\<exists>e. b = Received (Metric e)")
    case True
    then obtain e where e: "b = Received (Metric e)" by blast
    obtain stop batch c' where dr: "drain ch rows [e] c = (stop, batch, c')" by (metis prod_cases3)
    let ?w1 = "w\<lparr>w_rx := c'\<rparr>"
    let ?w2 = "?w1\<lparr>w_part := fst (flush_batch jn fl batch (w_part w) (w_seq w)),
        w_seq := snd (flush_batch jn fl batch (w_part w) (w_seq w))\<rparr>"
    obtain n where n: "write_ops n jn fl ch rows (Draining [e], w\<lparr>w_rx := c\<rparr>) = (Inserting batch stop, ?w1)"
      using write_ops_drain [of ch rows "[e]" "w\<lparr>w_rx := c\<rparr>"] dr by fastforce
    have "write_ops (n + Suc (length batch)) jn fl ch rows (Draining [e], w\<lparr>w_rx := c\<rparr>) =
        (if stop then Leaving else Waiting, ?w2)"
      unfolding write_ops_add n write_ops_flush by simp
    then have f: "write_ops (Suc (n + Suc (length batch))) jn fl ch rows (Waiting, w) =
        (if stop then Leaving else Waiting, ?w2)" using b e by simp
    show ?thesis
    proof (cases stop)
      case True
      then have "write_ops (Suc (n + Suc (length batch)) + 2) jn fl ch rows (Waiting, w) =
          (Gone, ?w2\<lparr>w_part := persist_best_effort fl (w_part ?w2), w_rx := drop_receiver ch (w_rx ?w2)\<rparr>)"
        unfolding write_ops_add f by (simp add: leave)
      then show ?thesis using assms b e dr True
        by (intro exI [of _ "Suc (n + Suc (length batch)) + 2"]) (auto simp: writer_turn_def split: prod.splits)
    next
      case False
      then show ?thesis using assms b e dr f
        by (intro exI [of _ "Suc (n + Suc (length batch))"]) (auto simp: writer_turn_def split: prod.splits)
    qed
  next
    case False
    consider "b = WouldBlock" | "b \<noteq> WouldBlock" by blast
    then show ?thesis
    proof cases
      case 1
      then show ?thesis using assms b by (intro exI [of _ 1]) (auto simp: writer_turn_def)
    next
      case 2
      then have "write_op jn fl ch rows Waiting w = (Leaving, w\<lparr>w_rx := c\<rparr>)"
        using b False by (auto split: received.split pipeline_msg.split)
      then have "write_ops (Suc 2) jn fl ch rows (Waiting, w) =
          (Gone, w\<lparr>w_rx := drop_receiver ch c, w_part := persist_best_effort fl (w_part w)\<rparr>)"
        by (simp only: write_ops.simps fst_conv snd_conv leave) simp
      then show ?thesis using assms b False 2
        by (intro exI [of _ "Suc 2"]) (auto simp: writer_turn_def split: received.splits pipeline_msg.splits)
    qed
  qed
qed

section \<open>The thread in \<open>shutdown\<close>\<close>

text \<open>
  The first call finds \<open>SHUTDOWN\<close> unset and goes on; \<open>Delivering n\<close> has \<open>n\<close> attempts
  left and sleeps between two of them.
\<close>

datatype stop_pc =
    Idle | Delivering nat | Taking | Joining | Aborting | Syncing | Finished

fun stop_step ::
  "('pw, 'h, 'c, 'p) deps \<Rightarrow> stop_pc \<Rightarrow> ('pw, 'h, 'c, 'p) process
     \<Rightarrow> stop_pc \<times> ('pw, 'h, 'c, 'p) process" where
  "stop_step d Idle s =
     (case global s of
        None \<Rightarrow> (Idle, s)
      | Some h \<Rightarrow>
          if shutdown_flag s then (Finished, s)
          else (if tx h = None then Taking else Delivering 100, s\<lparr>shutdown_flag := True\<rparr>))"
| "stop_step d (Delivering 0) s = (Taking, s)"
| "stop_step d (Delivering (Suc n)) s =
     (case Option.bind (global s) tx of
        None \<Rightarrow> (Taking, s)
      | Some c \<Rightarrow>
          (case try_send (chan d) c Shutdown of
             (Inr _, c') \<Rightarrow> (Taking, set_tx c' s)
           | (Inl Closed, c') \<Rightarrow> (Taking, set_tx c' s)
           | (Inl Full, c') \<Rightarrow> (Delivering n, set_tx c' s)))"
| "stop_step d Taking s =
     (if poisoned (writer_join s) then (Aborting, s)
      else
        (case guarded (writer_join s) of
           None \<Rightarrow> (Aborting, s)
         | Some _ \<Rightarrow> (Joining, s\<lparr>writer_join := (writer_join s)\<lparr>guarded := None\<rparr>\<rparr>)))"
| "stop_step d Joining s =
     (case writer_thr s of
        None \<Rightarrow> (Aborting, s)
      | Some t \<Rightarrow> (if wt_exited t then Aborting else Joining, s))"
| "stop_step d Aborting s = (Syncing, abort_compaction s)"
| "stop_step d Syncing s = (Finished, final_persist d s)"
| "stop_step d Finished s = (Finished, s)"

section \<open>The compaction pass\<close>

text \<open>
  A running pass: what is left of the scan, and the locals of
  \<open>run_compaction_once_blocking\<close>. It shares the partition with the writer.
\<close>

record 'w cold_pass =
  cp_cfg :: fjall_config
  cp_env :: pass_env
  cp_rest :: "(rstr + kv) list"
  cp_moved :: nat
  cp_pending :: pending_batch
  cp_export :: "(path \<times> 'w) option"

definition pass_open ::
  "('w, 'fs) parquet_api \<Rightarrow> 'p fjall_api \<Rightarrow> pass_env \<Rightarrow> fjall_config \<Rightarrow> 'p \<Rightarrow> 'fs
     \<Rightarrow> 'w cold_pass option \<times> 'fs" where
  "pass_open pq fl env cfg part fs =
     (case cutoff_micros env cfg of
        Panicked x \<Rightarrow> (None, fs)
      | Ret (Inl e) \<Rightarrow> (None, fs)
      | Ret (Inr cutoff) \<Rightarrow>
          (case create_dirs pq (cold_dir cfg) fs of
             (Inl e, fs1) \<Rightarrow> (None, fs1)
           | (Inr _, fs1) \<Rightarrow>
               (Some \<lparr>cp_cfg = cfg, cp_env = env, cp_rest = part_range_to fl part (utf8 (cutoff_prefix cutoff)),
                  cp_moved = 0, cp_pending = pending_new, cp_export = None\<rparr>, fs1)))"

definition cp_state :: "'w cold_pass \<Rightarrow> 'p \<Rightarrow> 'fs \<Rightarrow> ('w, 'p, 'fs) pass_state" where
  "cp_state cp part fs =
     \<lparr>pending = cp_pending cp, export = cp_export cp, ps_part = part, ps_fs = fs\<rparr>"

text \<open>One item of the scan, with the flush it may cause, or the end of the pass.\<close>

definition pass_move ::
  "('w, 'fs) parquet_api \<Rightarrow> 'p fjall_api \<Rightarrow> json_api \<Rightarrow> 'w cold_pass \<Rightarrow> 'p \<Rightarrow> 'fs
     \<Rightarrow> ((error + nat) + 'w cold_pass) \<times> 'p \<times> 'fs" where
  "pass_move pq fl jn cp part fs =
     (case cp_rest cp of
        [] \<Rightarrow> (case finish_pass pq fl (cp_env cp) (cp_cfg cp) (cp_moved cp) (cp_state cp part fs) of
                 (r, part', fs') \<Rightarrow> (Inl r, part', fs'))
      | item # rest \<Rightarrow>
          (case scan_item pq fl jn (cp_env cp) (cp_cfg cp) item (cp_state cp part fs) of
             (Inl e, st) \<Rightarrow> (Inl (Inl e), ps_part st, ps_fs st)
           | (Inr n, st) \<Rightarrow>
               (Inr (cp\<lparr>cp_rest := rest, cp_moved := cp_moved cp + n, cp_pending := pending st,
                  cp_export := export st\<rparr>), ps_part st, ps_fs st)))"

fun pass_moves ::
  "nat \<Rightarrow> ('w, 'fs) parquet_api \<Rightarrow> 'p fjall_api \<Rightarrow> json_api \<Rightarrow> 'w cold_pass \<Rightarrow> 'p \<Rightarrow> 'fs
     \<Rightarrow> ((error + nat) + 'w cold_pass) \<times> 'p \<times> 'fs" where
  "pass_moves 0 pq fl jn cp part fs = (Inr cp, part, fs)"
| "pass_moves (Suc n) pq fl jn cp part fs =
     (case pass_move pq fl jn cp part fs of
        (Inl r, part', fs') \<Rightarrow> (Inl r, part', fs')
      | (Inr cp', part', fs') \<Rightarrow> pass_moves n pq fl jn cp' part' fs')"

lemma cp_state_id [simp]: "cp_state (cp\<lparr>cp_rest := rest, cp_moved := m, cp_pending := pending st,
    cp_export := export st\<rparr>) (ps_part st) (ps_fs st) = st"
  by (simp add: cp_state_def)

lemma pass_moves_scan:
  "pass_moves (Suc (length (cp_rest cp))) pq fl jn cp part fs =
     (case scan_items pq fl jn (cp_env cp) (cp_cfg cp) (cp_rest cp) (cp_moved cp) (cp_state cp part fs) of
        (Inl e, st) \<Rightarrow> (Inl (Inl e), ps_part st, ps_fs st)
      | (Inr moved, st) \<Rightarrow>
          (case finish_pass pq fl (cp_env cp) (cp_cfg cp) moved st of (r, part', fs') \<Rightarrow> (Inl r, part', fs')))"
proof (induction "cp_rest cp" arbitrary: cp part fs)
  case Nil
  from Nil [symmetric] show ?case
    by (auto simp: pass_move_def split: prod.split)
next
  case (Cons item rest)
  obtain r st where s: "scan_item pq fl jn (cp_env cp) (cp_cfg cp) item (cp_state cp part fs) = (r, st)"
    by fastforce
  show ?case
  proof (cases r)
    case (Inl e)
    then show ?thesis using s Cons.hyps(2) [symmetric] by (simp add: pass_move_def)
  next
    case (Inr n)
    let ?cp = "cp\<lparr>cp_rest := rest, cp_moved := cp_moved cp + n, cp_pending := pending st, cp_export := export st\<rparr>"
    from Cons.hyps(1) [of ?cp "ps_part st" "ps_fs st"] show ?thesis
      using s Inr Cons.hyps(2) [symmetric] by (simp add: pass_move_def split: prod.split sum.split)
  qed
qed

lemma pass_alone:
  "case pass_open pq fl env cfg part fs of
     (None, fs1) \<Rightarrow> \<exists>r. run_compaction_once_blocking pq fl jn env cfg part fs = (r, part, fs1)
   | (Some cp, fs1) \<Rightarrow>
       (\<exists>r part' fs'. pass_moves (Suc (length (cp_rest cp))) pq fl jn cp part fs1 = (Inl r, part', fs') \<and>
          run_compaction_once_blocking pq fl jn env cfg part fs = (Ret r, part', fs'))"
proof (cases "pass_open pq fl env cfg part fs")
  case (Pair o' fs1)
  show ?thesis
  proof (cases o')
    case None
    then show ?thesis using Pair
      by (auto simp: pass_open_def run_compaction_once_blocking_def split: res.splits sum.splits prod.splits)
  next
    case (Some cp)
    have "run_compaction_once_blocking pq fl jn env cfg part fs =
      (case scan_items pq fl jn (cp_env cp) (cp_cfg cp) (cp_rest cp) (cp_moved cp) (cp_state cp part fs1) of
         (Inl e, st) \<Rightarrow> (Ret (Inl e), ps_part st, ps_fs st)
       | (Inr moved, st) \<Rightarrow>
           (case finish_pass pq fl (cp_env cp) (cp_cfg cp) moved st of (r, part', fs') \<Rightarrow> (Ret r, part', fs')))"
      using Pair Some
      by (auto simp: pass_open_def run_compaction_once_blocking_def cp_state_def split: res.splits sum.splits prod.splits)
    then show ?thesis using Pair Some pass_moves_scan [of cp pq fl jn part fs1]
      by (auto simp del: pass_moves.simps split: sum.split prod.split)
  qed
qed

section \<open>The whole system\<close>

text \<open>
  A thread that records: the calls it made with their fates, the call it is in, and what
  it is going to record.
\<close>

record caller =
  c_past :: "(metric_entry \<times> fate) list"
  c_now :: "call_pc option"
  c_todo :: "metric_entry list"

record ('pw, 'h, 'c, 'p, 'w, 'fs) sys =
  proc :: "('pw, 'h, 'c, 'p) process"
  callers :: "caller list"
  wpc :: writer_pc
  spc :: stop_pc
  cold :: "'w cold_pass option"
  disk :: 'fs

text \<open>
  What happens next: a step of a caller, of the writer, of \<open>shutdown\<close>, the start of a
  pass by a compaction task that was not aborted, or a step of the running pass.
\<close>

datatype event = Call nat | Write | Stop | Compact nat pass_env | Move

fun entry_of :: "call_pc \<Rightarrow> metric_entry" where
  "entry_of (Entering e) = e"
| "entry_of (Observing e) = e"
| "entry_of (Sending e) = e"
| "entry_of (Refused e) = e"
| "entry_of (Counting e) = e"

lemma call_step_entry: "call_step d pc s = (Inr pc', s') \<Longrightarrow> entry_of pc' = entry_of pc"
  by (cases pc) (auto simp: call_step_defs Let_def split: option.splits prod.splits res.splits sum.splits if_splits)

definition caller_step ::
  "('pw, 'h, 'c, 'p) deps \<Rightarrow> caller \<Rightarrow> ('pw, 'h, 'c, 'p) process \<Rightarrow> caller \<times> ('pw, 'h, 'c, 'p) process" where
  "caller_step d c s =
     (case c_now c of
        None \<Rightarrow>
          (case c_todo c of
             [] \<Rightarrow> (c, s)
           | e # es \<Rightarrow> (c\<lparr>c_now := Some (Entering e), c_todo := es\<rparr>, s))
      | Some pc \<Rightarrow>
          (case call_step d pc s of
             (Inl f, s') \<Rightarrow> (c\<lparr>c_past := c_past c @ [(entry_of pc, f)], c_now := None\<rparr>, s')
           | (Inr pc', s') \<Rightarrow> (c\<lparr>c_now := Some pc'\<rparr>, s')))"

definition writer_event ::
  "('pw, 'h, 'c, 'p) deps \<Rightarrow> writer_pc \<Rightarrow> ('pw, 'h, 'c, 'p) process \<Rightarrow> writer_pc \<times> ('pw, 'h, 'c, 'p) process" where
  "writer_event d pc s =
     (case writer_of s of
        None \<Rightarrow> (pc, s)
      | Some (t, w) \<Rightarrow>
          (case write_op (js d) (fj d) (chan d) (wt_rows t) pc w of
             (pc', w') \<Rightarrow> (pc', put_writer (if pc' = Gone then Exited else Looping) w' s)))"

definition partition_of :: "('pw, 'h, 'c, 'p) process \<Rightarrow> 'p option" where
  "partition_of s = Option.bind (global s) eh_fjall"

definition set_partition :: "'p \<Rightarrow> ('pw, 'h, 'c, 'p) process \<Rightarrow> ('pw, 'h, 'c, 'p) process" where
  "set_partition p s = on_handle (\<lambda>h. h\<lparr>eh_fjall := Some p\<rparr>) s"

fun sys_step ::
  "('pw, 'h, 'c, 'p) deps \<Rightarrow> ('w, 'fs) parquet_api \<Rightarrow> event \<Rightarrow> ('pw, 'h, 'c, 'p, 'w, 'fs) sys
     \<Rightarrow> ('pw, 'h, 'c, 'p, 'w, 'fs) sys" where
  "sys_step d pq (Call i) x =
     (if i < length (callers x)
      then (case caller_step d (callers x ! i) (proc x) of
              (c, s) \<Rightarrow> x\<lparr>callers := (callers x)[i := c], proc := s\<rparr>)
      else x)"
| "sys_step d pq Write x =
     (case writer_event d (wpc x) (proc x) of (pc, s) \<Rightarrow> x\<lparr>wpc := pc, proc := s\<rparr>)"
| "sys_step d pq Stop x =
     (case stop_step d (spc x) (proc x) of (pc, s) \<Rightarrow> x\<lparr>spc := pc, proc := s\<rparr>)"
| "sys_step d pq (Compact i env) x =
     (if cold x = None \<and> i < length (tasks (proc x)) \<and> \<not> snd (tasks (proc x) ! i) \<and>
         enable_compaction (fst (tasks (proc x) ! i))
      then (case partition_of (proc x) of
              None \<Rightarrow> x
            | Some part \<Rightarrow>
                (case pass_open pq (fj d) env (fst (tasks (proc x) ! i)) part (disk x) of
                   (cp, fs) \<Rightarrow> x\<lparr>cold := cp, disk := fs\<rparr>))
      else x)"
| "sys_step d pq Move x =
     (case (cold x, partition_of (proc x)) of
        (Some cp, Some part) \<Rightarrow>
          (case pass_move pq (fj d) (js d) cp part (disk x) of
             (Inl r, part', fs') \<Rightarrow> x\<lparr>cold := None, proc := set_partition part' (proc x), disk := fs'\<rparr>
           | (Inr cp', part', fs') \<Rightarrow>
               x\<lparr>cold := Some cp', proc := set_partition part' (proc x), disk := fs'\<rparr>)
      | _ \<Rightarrow> x)"

fun sys_run ::
  "('pw, 'h, 'c, 'p) deps \<Rightarrow> ('w, 'fs) parquet_api \<Rightarrow> event list \<Rightarrow> ('pw, 'h, 'c, 'p, 'w, 'fs) sys
     \<Rightarrow> ('pw, 'h, 'c, 'p, 'w, 'fs) sys" where
  "sys_run d pq [] x = x"
| "sys_run d pq (ev # evs) x = sys_run d pq evs (sys_step d pq ev x)"

interpretation sched: event_system "sys_step d pq" "sys_run d pq" for d pq
  by unfold_locales simp_all

text \<open>The system after \<open>init\<close>: nobody has called \<open>record\<close> yet.\<close>

definition booted ::
  "('pw, 'h, 'c, 'p) process \<Rightarrow> metric_entry list list \<Rightarrow> 'fs \<Rightarrow> ('pw, 'h, 'c, 'p, 'w, 'fs) sys" where
  "booted s todos fs =
     \<lparr>proc = s, callers = map (\<lambda>es. \<lparr>c_past = [], c_now = None, c_todo = es\<rparr>) todos,
      wpc = Waiting, spc = Idle, cold = None, disk = fs\<rparr>"

text \<open>A system over the crates in memory, with no file.\<close>

definition demo_system ::
  "(ref_world, nat, chan_view, kv_store) process \<Rightarrow> metric_entry list list
     \<Rightarrow> (ref_world, nat, chan_view, kv_store, path \<times> row list list, path \<rightharpoonup> row list) sys" where
  "demo_system s todos = booted s todos Map.empty"

end
