(* ===== verification/Schedules.thy ===== *)
theory Schedules
  imports Threads Pipeline
begin

text \<open>
  The functions of \<open>Engine\<close>, \<open>Lifecycle\<close> and \<open>Compaction\<close> are schedules of the
  system of \<open>Threads\<close>: a call, a turn of the writer, a pass and a whole \<open>shutdown\<close> are
  what their steps do when nothing else runs in between.
\<close>

section \<open>A call\<close>

text \<open>\<open>n\<close> steps of a caller that stay inside its call and end it.\<close>

lemma call_events:
  "i < length (callers x) \<Longrightarrow> c_now (callers x ! i) = Some pc \<Longrightarrow>
   call_run n d pc (proc x) = (Inl f, s) \<Longrightarrow>
   \<exists>m. sys_run d pq (replicate m (Call i)) x =
     x\<lparr>callers := (callers x)[i := (callers x ! i)\<lparr>c_past := c_past (callers x ! i) @ [(entry_of pc, f)], c_now := None\<rparr>],
       proc := s\<rparr>"
proof (induction n arbitrary: pc x)
  case (Suc n)
  obtain r s1 where r: "call_step d pc (proc x) = (r, s1)" by fastforce
  show ?case
  proof (cases r)
    case (Inl g)
    then show ?thesis using Suc.prems r by (intro exI [of _ 1]) (simp add: caller_step_def)
  next
    case (Inr pc')
    note entry = call_step_entry [OF r [unfolded Inr]]
    let ?c = "(callers x ! i)\<lparr>c_now := Some pc'\<rparr>"
    let ?x = "x\<lparr>callers := (callers x)[i := ?c], proc := s1\<rparr>"
    have step: "sys_step d pq (Call i) x = ?x" using Suc.prems(1,2) r Inr by (simp add: caller_step_def)
    have "call_run n d pc' (proc ?x) = (Inl f, s)" using Suc.prems(3) r Inr by simp
    then obtain m where "sys_run d pq (replicate m (Call i)) ?x =
        ?x\<lparr>callers := (callers ?x)[i := ?c\<lparr>c_past := c_past ?c @ [(entry_of pc', f)], c_now := None\<rparr>], proc := s\<rparr>"
      using Suc.IH [of ?x pc'] Suc.prems(1) by auto
    then show ?thesis using Suc.prems(1) by (intro exI [of _ "Suc m"]) (simp add: step entry del: sys_step.simps)
  qed
qed simp

section \<open>The writer\<close>

lemma put_writer_put [simp]: "put_writer b w' (put_writer a w s) = put_writer b w' s"
  by (cases "global s"; cases "writer_thr s") (simp_all add: put_writer_def)

lemma writer_of_put:
  "writer_of s = Some (t, w) \<Longrightarrow> a \<noteq> Exited \<Longrightarrow>
     \<exists>t'. writer_of (put_writer a w' s) = Some (t', w') \<and> wt_rows t' = wt_rows t"
  by (auto simp: writer_of_def put_writer_def split: option.splits if_splits)

text \<open>Operations of the writer before the last one do not end it.\<close>

lemma write_events:
  "writer_of (proc x) = Some (t, w) \<Longrightarrow> wpc x \<noteq> Gone \<Longrightarrow>
   write_ops n (js d) (fj d) (chan d) (wt_rows t) (wpc x, w) = (pc', w') \<Longrightarrow> 0 < n \<Longrightarrow>
   \<exists>m. sys_run d pq (replicate m Write) x =
     x\<lparr>wpc := pc', proc := put_writer (if pc' = Gone then Exited else Looping) w' (proc x)\<rparr>"
proof (induction n arbitrary: x t w)
  case (Suc n)
  obtain pc1 w1 where op: "write_op (js d) (fj d) (chan d) (wt_rows t) (wpc x) w = (pc1, w1)" by fastforce
  let ?x = "x\<lparr>wpc := pc1, proc := put_writer (if pc1 = Gone then Exited else Looping) w1 (proc x)\<rparr>"
  have step: "sys_step d pq Write x = ?x" using Suc.prems(1) op by (simp add: writer_event_def)
  have rest: "write_ops n (js d) (fj d) (chan d) (wt_rows t) (pc1, w1) = (pc', w')"
    using Suc.prems(3) op by simp
  show ?case
  proof (cases "n = 0 \<or> pc1 = Gone")
    case True
    have gone: "write_ops n (js d) (fj d) (chan d) (wt_rows t) (Gone, w1) = (Gone, w1)" by (induction n) simp_all
    have "pc' = pc1" "w' = w1" using rest True gone by auto
    then show ?thesis using step by (intro exI [of _ 1]) (simp del: sys_step.simps)
  next
    case False
    then obtain t' where t': "writer_of (proc ?x) = Some (t', w1)" "wt_rows t' = wt_rows t"
      using writer_of_put [OF Suc.prems(1), of Looping w1] by auto
    from Suc.IH [OF t'(1)] rest False t'(2) obtain m where
      "sys_run d pq (replicate m Write) ?x = ?x\<lparr>wpc := pc',
        proc := put_writer (if pc' = Gone then Exited else Looping) w' (proc ?x)\<rparr>" by auto
    then show ?thesis by (intro exI [of _ "Suc m"]) (simp add: step del: sys_step.simps)
  qed
qed simp

lemma put_writer_status: "a \<noteq> Exited \<Longrightarrow> b \<noteq> Exited \<Longrightarrow> put_writer a w s = put_writer b w s"
  by (simp add: put_writer_def)

lemma turn_events:
  assumes "writer_of (proc x) = Some (t, w)" "wpc x = Waiting"
    and "writer_turn (js d) (fj d) (chan d) (wt_rows t) w = (status, w')"
  shows "\<exists>m. sys_run d pq (replicate m Write) x =
    x\<lparr>wpc := if status = Exited then Gone else Waiting, proc := put_writer status w' (proc x)\<rparr>"
proof -
  let ?ops = "\<lambda>n. write_ops n (js d) (fj d) (chan d) (wt_rows t)"
  obtain n where n: "?ops n (Waiting, w) = (if status = Exited then Gone else Waiting, w')"
    using write_ops_turn [OF assms(3)] by blast
  show ?thesis
  proof (cases "n = 0")
    case True
    then have "status \<noteq> Exited" "w' = w" using n by (auto split: if_splits)
    moreover have "put_writer status w (proc x) = proc x"
      using assms(1) calculation(1)
      by (cases "proc x") (auto simp: writer_of_def put_writer_def split: option.splits if_splits)
    ultimately show ?thesis using assms(2) by (intro exI [of _ 0]) simp
  next
    case False
    have "wpc x \<noteq> Gone" "0 < n" using assms(2) False by simp_all
    moreover have "?ops n (wpc x, w) = (if status = Exited then Gone else Waiting, w')"
      using n assms(2) by simp
    ultimately obtain m where "sys_run d pq (replicate m Write) x = x\<lparr>wpc := if status = Exited then Gone else Waiting,
        proc := put_writer (if (if status = Exited then Gone else Waiting) = Gone then Exited else Looping) w' (proc x)\<rparr>"
      using write_events [OF assms(1)] by blast
    then show ?thesis using put_writer_status [of status Looping w' "proc x"]
      by (cases "status = Exited") auto
  qed
qed

section \<open>A pass\<close>

lemma move_events:
  "cold x = Some cp \<Longrightarrow> partition_of (proc x) = Some part \<Longrightarrow>
   pass_moves n pq (fj d) (js d) cp part (disk x) = (Inl r, part', fs') \<Longrightarrow>
   \<exists>m. sys_run d pq (replicate m Move) x =
     x\<lparr>cold := None, proc := set_partition part' (proc x), disk := fs'\<rparr>"
proof (induction n arbitrary: x cp part)
  case (Suc n)
  obtain res p1 fs1 where mv: "pass_move pq (fj d) (js d) cp part (disk x) = (res, p1, fs1)" by (metis prod_cases3)
  show ?case
  proof (cases res)
    case (Inl r')
    then show ?thesis using Suc.prems mv by (intro exI [of _ 1]) simp
  next
    case (Inr cp')
    let ?x = "x\<lparr>cold := Some cp', proc := set_partition p1 (proc x), disk := fs1\<rparr>"
    have step: "sys_step d pq Move x = ?x" using Suc.prems(1,2) mv Inr by simp
    have "partition_of (proc ?x) = Some p1"
      using Suc.prems(2) by (auto simp: partition_of_def set_partition_def on_handle_def split: bind_splits)
    moreover have "pass_moves n pq (fj d) (js d) cp' p1 (disk ?x) = (Inl r, part', fs')"
      using Suc.prems(3) mv Inr by simp
    ultimately obtain m where "sys_run d pq (replicate m Move) ?x =
        ?x\<lparr>cold := None, proc := set_partition part' (proc ?x), disk := fs'\<rparr>" using Suc.IH [of ?x] by auto
    moreover have "set_partition part' (proc ?x) = set_partition part' (proc x)"
      by (cases "global (proc x)") (simp_all add: set_partition_def on_handle_def)
    ultimately show ?thesis by (intro exI [of _ "Suc m"]) (simp add: step del: sys_step.simps)
  qed
qed simp

lemma set_partition_same: "partition_of s = Some p \<Longrightarrow> set_partition p s = s"
  by (cases s) (auto simp: partition_of_def set_partition_def on_handle_def split: bind_splits)

lemma pass_events:
  assumes "cold x = None" "i < length (tasks (proc x))" "tasks (proc x) ! i = (cfg, False)"
    and "enable_compaction cfg" "partition_of (proc x) = Some part"
    and "run_compaction_once_blocking pq (fj d) (js d) env cfg part (disk x) = (r, part', fs')"
  shows "\<exists>m. sys_run d pq (Compact i env # replicate m Move) x =
    x\<lparr>cold := None, proc := set_partition part' (proc x), disk := fs'\<rparr>"
proof -
  obtain cp fs1 where op: "pass_open pq (fj d) env cfg part (disk x) = (cp, fs1)" by fastforce
  let ?x = "x\<lparr>cold := cp, disk := fs1\<rparr>"
  have step: "sys_step d pq (Compact i env) x = ?x" using assms op by simp
  show ?thesis
  proof (cases cp)
    case None
    then have "part' = part" "fs' = fs1"
      using pass_alone [of pq "fj d" "js d" env cfg part "disk x"] op assms(6) by auto
    then have "sys_run d pq (Compact i env # replicate 0 Move) x =
        x\<lparr>cold := None, proc := set_partition part' (proc x), disk := fs'\<rparr>"
      using None set_partition_same [OF assms(5)] by (simp add: step del: sys_step.simps)
    then show ?thesis by blast
  next
    case (Some c)
    then obtain r' where "pass_moves (Suc (length (cp_rest c))) pq (fj d) (js d) c part (disk ?x) = (Inl r', part', fs')"
      using pass_alone [of pq "fj d" "js d" env cfg part "disk x"] op assms(6) by (auto simp del: pass_moves.simps)
    from move_events [OF _ _ this] Some assms(5) obtain m where
      "sys_run d pq (replicate m Move) ?x = ?x\<lparr>cold := None, proc := set_partition part' (proc ?x), disk := fs'\<rparr>" by auto
    then have "sys_run d pq (Compact i env # replicate m Move) x =
        x\<lparr>cold := None, proc := set_partition part' (proc x), disk := fs'\<rparr>" by (simp add: step del: sys_step.simps)
    then show ?thesis by blast
  qed
qed

section \<open>A shutdown\<close>

text \<open>The writer is between two turns, or has returned.\<close>

definition settled :: "('pw, 'h, 'c, 'p, 'w, 'fs) sys \<Rightarrow> bool" where
  "settled x \<longleftrightarrow>
     (wpc x = Waiting \<and> writer_of (proc x) \<noteq> None) \<or>
     (wpc x = Gone \<and> (\<exists>t. writer_thr (proc x) = Some t \<and> wt_exited t))"

lemma writer_of_exited: "writer_thr s = Some t \<Longrightarrow> wt_exited t \<Longrightarrow> writer_of s = None"
  by (auto simp: writer_of_def split: option.split)

lemma put_writer_exited:
  assumes "writer_of s = Some (t, w)"
  shows "\<exists>t. writer_thr (put_writer Exited w' s) = Some t \<and> wt_exited t"
  using assms by (auto simp: writer_of_def put_writer_def split: option.splits)

lemma step_events:
  assumes "settled x"
  shows "\<exists>m pc. sys_run d pq (replicate m Write) x = x\<lparr>wpc := pc, proc := writer_step d (proc x)\<rparr> \<and>
    settled (x\<lparr>wpc := pc, proc := writer_step d (proc x)\<rparr>)"
proof (cases "wpc x = Gone")
  case True
  then obtain t where "writer_thr (proc x) = Some t" "wt_exited t"
    using assms by (auto simp: settled_def)
  then have "writer_step d (proc x) = proc x" using writer_of_exited [of "proc x" t] by (simp add: writer_step_def)
  then show ?thesis using assms by (intro exI [of _ 0] exI [of _ "wpc x"]) simp
next
  case False
  then obtain t w where w: "writer_of (proc x) = Some (t, w)" "wpc x = Waiting"
    using assms by (auto simp: settled_def)
  obtain status w' where tu: "writer_turn (js d) (fj d) (chan d) (wt_rows t) w = (status, w')" by fastforce
  have ws: "writer_step d (proc x) = put_writer status w' (proc x)" using w tu by (simp add: writer_step_def)
  obtain m where "sys_run d pq (replicate m Write) x =
    x\<lparr>wpc := if status = Exited then Gone else Waiting, proc := writer_step d (proc x)\<rparr>"
    using turn_events [OF w tu] unfolding ws by blast
  moreover have "settled (x\<lparr>wpc := if status = Exited then Gone else Waiting, proc := writer_step d (proc x)\<rparr>)"
    using writer_of_put [OF w(1), of status w'] put_writer_exited [OF w(1)] by (auto simp: settled_def ws)
  ultimately show ?thesis by blast
qed

text \<open>The events of a schedule: steps of the writer and of \<open>shutdown\<close> only.\<close>

definition stop_events :: "event list \<Rightarrow> bool" where
  "stop_events evs \<longleftrightarrow> set evs \<subseteq> {Write, Stop}"

lemma stop_events_simps [simp]:
  "stop_events []" "stop_events (replicate m Write)" "stop_events (Stop # evs) = stop_events evs"
  "stop_events (evs @ evs') \<longleftrightarrow> stop_events evs \<and> stop_events evs'"
  by (auto simp: stop_events_def)

lemma env_events:
  "\<forall>y \<in> set es. y = WriterTurn \<Longrightarrow> settled x \<Longrightarrow>
   \<exists>evs pc. stop_events evs \<and> sys_run d pq evs x = x\<lparr>wpc := pc, proc := env_run d es (proc x)\<rparr> \<and>
     settled (x\<lparr>wpc := pc, proc := env_run d es (proc x)\<rparr>)"
proof (induction es arbitrary: x)
  case Nil
  then show ?case by (intro exI [of _ "[]"] exI [of _ "wpc x"]) simp
next
  case (Cons y es)
  obtain m pc where m: "sys_run d pq (replicate m Write) x = x\<lparr>wpc := pc, proc := writer_step d (proc x)\<rparr>"
    "settled (x\<lparr>wpc := pc, proc := writer_step d (proc x)\<rparr>)" using step_events [OF Cons.prems(2)] by blast
  from Cons.IH [OF _ m(2)] Cons.prems(1) obtain evs pc' where e: "stop_events evs"
    "sys_run d pq evs (x\<lparr>wpc := pc, proc := writer_step d (proc x)\<rparr>) =
       x\<lparr>wpc := pc', proc := env_run d es (writer_step d (proc x))\<rparr>"
    "settled (x\<lparr>wpc := pc', proc := env_run d es (writer_step d (proc x))\<rparr>)" by auto
  then show ?case using m(1) Cons.prems(1)
    by (intro exI [of _ "replicate m Write @ evs"] exI [of _ pc']) (simp add: sched.run_append)
qed

lemma settled_set_tx: "settled x \<Longrightarrow> settled (x\<lparr>spc := pc, proc := set_tx c (proc x)\<rparr>)"
  by (auto simp: settled_def set_tx_def writer_of_def split: option.splits)

lemma deliver_events:
  "only_writer sched \<Longrightarrow> settled x \<Longrightarrow> spc x = Delivering n \<Longrightarrow>
   \<exists>evs pc. stop_events evs \<and>
     sys_run d pq evs x = x\<lparr>spc := Taking, wpc := pc, proc := deliver n d sched (proc x)\<rparr> \<and>
     settled (x\<lparr>spc := Taking, wpc := pc, proc := deliver n d sched (proc x)\<rparr>)"
proof (induction n arbitrary: x sched)
  case 0
  then show ?case by (intro exI [of _ "[Stop]"] exI [of _ "wpc x"]) (auto simp: settled_def)
next
  case (Suc n)
  show ?case
  proof (cases "Option.bind (global (proc x)) tx")
    case None
    then show ?thesis using Suc.prems
      by (intro exI [of _ "[Stop]"] exI [of _ "wpc x"]) (auto simp: settled_def)
  next
    case (Some c)
    obtain r c' where r: "try_send (chan d) c Shutdown = (r, c')" by fastforce
    show ?thesis
    proof (cases "r = Inl Full")
      case False
      then have "sys_step d pq Stop x = x\<lparr>spc := Taking, proc := set_tx c' (proc x)\<rparr>"
        "deliver (Suc n) d sched (proc x) = set_tx c' (proc x)"
        using Suc.prems(3) Some r by (auto split: sum.split send_error.split)
      then show ?thesis using settled_set_tx [OF Suc.prems(2), of c' Taking]
        by (intro exI [of _ "[Stop]"] exI [of _ "wpc x"]) (simp del: sys_step.simps)
    next
      case True
      let ?x = "x\<lparr>spc := Delivering n, proc := set_tx c' (proc x)\<rparr>"
      have step: "sys_step d pq Stop x = ?x" using Suc.prems(3) Some r True by simp
      have set: "settled ?x" by (rule settled_set_tx [OF Suc.prems(2)])
      define es where "es = (case sched of [] \<Rightarrow> [] | es # rest \<Rightarrow> es)"
      define rest where "rest = (case sched of [] \<Rightarrow> [] | es # rest \<Rightarrow> rest)"
      have w: "\<forall>y \<in> set es. y = WriterTurn" "only_writer rest"
        using Suc.prems(1) by (auto simp: es_def rest_def only_writer_def split: list.splits)
      have del: "deliver (Suc n) d sched (proc x) = deliver n d rest (env_run d es (set_tx c' (proc x)))"
        using Some r True by (auto simp: es_def rest_def split: list.split)
      obtain evs pc where e: "stop_events evs"
        "sys_run d pq evs ?x = ?x\<lparr>wpc := pc, proc := env_run d es (proc ?x)\<rparr>"
        "settled (?x\<lparr>wpc := pc, proc := env_run d es (proc ?x)\<rparr>)"
        using env_events [OF w(1) set] by blast
      from Suc.IH [OF w(2) e(3)] obtain evs' pc' where e': "stop_events evs'"
        "sys_run d pq evs' (?x\<lparr>wpc := pc, proc := env_run d es (proc ?x)\<rparr>) =
           x\<lparr>spc := Taking, wpc := pc', proc := deliver (Suc n) d sched (proc x)\<rparr>"
        "settled (x\<lparr>spc := Taking, wpc := pc', proc := deliver (Suc n) d sched (proc x)\<rparr>)"
        unfolding del by auto
      have "sys_run d pq (Stop # evs @ evs') x = x\<lparr>spc := Taking, wpc := pc', proc := deliver (Suc n) d sched (proc x)\<rparr>"
        unfolding sys_run.simps step sched.run_append e(2) e'(2) ..
      then show ?thesis using e(1) e'(1,3) by (metis stop_events_simps(3,4))
    qed
  qed
qed

lemma run_events:
  "writer_of (proc x) = Some (t, w) \<Longrightarrow> wpc x = Waiting \<Longrightarrow>
   writer_run fuel (js d) (fj d) (chan d) (wt_rows t) w = Some (Exited, w') \<Longrightarrow>
   \<exists>m. sys_run d pq (replicate m Write) x = x\<lparr>wpc := Gone, proc := put_writer Exited w' (proc x)\<rparr>"
proof (induction fuel arbitrary: x t w)
  case (Suc fuel)
  obtain status w1 where tu: "writer_turn (js d) (fj d) (chan d) (wt_rows t) w = (status, w1)" by fastforce
  obtain m where m: "sys_run d pq (replicate m Write) x =
    x\<lparr>wpc := if status = Exited then Gone else Waiting, proc := put_writer status w1 (proc x)\<rparr>"
    using turn_events [OF Suc.prems(1,2) tu] by blast
  show ?case
  proof (cases status)
    case Looping
    let ?x = "x\<lparr>wpc := Waiting, proc := put_writer Looping w1 (proc x)\<rparr>"
    obtain t' where t': "writer_of (proc ?x) = Some (t', w1)" "wt_rows t' = wt_rows t"
      using writer_of_put [OF Suc.prems(1), of Looping w1] by auto
    have "writer_run fuel (js d) (fj d) (chan d) (wt_rows t') w1 = Some (Exited, w')"
      using Suc.prems(3) tu Looping t'(2) by simp
    from Suc.IH [OF t'(1) _ this] obtain m' where
      "sys_run d pq (replicate m' Write) ?x = ?x\<lparr>wpc := Gone, proc := put_writer Exited w' (proc ?x)\<rparr>" by auto
    then show ?thesis using m Looping
      by (intro exI [of _ "m + m'"]) (simp add: replicate_add sched.run_append)
  qed (use Suc.prems(3) tu m in auto)
qed simp

lemma shutdown_events:
  assumes "spc x = Idle" "settled x" "joinable (proc x)" "only_writer sched" "global (proc x) = Some h" "tx h \<noteq> None"
    and "shutdown fuel d sched (proc x) = (Returns r, s')"
  shows "\<exists>evs. stop_events evs \<and> sys_run d pq evs x = x\<lparr>spc := Finished, wpc := Gone, proc := s'\<rparr>"
proof -
  let ?s1 = "(proc x)\<lparr>shutdown_flag := True\<rparr>"
  let ?x1 = "x\<lparr>spc := Delivering 100, proc := ?s1\<rparr>"
  let ?s2 = "deliver 100 d sched ?s1"
  have flag: "\<not> shutdown_flag (proc x)" using assms(3) by (simp add: joinable_def)
  have x1: "sys_step d pq Stop x = ?x1" using assms(1,5,6) flag by simp
  have "settled ?x1" using assms(2) by (auto simp: settled_def writer_of_def)
  from deliver_events [OF assms(4) this, of 100 d pq] obtain evs pc where e: "stop_events evs"
    "sys_run d pq evs ?x1 = x\<lparr>spc := Taking, wpc := pc, proc := ?s2\<rparr>"
    "settled (x\<lparr>spc := Taking, wpc := pc, proc := ?s2\<rparr>)" by (auto simp del: deliver.simps)
  obtain s3 where s3: "take_join fuel d ?s2 = (Returns (), s3)" "s' = final_persist d (abort_compaction s3)"
    using assms(5-7) flag by (auto simp: shutdown_def Let_def simp del: deliver.simps split: prod.splits outcome.splits)
  have wj: "writer_join ?s2 = \<lparr>guarded = Some (), poisoned = False\<rparr>"
  proof -
    have "writer_join (env_run d es s) = writer_join s" if "\<forall>y \<in> set es. y = WriterTurn" for es s
      using same_rest_env_run [OF that, where s = s and d = d] by (simp add: same_rest_def)
    then have "writer_join (deliver n d sched s) = writer_join s" if "only_writer sched" for n sched s
      using that
      by (induction n arbitrary: sched s)
         (auto simp: only_writer_def set_tx_def split: option.split prod.split sum.split send_error.split list.split)
    then show ?thesis using assms(3,4) by (simp add: joinable_def)
  qed
  let ?x3 = "x\<lparr>spc := Joining, wpc := pc, proc := ?s2\<lparr>writer_join := (writer_join ?s2)\<lparr>guarded := None\<rparr>\<rparr>\<rparr>"
  have x3: "sys_step d pq Stop (x\<lparr>spc := Taking, wpc := pc, proc := ?s2\<rparr>) = ?x3" by (simp add: wj del: deliver.simps)
  have join: "join_writer fuel d (proc ?x3) = (Returns (), s3)" using s3(1) by (simp add: take_join_def wj)
  have "\<exists>m t. sys_run d pq (replicate m Write) ?x3 = ?x3\<lparr>wpc := Gone, proc := s3\<rparr> \<and>
      writer_thr s3 = Some t \<and> wt_exited t"
  proof (cases "writer_of (proc ?x3)")
    case None
    then have "writer_of ?s2 = None" by (simp add: writer_of_def del: deliver.simps)
    then obtain t where "pc = Gone" "writer_thr ?s2 = Some t" "wt_exited t"
      using e(3) by (auto simp: settled_def simp del: deliver.simps)
    then show ?thesis using join None
      by (intro exI [of _ 0] exI [of _ t]) (auto simp: join_writer_def simp del: deliver.simps)
  next
    case (Some tw)
    obtain t w where tw: "tw = (t, w)" by fastforce
    then obtain w' where run: "writer_run fuel (js d) (fj d) (chan d) (wt_rows t) w = Some (Exited, w')"
      "s3 = put_writer Exited w' (proc ?x3)"
      using join Some by (auto simp: join_writer_def split: option.splits prod.splits writer_status.splits)
    have "writer_of ?s2 \<noteq> None" using Some by (auto simp: writer_of_def simp del: deliver.simps split: option.splits)
    then have "pc = Waiting" using e(3) writer_of_exited by (fastforce simp: settled_def simp del: deliver.simps)
    then obtain m where "sys_run d pq (replicate m Write) ?x3 = ?x3\<lparr>wpc := Gone, proc := s3\<rparr>"
      using run_events [of ?x3 t w fuel d w' pq] Some tw run by (auto simp del: deliver.simps)
    then show ?thesis using put_writer_exited [OF Some [unfolded tw]] run(2) by blast
  qed
  then obtain m t where m: "sys_run d pq (replicate m Write) ?x3 = ?x3\<lparr>wpc := Gone, proc := s3\<rparr>"
    "writer_thr s3 = Some t" "wt_exited t" by blast
  let ?x4 = "?x3\<lparr>wpc := Gone, proc := s3\<rparr>"
  have "sys_run d pq [Stop, Stop, Stop] ?x4 = x\<lparr>spc := Finished, wpc := Gone, proc := s'\<rparr>"
    using m(2,3) by (simp add: s3(2) del: deliver.simps)
  then have "sys_run d pq (Stop # evs @ [Stop] @ replicate m Write @ [Stop, Stop, Stop]) x =
      x\<lparr>spc := Finished, wpc := Gone, proc := s'\<rparr>"
    unfolding sys_run.simps x1 sched.run_append e(2) x3 m(1) .
  then show ?thesis using e(1) by (intro exI [of _ "Stop # evs @ [Stop] @ replicate m Write @ [Stop, Stop, Stop]"]) simp
qed

section \<open>Properties\<close>



text \<open>
  The start of a pass and its steps, with nothing in between, are
  \<open>run_compaction_once_blocking\<close>, whatever the pass returns.
\<close>

lemma pass_is_a_schedule:
  assumes "cold x = None" and "i < length (tasks (proc x))" and "tasks (proc x) ! i = (cfg, False)"
    and "enable_compaction cfg" and "partition_of (proc x) = Some part"
    and "run_compaction_once_blocking pq (fj d) (js d) env cfg part (disk x) = (r, part', fs')"
  shows "\<exists>m. sys_run d pq (Compact i env # replicate m Move) x =
    x\<lparr>cold := None, proc := set_partition part' (proc x), disk := fs'\<rparr>"
  using assms by (rule pass_events)

lemma pass_is_a_schedule_witness:
  "\<exists>m. cold (sys_run demo_deps (ref_parquet True) (Compact 0 demo_env # replicate m Move)
      (demo_system ((demo_running 4)\<lparr>tasks := [(demo_cfg, False)]\<rparr>) [])) = None"
proof -
  let ?x = "demo_system ((demo_running 4)\<lparr>tasks := [(demo_cfg, False)]\<rparr>) []"
  obtain r part' fs' where run: "run_compaction_once_blocking (ref_parquet True) (fj demo_deps) (js demo_deps) demo_env
      demo_cfg store_empty (disk ?x) = (r, part', fs')" by (metis prod_cases3)
  have "cold ?x = None" "0 < length (tasks (proc ?x))" "tasks (proc ?x) ! 0 = (demo_cfg, False)"
    "enable_compaction demo_cfg" "partition_of (proc ?x) = Some store_empty"
    by (simp_all add: demo_system_def booted_def demo_cfg_def partition_of_def demo_running_def)
  from pass_is_a_schedule [OF this run] obtain m where
    "sys_run demo_deps (ref_parquet True) (Compact 0 demo_env # replicate m Move) ?x =
      ?x\<lparr>cold := None, proc := set_partition part' (proc ?x), disk := fs'\<rparr>" by blast
  then show ?thesis by (intro exI [of _ m]) simp
qed



end
