(* ===== verification/Accounting.thy ===== *)
theory Accounting
  imports Threads
begin

text \<open>
  The invariant of the system of \<open>Threads\<close> under every schedule: where each accepted sample
  is, what each caller's finished calls came to, what the two drop counters show, and how
  far a sample can be late for the shutdown.
\<close>

section \<open>What the invariant counts\<close>

fun metrics :: "pipeline_msg list \<Rightarrow> metric_entry list" where
  "metrics [] = []"
| "metrics (Metric e # ms) = e # metrics ms"
| "metrics (Shutdown # ms) = metrics ms"

lemma metrics_append [simp]: "metrics (ms @ ms') = metrics ms @ metrics ms'"
  by (induction ms rule: metrics.induct) simp_all

text \<open>The messages behind the first shutdown message.\<close>

fun behind :: "pipeline_msg list \<Rightarrow> pipeline_msg list" where
  "behind [] = []"
| "behind (Metric e # ms) = behind ms"
| "behind (Shutdown # ms) = ms"

lemma behind_none: "Shutdown \<notin> set ms \<Longrightarrow> behind ms = []"
  by (induction ms rule: behind.induct) simp_all

lemma behind_metric: "length (metrics (behind (ms @ [Metric e]))) \<le> Suc (length (metrics (behind ms)))"
  by (induction ms rule: behind.induct) simp_all

lemma behind_shutdown: "metrics (behind (ms @ [Shutdown])) = metrics (behind ms)"
  by (induction ms rule: behind.induct) simp_all

fun in_batch :: "writer_pc \<Rightarrow> metric_entry list" where
  "in_batch (Draining b) = b"
| "in_batch (Inserting b stop) = b"
| "in_batch Waiting = []"
| "in_batch Leaving = []"
| "in_batch Closing = []"
| "in_batch Gone = []"

text \<open>The writer took the shutdown message.\<close>

fun stopping :: "writer_pc \<Rightarrow> bool" where
  "stopping (Draining b) = False"
| "stopping (Inserting b stop) = stop"
| "stopping Waiting = False"
| "stopping Leaving = True"
| "stopping Closing = True"
| "stopping Gone = True"

text \<open>The number of queued samples that the writer is not going to take.\<close>

definition late :: "writer_pc \<Rightarrow> pipeline_msg list \<Rightarrow> nat" where
  "late pc q = length (metrics (if stopping pc then q else behind q))"

definition accepted_by :: "caller \<Rightarrow> metric_entry list" where
  "accepted_by c = map fst (filter (\<lambda>y. snd y = Accepted) (c_past c))"

definition drops_of :: "caller \<Rightarrow> nat" where
  "drops_of c = length (filter (\<lambda>y. snd y = Dropped) (c_past c))"

fun at_counting :: "call_pc option \<Rightarrow> nat" where
  "at_counting (Some (Counting e)) = 1"
| "at_counting (Some (Entering e)) = 0"
| "at_counting (Some (Observing e)) = 0"
| "at_counting (Some (Sending e)) = 0"
| "at_counting (Some (Refused e)) = 0"
| "at_counting None = 0"

text \<open>The caller passed the check of \<open>SHUTDOWN\<close> and may still send.\<close>

fun may_send :: "call_pc option \<Rightarrow> bool" where
  "may_send (Some (Observing e)) = True"
| "may_send (Some (Sending e)) = True"
| "may_send (Some (Entering e)) = False"
| "may_send (Some (Refused e)) = False"
| "may_send (Some (Counting e)) = False"
| "may_send None = False"

definition drops :: "caller list \<Rightarrow> nat" where
  "drops cs = sum_list (map drops_of cs)"

definition counting :: "caller list \<Rightarrow> nat" where
  "counting cs = sum_list (map (\<lambda>c. at_counting (c_now c)) cs)"

lemma sum_list_update_nat:
  "i < length xs \<Longrightarrow> sum_list (map f (xs[i := y])) + f (xs ! i) = sum_list (map f xs) + (f y :: nat)"
proof (induction xs arbitrary: i)
  case (Cons x xs)
  then show ?case by (cases i) auto
qed simp

section \<open>The parts of the invariant\<close>

text \<open>
  The channel, the partition and the writer thread: \<open>k\<close> is the number of inserts so far.
\<close>

definition wired ::
  "('c \<Rightarrow> chan_view) \<Rightarrow> nat \<Rightarrow> pipeline_msg list \<Rightarrow> bool \<Rightarrow> nat \<Rightarrow> ('pw, 'h, 'c, 'p) process \<Rightarrow> bool" where
  "wired cv cap q gone k s \<longleftrightarrow>
     (\<exists>h t c p. global s = Some h \<and> tx h = Some c \<and> eh_fjall h = Some p \<and> writer_thr s = Some t \<and>
        wt_exited t = gone \<and> wt_seq t = of_nat k \<and>
        cv c = \<lparr>queue = q, capacity = cap, rx_open = \<not> gone, tx_open = True\<rparr> \<and> length q \<le> cap)"

text \<open>The handle's drop counter shows \<open>n\<close>, the exported one \<open>m\<close>.\<close>

definition tally :: "('pw \<Rightarrow> 'h prom_view) \<Rightarrow> nat \<Rightarrow> nat \<Rightarrow> ('pw, 'h, 'c, 'p) process \<Rightarrow> bool" where
  "tally pv n m s \<longleftrightarrow>
     (\<exists>h. global s = Some h \<and> dropped_total h = of_nat n \<and>
        (\<forall>r. eh_registry h = Some r \<longrightarrow> prom_inv pv r \<and> drops_recorded pv r m))"

text \<open>
  The accepted samples with their callers, in the order the channel took them: \<open>pre\<close>
  before \<open>SHUTDOWN\<close> was set and \<open>post\<close> after.
\<close>

definition flow ::
  "caller list \<Rightarrow> writer_pc \<Rightarrow> pipeline_msg list \<Rightarrow> bool \<Rightarrow> (nat \<times> metric_entry) list
     \<Rightarrow> (nat \<times> metric_entry) list \<Rightarrow> metric_entry list \<Rightarrow> metric_entry list \<Rightarrow> bool" where
  "flow cs pc q flag pre post stored lost \<longleftrightarrow>
     (\<forall>y \<in> set (pre @ post). fst y < length cs) \<and>
     (\<forall>i < length cs. map snd (filter (\<lambda>y. fst y = i) (pre @ post)) = accepted_by (cs ! i)) \<and>
     map snd (pre @ post) = stored @ in_batch pc @ metrics q @ lost \<and>
     (lost \<noteq> [] \<longrightarrow> pc = Gone) \<and> (pc = Gone \<longrightarrow> q = []) \<and>
     distinct (map fst post) \<and> (\<forall>y \<in> set post. \<not> may_send (c_now (cs ! fst y))) \<and>
     late pc q + length lost \<le> length post \<and>
     (\<not> flag \<longrightarrow> post = [] \<and> Shutdown \<notin> set q \<and> \<not> stopping pc)"

definition caller_ok :: "bool \<Rightarrow> caller \<Rightarrow> bool" where
  "caller_ok flag c \<longleftrightarrow>
     list_all (\<lambda>e. admissible (metric_kind e) (sample e)) (c_todo c) \<and>
     (\<forall>pc. c_now c = Some pc \<longrightarrow> admissible (metric_kind (entry_of pc)) (sample (entry_of pc))) \<and>
     (\<forall>y \<in> set (c_past c). snd y \<noteq> Unqueued \<and> (snd y = Ignored \<longrightarrow> flag))"

definition join_ok :: "stop_pc \<Rightarrow> writer_pc \<Rightarrow> ('pw, 'h, 'c, 'p) process \<Rightarrow> bool" where
  "join_ok sp pc s \<longleftrightarrow>
     \<not> poisoned (writer_join s) \<and> shutdown_flag s = (sp \<noteq> Idle) \<and>
     (case sp of
        Idle \<Rightarrow> guarded (writer_join s) \<noteq> None
      | Delivering n \<Rightarrow> guarded (writer_join s) \<noteq> None
      | Taking \<Rightarrow> guarded (writer_join s) \<noteq> None
      | Joining \<Rightarrow> True
      | Aborting \<Rightarrow> pc = Gone
      | Syncing \<Rightarrow> pc = Gone
      | Finished \<Rightarrow> pc = Gone)"

definition sys_inv ::
  "('pw \<Rightarrow> 'h prom_view) \<Rightarrow> ('c \<Rightarrow> chan_view) \<Rightarrow> nat \<Rightarrow> (nat \<times> metric_entry) list
     \<Rightarrow> (nat \<times> metric_entry) list \<Rightarrow> metric_entry list \<Rightarrow> metric_entry list \<Rightarrow> pipeline_msg list
     \<Rightarrow> ('pw, 'h, 'c, 'p, 'w, 'fs) sys \<Rightarrow> bool" where
  "sys_inv pv cv cap pre post stored lost q x \<longleftrightarrow>
     wired cv cap q (wpc x = Gone) (length stored) (proc x) \<and>
     tally pv (drops (callers x) + counting (callers x)) (drops (callers x)) (proc x) \<and>
     flow (callers x) (wpc x) q (shutdown_flag (proc x)) pre post stored lost \<and>
     list_all (caller_ok (shutdown_flag (proc x))) (callers x) \<and>
     join_ok (spc x) (wpc x) (proc x)"

section \<open>Steps of a call\<close>

text \<open>What a call leaves alone.\<close>

definition same_control :: "('pw, 'h, 'c, 'p) process \<Rightarrow> ('pw, 'h, 'c, 'p) process \<Rightarrow> bool" where
  "same_control s s' \<longleftrightarrow>
     shutdown_flag s' = shutdown_flag s \<and> writer_join s' = writer_join s \<and> tasks s' = tasks s \<and>
     partition_of s' = partition_of s"

lemma observe_wired:
  assumes "wired cv cap q gone k s" "tally pv n m s" "prom_spec pv ok (prom d)"
    and "admissible (metric_kind e) (sample e)" "observe_step d e s = (r, s')"
  shows "wired cv cap q gone k s' \<and> tally pv n m s' \<and> same_control s s' \<and>
    (r = Inr (Sending e) \<or> (\<exists>p. r = Inl (Crashed p)))"
proof -
  obtain h t c p where h: "global s = Some h" "tx h = Some c" "eh_fjall h = Some p" "writer_thr s = Some t"
    "wt_exited t = gone" "wt_seq t = of_nat k"
    "cv c = \<lparr>queue = q, capacity = cap, rx_open = \<not> gone, tx_open = True\<rparr>" "length q \<le> cap"
    using assms(1) unfolding wired_def by blast
  have ta: "dropped_total h = of_nat n" "\<And>r. eh_registry h = Some r \<Longrightarrow> prom_inv pv r \<and> drops_recorded pv r m"
    using assms(2) h(1) by (auto simp: tally_def)
  show ?thesis
  proof (cases "eh_registry h")
    case None
    then show ?thesis using assms h(1) by (auto simp: observe_step_def same_control_def)
  next
    case (Some reg)
    obtain res reg' where u: "update (prom d) reg e = (res, reg')" by fastforce
    have reg: "prom_inv pv reg" "drops_recorded pv reg m" using ta(2) [OF Some] by simp_all
    have "prom_inv pv reg'" using update_refines [OF assms(3) reg(1) assms(4)] by (simp add: u)
    moreover have "drops_recorded pv reg' m"
      using update_keeps_drops [OF assms(3) reg(1) assms(4) u] reg(2) by (simp add: drops_recorded_def)
    moreover have "s' = s\<lparr>global := Some (h\<lparr>eh_registry := Some reg'\<rparr>)\<rparr>"
      using assms(5) h(1) Some u by (auto simp: observe_step_def on_handle_def split: res.splits)
    moreover have "r = Inr (Sending e) \<or> (\<exists>p. r = Inl (Crashed p))"
      using assms(5) h(1) Some u by (auto simp: observe_step_def split: res.splits)
    ultimately show ?thesis
      using h ta(1) by (auto simp: wired_def tally_def same_control_def partition_of_def)
  qed
qed

lemma send_wired:
  assumes "wired cv cap q gone k s" "tally pv n m s" "chan_spec cv (chan d)" "send_step d e s = (r, s')"
  shows "tally pv n m s' \<and> same_control s s' \<and>
    (if \<not> gone \<and> length q < cap then r = Inl Accepted \<and> wired cv cap (q @ [Metric e]) gone k s'
     else r = Inr (Refused e) \<and> wired cv cap q gone k s')"
proof -
  obtain h t c p where h: "global s = Some h" "tx h = Some c" "eh_fjall h = Some p" "writer_thr s = Some t"
    "wt_exited t = gone" "wt_seq t = of_nat k"
    "cv c = \<lparr>queue = q, capacity = cap, rx_open = \<not> gone, tx_open = True\<rparr>" "length q \<le> cap"
    using assms(1) unfolding wired_def by blast
  obtain b c' where b: "try_send (chan d) c (Metric e) = (b, c')" by fastforce
  note v = chan_specD(2) [OF assms(3) b, unfolded h(7)]
  have s': "s' = s\<lparr>global := Some (h\<lparr>tx := Some c'\<rparr>)\<rparr>"
    and r: "r = (case b of Inr _ \<Rightarrow> Inl Accepted | Inl _ \<Rightarrow> Inr (Refused e))"
    using assms(4) h(1,2) b by (auto simp: send_step_def set_tx_def split: sum.splits)
  have "tally pv n m s'" "same_control s s'"
    using assms(2) h(1) by (auto simp: s' tally_def same_control_def partition_of_def)
  moreover have "if \<not> gone \<and> length q < cap then r = Inl Accepted \<and> wired cv cap (q @ [Metric e]) gone k s'
     else r = Inr (Refused e) \<and> wired cv cap q gone k s'"
  proof (cases "\<not> gone \<and> length q < cap")
    case True
    then have "b = Inr ()" "cv c' = \<lparr>queue = q @ [Metric e], capacity = cap, rx_open = \<not> gone, tx_open = True\<rparr>"
      using v by (auto simp: send_view_def)
    then show ?thesis using True r h by (simp add: wired_def s')
  next
    case False
    then have "\<exists>x. b = Inl x" "cv c' = \<lparr>queue = q, capacity = cap, rx_open = \<not> gone, tx_open = True\<rparr>"
      using v by (auto simp: send_view_def split: if_splits)
    then show ?thesis using False r h by (auto simp: wired_def s')
  qed
  ultimately show ?thesis by blast
qed

lemma refuse_wired:
  assumes "wired cv cap q gone k s" "tally pv n m s" "refuse_step e s = (r, s')"
  shows "wired cv cap q gone k s' \<and> same_control s s' \<and>
    (r = Inl Dropped \<and> tally pv (Suc n) (Suc m) s' \<or> r = Inr (Counting e) \<and> tally pv (Suc n) m s')"
proof -
  obtain h where h: "global s = Some h" using assms(1) by (auto simp: wired_def)
  have s': "s' = s\<lparr>global := Some (h\<lparr>dropped_total := dropped_total h + 1\<rparr>)\<rparr>"
    and r: "r = (if eh_registry h = None then Inl Dropped else Inr (Counting e))"
    using assms(3) h by (auto simp: refuse_step_def on_handle_def Let_def split: if_splits)
  have "wired cv cap q gone k s'" "same_control s s'"
    using assms(1) h by (auto simp: s' wired_def same_control_def partition_of_def)
  moreover have "if eh_registry h = None then tally pv (Suc n) (Suc m) s' else tally pv (Suc n) m s'"
    using assms(2) h by (auto simp: s' tally_def)
  ultimately show ?thesis using r by auto
qed

lemma count_wired:
  assumes "wired cv cap q gone k s" "tally pv n m s" "prom_spec pv ok (prom d)" "count_step d s = (r, s')"
  shows "wired cv cap q gone k s' \<and> same_control s s' \<and> tally pv n (Suc m) s' \<and> r = Inl Dropped"
proof -
  obtain h where h: "global s = Some h" using assms(1) by (auto simp: wired_def)
  have s': "s' = s\<lparr>global := Some (h\<lparr>eh_registry := map_option (inc_dropped (prom d)) (eh_registry h)\<rparr>)\<rparr>"
    and r: "r = Inl Dropped"
    using assms(4) h by (auto simp: count_step_def on_handle_def)
  have "wired cv cap q gone k s'" "same_control s s'"
    using assms(1) h by (auto simp: s' wired_def same_control_def partition_of_def)
  moreover have "tally pv n (Suc m) s'"
    using assms(2) h inc_dropped_inv [OF assms(3)] by (auto simp: s' tally_def)
  ultimately show ?thesis using r by blast
qed

text \<open>One step of a caller; \<open>a\<close> and \<open>b\<close> are what the other callers contribute.\<close>

lemma caller_step_wired:
  assumes spec: "prom_spec pv ok (prom d)" "chan_spec cv (chan d)"
    and w: "wired cv cap q gone k s"
    and t: "tally pv (a + drops_of c + at_counting (c_now c)) (b + drops_of c) s"
    and c: "caller_ok (shutdown_flag s) c" and step: "caller_step d c s = (c', s')"
  shows "same_control s s' \<and> caller_ok (shutdown_flag s) c' \<and>
    tally pv (a + drops_of c' + at_counting (c_now c')) (b + drops_of c') s' \<and>
    ((\<exists>e. accepted_by c' = accepted_by c @ [e] \<and> wired cv cap (q @ [Metric e]) gone k s' \<and> \<not> gone \<and>
        may_send (c_now c) \<and> \<not> may_send (c_now c')) \<or>
     (accepted_by c' = accepted_by c \<and> wired cv cap q gone k s' \<and>
        (may_send (c_now c') \<longrightarrow> may_send (c_now c) \<or> \<not> shutdown_flag s)))"
proof (cases "c_now c")
  case None
  then show ?thesis using step w t c
    by (cases "c_todo c") (auto simp: caller_step_def same_control_def caller_ok_def accepted_by_def drops_of_def)
next
  case (Some pc)
  note defs = caller_step_def caller_ok_def accepted_by_def drops_of_def Some
  obtain r s1 where r: "call_step d pc s = (r, s1)" by fastforce
  have s1: "s' = s1" and c': "c' = (case r of
      Inl f \<Rightarrow> c\<lparr>c_past := c_past c @ [(entry_of pc, f)], c_now := None\<rparr>
    | Inr pc' \<Rightarrow> c\<lparr>c_now := Some pc'\<rparr>)"
    using step r Some by (auto simp: caller_step_def split: sum.splits)
  have adm: "admissible (metric_kind (entry_of pc)) (sample (entry_of pc))"
    using c Some by (simp add: caller_ok_def)
  show ?thesis
  proof (cases pc)
    case (Entering e)
    have "global s \<noteq> None" using w by (auto simp: wired_def)
    then show ?thesis using r Entering w t c adm
      by (auto simp: c' s1 defs enter_step_def same_control_def split: if_splits)
  next
    case (Observing e)
    then have "observe_step d e s = (r, s')" using r s1 by simp
    from observe_wired [OF w t spec(1) _ this] adm Observing c show ?thesis
      by (auto simp: c' defs)
  next
    case (Sending e)
    then have "send_step d e s = (r, s')" using r s1 by simp
    from send_wired [OF w t spec(2) this] adm Sending c show ?thesis
      by (auto simp: c' defs split: if_splits)
  next
    case (Refused e)
    then have "refuse_step e s = (r, s')" using r s1 by simp
    from refuse_wired [OF w t this] adm Refused c show ?thesis
      by (auto simp: c' defs)
  next
    case (Counting e)
    then have "count_step d s = (r, s')" using r s1 by simp
    from count_wired [OF w t spec(1) this] adm Counting c show ?thesis
      by (auto simp: c' defs)
  qed
qed

section \<open>Where the samples are\<close>

lemma flow_quiet:
  assumes "flow cs pc q flag pre post stored lost" "i < length cs"
    and "accepted_by c = accepted_by (cs ! i)" "may_send (c_now c) \<longrightarrow> may_send (c_now (cs ! i)) \<or> \<not> flag"
  shows "flow (cs[i := c]) pc q flag pre post stored lost"
  using assms unfolding flow_def
  by (intro conjI) (auto simp: nth_list_update)

lemma late_accept:
  "late pc (q @ [Metric e]) \<le> Suc (late pc q)"
  "late pc (q @ [Shutdown]) = late pc q"
  using behind_metric [of q e] by (simp_all add: late_def behind_shutdown)

lemma flow_accept:
  assumes "flow cs pc q flag pre post stored lost" "i < length cs" "pc \<noteq> Gone"
    and "accepted_by c = accepted_by (cs ! i) @ [e]" "may_send (c_now (cs ! i))" "\<not> may_send (c_now c)"
  shows "flow (cs[i := c]) pc (q @ [Metric e]) flag (if flag then pre else pre @ [(i, e)])
    (if flag then post @ [(i, e)] else post) stored lost"
proof -
  have f: "\<forall>y \<in> set (pre @ post). fst y < length cs"
    "\<forall>i < length cs. map snd (filter (\<lambda>y. fst y = i) (pre @ post)) = accepted_by (cs ! i)"
    "map snd (pre @ post) = stored @ in_batch pc @ metrics q @ lost" "lost = []"
    "distinct (map fst post)" "\<forall>y \<in> set post. \<not> may_send (c_now (cs ! fst y))"
    "late pc q + length lost \<le> length post" "\<not> flag \<longrightarrow> post = [] \<and> Shutdown \<notin> set q \<and> \<not> stopping pc"
    using assms(1,3) unfolding flow_def by blast+
  have i: "i \<notin> fst ` set post" using f(6) assms(5) by auto
  have late: "late pc (q @ [Metric e]) \<le> Suc (late pc q)" "\<not> flag \<longrightarrow> late pc (q @ [Metric e]) = 0"
    using late_accept f(8) by (auto simp: late_def behind_none)
  let ?pre = "if flag then pre else pre @ [(i, e)]" and ?post = "if flag then post @ [(i, e)] else post"
  have all: "?pre @ ?post = pre @ post @ [(i, e)]" using f(8) by simp
  have "map snd (filter (\<lambda>y. fst y = j) (?pre @ ?post)) = accepted_by (cs[i := c] ! j)" if "j < length cs" for j
    using f(2) that assms(2,4) unfolding all by (auto simp: nth_list_update)
  moreover have "\<not> may_send (c_now (cs[i := c] ! fst y))" if "y \<in> set ?post" for y
    using that f(6,8) assms(2,6) by (auto simp: nth_list_update split: if_splits)
  ultimately show ?thesis
    using f i late assms(2,3) unfolding flow_def all by (auto split: if_splits)
qed

lemma flow_sentinel:
  assumes "flow cs pc q flag pre post stored lost" "flag" "pc \<noteq> Gone"
  shows "flow cs pc (q @ [Shutdown]) flag pre post stored lost"
  using assms by (simp add: flow_def late_accept)

lemma flow_flag:
  assumes "flow cs pc q flag pre post stored lost"
  shows "flow cs pc q True pre post stored lost"
  using assms by (simp add: flow_def)

lemma flow_pc:
  assumes "flow cs pc q flag pre post stored lost" "pc \<noteq> Gone" "pc' \<noteq> Gone"
    and "in_batch pc' = in_batch pc" "stopping pc' = stopping pc"
  shows "flow cs pc' q flag pre post stored lost"
  using assms unfolding flow_def late_def by simp

lemma drops_update:
  assumes "i < length cs"
  shows "drops (cs[i := c]) + drops_of (cs ! i) = drops cs + drops_of c"
    "counting (cs[i := c]) + at_counting (c_now (cs ! i)) = counting cs + at_counting (c_now c)"
  using sum_list_update_nat [OF assms] by (simp_all add: drops_def counting_def)

lemma nth_le_sum: "i < length xs \<Longrightarrow> f (xs ! i) \<le> sum_list (map f xs)" for f :: "'a \<Rightarrow> nat"
  by (rule member_le_sum_list) simp_all

section \<open>Every event keeps the invariant\<close>

lemma call_inv:
  assumes spec: "prom_spec pv ok (prom d)" "chan_spec cv (chan d)"
    and inv: "sys_inv pv cv cap pre post stored lost q x"
  shows "\<exists>pre' post' q'. sys_inv pv cv cap pre' post' stored lost q' (sys_step d pq (Call i) x)"
proof (cases "i < length (callers x)")
  case True
  let ?cs = "callers x" and ?flag = "shutdown_flag (proc x)"
  obtain c s where st: "caller_step d (?cs ! i) (proc x) = (c, s)" by fastforce
  have x: "sys_step d pq (Call i) x = x\<lparr>callers := ?cs[i := c], proc := s\<rparr>" using True st by simp
  note sum = drops_update [OF True, of c] nth_le_sum [OF True, of drops_of]
    nth_le_sum [OF True, of "\<lambda>c. at_counting (c_now c)"]
  let ?b = "drops ?cs - drops_of (?cs ! i)"
  let ?a = "?b + counting ?cs - at_counting (c_now (?cs ! i))"
  have ab: "drops ?cs + counting ?cs = ?a + drops_of (?cs ! i) + at_counting (c_now (?cs ! i))"
    "drops ?cs = ?b + drops_of (?cs ! i)"
    "drops (?cs[i := c]) + counting (?cs[i := c]) = ?a + drops_of c + at_counting (c_now c)"
    "drops (?cs[i := c]) = ?b + drops_of c"
    using sum by (simp_all add: drops_def counting_def)
  have w: "wired cv cap q (wpc x = Gone) (length stored) (proc x)"
    and t0: "tally pv (drops ?cs + counting ?cs) (drops ?cs) (proc x)"
    and fl: "flow ?cs (wpc x) q ?flag pre post stored lost"
    and c: "list_all (caller_ok ?flag) ?cs" and j: "join_ok (spc x) (wpc x) (proc x)"
    using inv unfolding sys_inv_def by blast+
  have t: "tally pv (?a + drops_of (?cs ! i) + at_counting (c_now (?cs ! i))) (?b + drops_of (?cs ! i)) (proc x)"
    using t0 unfolding ab(1)[symmetric] ab(2)[symmetric] .
  have "caller_ok ?flag (?cs ! i)" using c True by (simp add: list_all_length)
  note st = caller_step_wired [OF spec w t this st]
  then have sc: "shutdown_flag s = ?flag" "writer_join s = writer_join (proc x)"
    by (simp_all add: same_control_def)
  have ok: "list_all (caller_ok ?flag) (?cs[i := c])"
    using c st True by (auto simp: list_all_length nth_list_update)
  have j': "join_ok (spc x) (wpc x) s" using j unfolding join_ok_def sc .
  have t': "tally pv (drops (?cs[i := c]) + counting (?cs[i := c])) (drops (?cs[i := c])) s"
    using st unfolding ab(3)[symmetric] ab(4)[symmetric] by blast
  from st consider
    (acc) e where "accepted_by c = accepted_by (?cs ! i) @ [e]" "wired cv cap (q @ [Metric e]) (wpc x = Gone) (length stored) s"
      "wpc x \<noteq> Gone" "may_send (c_now (?cs ! i))" "\<not> may_send (c_now c)"
  | (quiet) "accepted_by c = accepted_by (?cs ! i)" "wired cv cap q (wpc x = Gone) (length stored) s"
      "may_send (c_now c) \<longrightarrow> may_send (c_now (?cs ! i)) \<or> \<not> ?flag" by blast
  then show ?thesis
  proof cases
    case acc
    from flow_accept [OF fl True acc(3,1,4,5)] have "sys_inv pv cv cap (if ?flag then pre else pre @ [(i, e)])
        (if ?flag then post @ [(i, e)] else post) stored lost (q @ [Metric e]) (sys_step d pq (Call i) x)"
      unfolding x sys_inv_def using acc(2) t' ok j' by (simp add: sc)
    then show ?thesis by blast
  next
    case quiet
    from flow_quiet [OF fl True quiet(1,3)] have "sys_inv pv cv cap pre post stored lost q (sys_step d pq (Call i) x)"
      unfolding x sys_inv_def using quiet(2) t' ok j' by (simp add: sc)
    then show ?thesis by blast
  qed
qed (use inv in auto)

text \<open>What the writer's operations do to the flow.\<close>

lemma flow_take:
  assumes "flow cs pc (Metric e # q) flag pre post stored lost" "pc \<noteq> Gone" "\<not> stopping pc"
    and "in_batch pc' = in_batch pc @ [e]" "\<not> stopping pc'"
  shows "flow cs pc' q flag pre post stored lost"
  using assms unfolding flow_def late_def by (cases pc') simp_all

lemma flow_take_sentinel:
  assumes "flow cs pc (Shutdown # q) flag pre post stored lost" "pc \<noteq> Gone" "\<not> stopping pc"
    and "in_batch pc' = in_batch pc" "stopping pc'" "pc' \<noteq> Gone"
  shows "flow cs pc' q flag pre post stored lost"
  using assms unfolding flow_def late_def by simp

lemma flow_insert:
  assumes "flow cs pc q flag pre post stored lost" "pc \<noteq> Gone" "pc' \<noteq> Gone"
    and "in_batch pc = e # in_batch pc'" "stopping pc' = stopping pc"
  shows "flow cs pc' q flag pre post (stored @ [e]) lost"
  using assms unfolding flow_def late_def by simp

lemma flow_close:
  assumes "flow cs Closing q flag pre post stored lost"
  shows "flow cs Gone [] flag pre post stored (metrics q)"
  using assms unfolding flow_def late_def by auto

text \<open>
  An operation of the writer: what it takes from the channel goes to its batch, what it
  inserts becomes stored, and the messages it leaves behind are lost.
\<close>

definition write_effect ::
  "json_api \<Rightarrow> 'p fjall_api \<Rightarrow> metric_entry list \<Rightarrow> 'p \<Rightarrow> metric_entry list \<Rightarrow> 'p \<Rightarrow> bool" where
  "write_effect jn fl stored part stored' part' \<longleftrightarrow>
     stored' = stored \<and> (part' = part \<or> part' = persist_best_effort fl part) \<or>
     (\<exists>e. stored' = stored @ [e] \<and> part' = snd (part_insert fl part
        (encode_key (entry_micros e) (of_nat (length stored)) (name e)) (encode_value jn e)))"

lemma write_effect_same [simp]: "write_effect jn fl stored part stored part"
  by (simp add: write_effect_def)

lemma write_op_flow:
  assumes spec: "chan_spec cv (chan d)"
    and fl: "flow cs pc q flag pre post stored lost" and pc: "pc \<noteq> Gone"
    and cvw: "cv (w_rx w) = \<lparr>queue = q, capacity = cap, rx_open = True, tx_open = True\<rparr>" "length q \<le> cap"
    and seq: "w_seq w = of_nat (length stored)"
    and op: "write_op jn db (chan d) rows pc w = (pc', w')"
  shows "\<exists>q' stored' lost'. flow cs pc' q' flag pre post stored' lost' \<and> length q' \<le> cap \<and>
    cv (w_rx w') = \<lparr>queue = q', capacity = cap, rx_open = pc' \<noteq> Gone, tx_open = True\<rparr> \<and>
    w_seq w' = of_nat (length stored') \<and> write_effect jn db stored (w_part w) stored' (w_part w')"
proof (cases pc)
  case Waiting
  obtain b c where b: "blocking_recv (chan d) (w_rx w) = (b, c)" by fastforce
  note v = chan_specD(4) [OF spec b, unfolded cvw(1)]
  show ?thesis
  proof (cases q)
    case Nil
    then have "pc' = Waiting" "w' = w\<lparr>w_rx := c\<rparr>" "cv c = cv (w_rx w)"
      using op b v Waiting cvw by (auto simp: blocking_recv_view_def)
    then show ?thesis using fl cvw seq Waiting
      by (intro exI [of _ q] exI [of _ stored] exI [of _ lost]) simp
  next
    case (Cons m q')
    then have c: "b = Received m" "cv c = \<lparr>queue = q', capacity = cap, rx_open = True, tx_open = True\<rparr>"
      using v by (auto simp: blocking_recv_view_def)
    then have "w' = w\<lparr>w_rx := c\<rparr>" "pc' \<noteq> Gone" using op b Waiting by (auto split: pipeline_msg.splits)
    moreover have "flow cs pc' q' flag pre post stored lost"
      using op b c(1) Waiting fl Cons flow_take [of cs Waiting _ q'] flow_take_sentinel [of cs Waiting q']
      by (cases m) auto
    ultimately show ?thesis using c(2) cvw seq Cons
      by (intro exI [of _ q'] exI [of _ stored] exI [of _ lost]) simp
  qed
next
  case (Draining batch)
  obtain r c where r: "try_recv (chan d) (w_rx w) = (r, c)" by fastforce
  note v = chan_specD(3) [OF spec r, unfolded cvw(1)]
  show ?thesis
  proof (cases "length batch < rows \<and> q \<noteq> []")
    case False
    then have s: "pc' = Inserting batch False" "cv (w_rx w') = cv (w_rx w)" "w_seq w' = w_seq w" "w_part w' = w_part w"
      using op r v Draining cvw by (auto simp: try_recv_view_def split: if_splits option.splits)
    moreover have "flow cs pc' q flag pre post stored lost"
      using flow_pc [OF fl pc, of pc'] Draining s(1) by simp
    ultimately show ?thesis using cvw seq
      by (intro exI [of _ q] exI [of _ stored] exI [of _ lost]) simp
  next
    case True
    then obtain m q' where q: "q = m # q'" by (cases q) auto
    then have c: "r = Some m" "cv c = \<lparr>queue = q', capacity = cap, rx_open = True, tx_open = True\<rparr>"
      using v by (auto simp: try_recv_view_def)
    then have "w' = w\<lparr>w_rx := c\<rparr>" "pc' \<noteq> Gone" using op r Draining True by (auto split: pipeline_msg.splits)
    moreover have "flow cs pc' q' flag pre post stored lost"
      using op r c(1) Draining fl q True flow_take [of cs "Draining batch" _ q']
        flow_take_sentinel [of cs "Draining batch" q'] by (cases m) auto
    ultimately show ?thesis using c(2) cvw seq q
      by (intro exI [of _ q'] exI [of _ stored] exI [of _ lost]) simp
  qed
next
  case (Inserting es stop)
  show ?thesis
  proof (cases es)
    case Nil
    then have "pc' \<noteq> Gone" "w' = w" "flow cs pc' q flag pre post stored lost"
      using op Inserting flow_pc [OF fl pc, of pc'] by (auto split: if_splits)
    then show ?thesis using cvw seq
      by (intro exI [of _ q] exI [of _ stored] exI [of _ lost]) simp
  next
    case (Cons e es')
    then have s: "pc' = Inserting es' stop" using op Inserting by simp
    have "flow cs pc' q flag pre post (stored @ [e]) lost"
      using flow_insert [OF fl pc, of pc' e] Inserting Cons s by simp
    moreover have "write_effect jn db stored (w_part w) (stored @ [e]) (w_part w')"
      using op Inserting Cons seq by (auto simp: write_effect_def)
    ultimately show ?thesis using op Inserting Cons cvw seq s
      by (intro exI [of _ q] exI [of _ "stored @ [e]"] exI [of _ lost]) auto
  qed
next
  case Leaving
  have "flow cs Closing q flag pre post stored lost" using flow_pc [OF fl pc, of Closing] Leaving by simp
  then show ?thesis using cvw seq op Leaving
    by (intro exI [of _ q] exI [of _ stored] exI [of _ lost]) (auto simp: write_effect_def)
next
  case Closing
  then show ?thesis using cvw seq op flow_close [of cs q flag pre post stored lost] fl chan_specD(5) [OF spec, of "w_rx w"]
    by (intro exI [of _ "[]"] exI [of _ stored] exI [of _ "metrics q"]) auto
next
  case Gone
  then show ?thesis using pc by simp
qed

lemma wired_partition: "wired cv cap q gone k s \<Longrightarrow> \<exists>p. partition_of s = Some p"
  by (auto simp: wired_def partition_of_def)

lemma write_inv:
  assumes spec: "chan_spec cv (chan d)"
    and inv: "sys_inv pv cv cap pre post stored lost q x"
  shows "\<exists>stored' lost' q' p p'. sys_inv pv cv cap pre post stored' lost' q' (sys_step d pq Write x) \<and>
    partition_of (proc x) = Some p \<and> partition_of (proc (sys_step d pq Write x)) = Some p' \<and>
    write_effect (js d) (fj d) stored p stored' p'"
proof -
  let ?s = "proc x"
  have fl: "flow (callers x) (wpc x) q (shutdown_flag ?s) pre post stored lost" using inv by (simp add: sys_inv_def)
  obtain h t c p where h: "global ?s = Some h" "tx h = Some c" "eh_fjall h = Some p" "writer_thr ?s = Some t"
    "wt_exited t = (wpc x = Gone)" "wt_seq t = of_nat (length stored)"
    "cv c = \<lparr>queue = q, capacity = cap, rx_open = wpc x \<noteq> Gone, tx_open = True\<rparr>" "length q \<le> cap"
    using inv unfolding sys_inv_def wired_def by blast
  have part: "partition_of ?s = Some p" using h by (simp add: partition_of_def)
  show ?thesis
  proof (cases "wpc x = Gone")
    case True
    then have "sys_step d pq Write x = x" using h by (simp add: writer_event_def writer_of_def)
    then show ?thesis using inv part
      by (intro exI [of _ stored] exI [of _ lost] exI [of _ q] exI [of _ p]) simp
  next
    case False
    let ?w = "\<lparr>w_rx = c, w_part = p, w_seq = wt_seq t\<rparr>"
    obtain pc' w' where op: "write_op (js d) (fj d) (chan d) (wt_rows t) (wpc x) ?w = (pc', w')" by fastforce
    have x': "sys_step d pq Write x = x\<lparr>wpc := pc', proc := put_writer (if pc' = Gone then Exited else Looping) w' ?s\<rparr>"
      using op h False by (simp add: writer_event_def writer_of_def)
    obtain q' stored' lost' where r: "flow (callers x) pc' q' (shutdown_flag ?s) pre post stored' lost'" "length q' \<le> cap"
      "cv (w_rx w') = \<lparr>queue = q', capacity = cap, rx_open = pc' \<noteq> Gone, tx_open = True\<rparr>"
      "w_seq w' = of_nat (length stored')" "write_effect (js d) (fj d) stored p stored' (w_part w')"
      using write_op_flow [OF spec fl False _ h(8) _ op] h False by auto
    let ?s' = "put_writer (if pc' = Gone then Exited else Looping) w' ?s"
    have "wired cv cap q' (pc' = Gone) (length stored') ?s'"
      using h r by (auto simp: wired_def put_writer_def)
    moreover have "tally pv n m ?s' = tally pv n m ?s" for n m
      using h by (simp add: tally_def put_writer_def)
    moreover have "join_ok (spc x) pc' ?s'"
      using inv False by (simp add: sys_inv_def join_ok_def put_writer_def split: stop_pc.splits)
    moreover have "shutdown_flag ?s' = shutdown_flag ?s" by (simp add: put_writer_def)
    ultimately have "sys_inv pv cv cap pre post stored' lost' q' (sys_step d pq Write x)"
      unfolding x' using inv r(1) by (simp add: sys_inv_def)
    moreover have "partition_of (proc (sys_step d pq Write x)) = Some (w_part w')"
      unfolding x' using h by (simp add: partition_of_def put_writer_def)
    ultimately show ?thesis using part r(5) by blast
  qed
qed

lemma wired_cong:
  assumes "global s' = global s" "writer_thr s' = writer_thr s"
  shows "wired cv cap q gone k s' = wired cv cap q gone k s" "tally pv n m s' = tally pv n m s"
    "partition_of s' = partition_of s"
  using assms by (simp_all add: wired_def tally_def partition_of_def)

lemma stop_inv:
  assumes spec: "chan_spec cv (chan d)"
    and inv: "sys_inv pv cv cap pre post stored lost q x"
  shows "\<exists>q' p p'. sys_inv pv cv cap pre post stored lost q' (sys_step d pq Stop x) \<and>
    partition_of (proc x) = Some p \<and> partition_of (proc (sys_step d pq Stop x)) = Some p' \<and>
    (p' = p \<or> p' = snd (persist (fj d) p))"
proof -
  let ?s = "proc x"
  obtain h t c p where h: "global ?s = Some h" "tx h = Some c" "eh_fjall h = Some p" "writer_thr ?s = Some t"
    "wt_exited t = (wpc x = Gone)" "wt_seq t = of_nat (length stored)"
    "cv c = \<lparr>queue = q, capacity = cap, rx_open = wpc x \<noteq> Gone, tx_open = True\<rparr>" "length q \<le> cap"
    using inv unfolding sys_inv_def wired_def by blast
  have part: "partition_of ?s = Some p" using h by (simp add: partition_of_def)
  have fl: "flow (callers x) (wpc x) q (shutdown_flag ?s) pre post stored lost"
    and wi: "wired cv cap q (wpc x = Gone) (length stored) ?s"
    and ta: "tally pv (drops (callers x) + counting (callers x)) (drops (callers x)) ?s"
    and ok: "list_all (caller_ok (shutdown_flag ?s)) (callers x)"
    and jo: "join_ok (spc x) (wpc x) ?s" using inv by (simp_all add: sys_inv_def)
  have ok': "list_all (caller_ok True) (callers x)"
    using ok by (auto simp: list_all_iff caller_ok_def)
  obtain pc s where st: "stop_step d (spc x) ?s = (pc, s)" by fastforce
  have x': "sys_step d pq Stop x = x\<lparr>spc := pc, proc := s\<rparr>" using st by simp
  have "\<exists>q' p'. wired cv cap q' (wpc x = Gone) (length stored) s \<and> (\<forall>n m. tally pv n m ?s \<longrightarrow> tally pv n m s) \<and>
      join_ok pc (wpc x) s \<and> partition_of s = Some p' \<and> (p' = p \<or> p' = snd (persist (fj d) p)) \<and>
      (shutdown_flag s = shutdown_flag ?s \<or> shutdown_flag s) \<and>
      (q' = q \<or> q' = q @ [Shutdown] \<and> shutdown_flag ?s \<and> wpc x \<noteq> Gone)"
  proof (cases "spc x")
    case Idle
    then have "pc = Delivering 100" "s = ?s\<lparr>shutdown_flag := True\<rparr>" using st jo h by (auto simp: join_ok_def)
    then show ?thesis using wi jo Idle part wired_cong [of s ?s]
      by (intro exI [of _ q] exI [of _ p]) (simp add: join_ok_def)
  next
    case (Delivering n)
    show ?thesis
    proof (cases n)
      case 0
      then show ?thesis using st Delivering wi jo part
        by (intro exI [of _ q] exI [of _ p]) (auto simp: join_ok_def)
    next
      case (Suc n')
      obtain r c' where r: "try_send (chan d) c Shutdown = (r, c')" by fastforce
      have v: "cv c' = snd (send_view Shutdown (cv c))" using chan_specD(2) [OF spec r] by simp
      have s: "s = ?s\<lparr>global := Some (h\<lparr>tx := Some c'\<rparr>)\<rparr>" and pc: "pc = Taking \<or> pc = Delivering n'"
        using st Delivering Suc h r by (auto simp: set_tx_def split: sum.splits send_error.splits)
      define q' where "q' = queue (cv c')"
      have q': "cv c' = \<lparr>queue = q', capacity = cap, rx_open = wpc x \<noteq> Gone, tx_open = True\<rparr>" "length q' \<le> cap"
        "q' = q \<or> q' = q @ [Shutdown] \<and> wpc x \<noteq> Gone"
        using h(8) unfolding v h(7) q'_def by (auto simp: send_view_def)
      have "wired cv cap q' (wpc x = Gone) (length stored) s" "\<And>n m. tally pv n m ?s \<Longrightarrow> tally pv n m s"
        "partition_of s = Some p"
        using h q'(1,2) by (simp_all add: s wired_def tally_def partition_of_def)
      moreover have "join_ok pc (wpc x) s" "shutdown_flag s" "shutdown_flag ?s"
        using jo pc Delivering by (auto simp: join_ok_def s)
      ultimately show ?thesis using q'(3) by blast
    qed
  next
    case Taking
    then have "pc = Joining" "s = ?s\<lparr>writer_join := (writer_join ?s)\<lparr>guarded := None\<rparr>\<rparr>"
      using st jo by (auto simp: join_ok_def split: option.splits)
    then show ?thesis using wi jo Taking part wired_cong [of s ?s]
      by (intro exI [of _ q] exI [of _ p]) (simp add: join_ok_def)
  next
    case Joining
    then have "s = ?s" "pc = (if wpc x = Gone then Aborting else Joining)" using st h by auto
    then show ?thesis using wi jo part Joining
      by (intro exI [of _ q] exI [of _ p]) (simp add: join_ok_def)
  next
    case Aborting
    then have "pc = Syncing" "s = abort_compaction ?s" using st by simp_all
    moreover from this have "global s = global ?s" "writer_thr s = writer_thr ?s" "writer_join s = writer_join ?s"
      "shutdown_flag s = shutdown_flag ?s" by (simp_all add: abort_compaction_def split: option.split)
    ultimately show ?thesis using wi jo part Aborting wired_cong [of s ?s]
      by (intro exI [of _ q] exI [of _ p]) (simp add: join_ok_def)
  next
    case Syncing
    then have s: "pc = Finished" "s = ?s\<lparr>global := Some (h\<lparr>eh_fjall := Some (snd (persist (fj d) p))\<rparr>)\<rparr>"
      using st h by (simp_all add: final_persist_def)
    then have "wired cv cap q (wpc x = Gone) (length stored) s" "\<And>n m. tally pv n m ?s \<Longrightarrow> tally pv n m s"
      "partition_of s = Some (snd (persist (fj d) p))" "join_ok pc (wpc x) s" "shutdown_flag s = shutdown_flag ?s"
      using h jo Syncing by (simp_all add: wired_def tally_def partition_of_def join_ok_def)
    then show ?thesis by blast
  next
    case Finished
    then show ?thesis using st wi jo part
      by (intro exI [of _ q] exI [of _ p]) simp
  qed
  then obtain q' p' where r: "wired cv cap q' (wpc x = Gone) (length stored) s"
    "\<And>n m. tally pv n m ?s \<Longrightarrow> tally pv n m s" "join_ok pc (wpc x) s" "partition_of s = Some p'"
    "p' = p \<or> p' = snd (persist (fj d) p)" "shutdown_flag s = shutdown_flag ?s \<or> shutdown_flag s"
    "q' = q \<or> q' = q @ [Shutdown] \<and> shutdown_flag ?s \<and> wpc x \<noteq> Gone" by blast
  have "flow (callers x) (wpc x) q (shutdown_flag s) pre post stored lost"
    using fl flow_flag [OF fl] r(6) by (cases "shutdown_flag s") auto
  then have "flow (callers x) (wpc x) q' (shutdown_flag s) pre post stored lost"
    using r(6,7) flow_sentinel by (cases "shutdown_flag s") auto
  moreover have "list_all (caller_ok (shutdown_flag s)) (callers x)"
    using ok ok' r(6) by (cases "shutdown_flag s") auto
  ultimately have "sys_inv pv cv cap pre post stored lost q' (sys_step d pq Stop x)"
    unfolding x' using r(1,3) r(2) [OF ta] by (simp add: sys_inv_def)
  moreover have "partition_of (proc (sys_step d pq Stop x)) = Some p'" unfolding x' using r(4) by simp
  ultimately show ?thesis using part r(5) by blast
qed

text \<open>The compaction touches the partition and the files only.\<close>

lemma set_partition_inv:
  assumes "sys_inv pv cv cap pre post stored lost q x"
  shows "sys_inv pv cv cap pre post stored lost q (x\<lparr>cold := cp, proc := set_partition p (proc x), disk := fs\<rparr>)"
  using assms
  by (auto simp: sys_inv_def wired_def tally_def join_ok_def set_partition_def on_handle_def split: stop_pc.splits)

lemma cold_inv:
  assumes "sys_inv pv cv cap pre post stored lost q x"
  shows "sys_inv pv cv cap pre post stored lost q (x\<lparr>cold := cp, disk := fs\<rparr>)"
  using assms by (simp add: sys_inv_def)

lemma compaction_inv:
  assumes "sys_inv pv cv cap pre post stored lost q x"
  shows "sys_inv pv cv cap pre post stored lost q (sys_step d pq (Compact i env) x)"
    and "sys_inv pv cv cap pre post stored lost q (sys_step d pq Move x)"
  using cold_inv [OF assms] set_partition_inv [OF assms] assms
  by (auto split: option.split prod.split sum.split)

lemma sys_step_inv:
  assumes spec: "prom_spec pv ok (prom d)" "chan_spec cv (chan d)"
    and inv: "sys_inv pv cv cap pre post stored lost q x"
  shows "\<exists>pre post stored lost q. sys_inv pv cv cap pre post stored lost q (sys_step d pq ev x)"
proof (cases ev)
  case (Call i)
  then show ?thesis using call_inv [OF spec inv] by blast
next
  case Write
  then show ?thesis using write_inv [OF spec(2) inv] by blast
next
  case Stop
  then show ?thesis using stop_inv [OF spec(2) inv] by blast
next
  case (Compact i env)
  then show ?thesis using compaction_inv(1) [OF inv] by blast
next
  case Move
  then show ?thesis using compaction_inv(2) [OF inv] by blast
qed

lemma sys_run_inv:
  assumes spec: "prom_spec pv ok (prom d)" "chan_spec cv (chan d)"
  shows "sys_inv pv cv cap pre post stored lost q x \<Longrightarrow>
    \<exists>pre post stored lost q. sys_inv pv cv cap pre post stored lost q (sys_run d pq evs x)"
  by (rule sched.run_keeps) (use sys_step_inv [OF spec] in blast)+

section \<open>Every recorded call is one of its caller's\<close>

definition calls_of :: "caller \<Rightarrow> metric_entry list" where
  "calls_of c = map fst (c_past c) @ (case c_now c of None \<Rightarrow> [] | Some pc \<Rightarrow> [entry_of pc]) @ c_todo c"

lemma calls_of_step: "caller_step d c s = (c', s') \<Longrightarrow> calls_of c' = calls_of c"
  by (auto simp: caller_step_def calls_of_def split: option.splits list.splits prod.splits sum.splits
      dest: call_step_entry)

lemma sys_step_calls: "map calls_of (callers (sys_step d pq ev x)) = map calls_of (callers x)"
proof (cases ev)
  case (Call i)
  obtain c s where st: "caller_step d (callers x ! i) (proc x) = (c, s)" by fastforce
  have "(map calls_of (callers x))[i := calls_of c] = map calls_of (callers x)" if "i < length (callers x)"
    using calls_of_step [OF st] list_update_id [of "map calls_of (callers x)" i] that by simp
  then show ?thesis using Call st by (simp add: map_update)
qed (auto split: option.split prod.split sum.split)

lemma sys_run_calls: "map calls_of (callers (sys_run d pq evs x)) = map calls_of (callers x)"
  by (rule sched.run_same [OF sys_step_calls])

lemma booted_calls: "map calls_of (callers (booted s todos fs)) = todos"
  by (simp add: booted_def calls_of_def comp_def)

section \<open>The start\<close>

lemma booted_inv:
  assumes spec: "prom_spec pv ok (prom d)" "chan_spec cv (chan d)"
    and init: "init d sa env cfg (process_start, fs) = (Inr (), s0, fs')" and cfg: "fjall cfg = Some fcfg"
    and adm: "list_all (list_all (\<lambda>e. admissible (metric_kind e) (sample e))) todos"
  shows "\<exists>p. open_handles sa fcfg fs = (Inr p, fs') \<and> partition_of s0 = Some p \<and>
    sys_inv pv cv (channel_capacity cfg) [] [] [] [] [] (booted s0 todos files)"
proof -
  have "\<not> poisoned (writer_join process_start)" "\<not> poisoned (compaction_task process_start)"
    by (simp_all add: process_start_def lock_new_def)
  from init_running [OF spec init cfg this] obtain p h where i: "open_handles sa fcfg fs = (Inr p, fs')"
    "pipeline cv d p (channel_capacity cfg) [] [] s0" "global s0 = Some h" "handle_inv pv h 0"
    "writer_join s0 = \<lparr>guarded = Some (), poisoned = False\<rparr>" "\<not> shutdown_flag s0"
    by (auto simp: process_start_def)
  let ?cs = "map (\<lambda>es. \<lparr>c_past = [], c_now = None, c_todo = es\<rparr>) todos"
  have "wired cv (channel_capacity cfg) [] False 0 s0"
    using i(2) by (auto simp: pipeline_def wired_def)
  moreover have "drops ?cs = 0" "counting ?cs = 0"
    by (simp_all add: drops_def counting_def drops_of_def)
  moreover have "tally pv 0 0 s0" using i(3,4) by (simp add: handle_inv_def tally_def)
  moreover have "flow ?cs Waiting [] False [] [] [] []" by (simp add: flow_def late_def accepted_by_def)
  moreover have "list_all (caller_ok False) ?cs" using adm by (auto simp: list_all_iff caller_ok_def)
  moreover have "join_ok Idle Waiting s0" using i(5,6) by (simp add: join_ok_def)
  moreover have "partition_of s0 = Some p" using i(2) by (auto simp: pipeline_def partition_of_def)
  ultimately show ?thesis using i(1,6) by (simp add: sys_inv_def booted_def)
qed

section \<open>Properties\<close>

text \<open>
  C2: nothing is lost without being counted, whatever the schedule. After \<open>init\<close>, let any
  number of threads record while the writer, one \<open>shutdown\<close> and compaction passes run,
  one operation on shared state at a time. Then the samples the channel accepted are those
  the writer inserted (as many as its sequence number says), those of its batch, those
  queued, and \<open>lost\<close>, in this order, and
  each caller's are in the order of its calls; the queue is never above its capacity; the
  handle counts every finished call that was dropped and every one about to be counted by
  the registry, whose counter shows the finished ones. Samples are lost only after
  \<open>SHUTDOWN\<close> was set, at most one of each caller; and once \<open>shutdown\<close> has returned,
  everything else that was accepted is in the store.
\<close>

theorem samples_accounted:
  assumes "prom_spec pv ok (prom d)" and "chan_spec cv (chan d)"
    and "init d sa env cfg (process_start, fs) = (Inr (), s0, fs')" and "fjall cfg = Some fcfg"
    and "list_all (list_all (\<lambda>e. admissible (metric_kind e) (sample e))) todos"
    and "x = sys_run d pq evs (booted s0 todos files)"
  shows "\<exists>h c t pre post stored lost. global (proc x) = Some h \<and> tx h = Some c \<and>
    writer_thr (proc x) = Some t \<and> wt_seq t = of_nat (length stored) \<and>
    map calls_of (callers x) = todos \<and>
    (\<forall>i < length (callers x). accepted_by (callers x ! i) = map snd (filter (\<lambda>y. fst y = i) (pre @ post))) \<and>
    map snd (pre @ post) = stored @ in_batch (wpc x) @ metrics (queue (cv c)) @ lost \<and>
    length (queue (cv c)) \<le> channel_capacity cfg \<and>
    dropped_count h = of_nat (drops (callers x) + counting (callers x)) \<and>
    (\<forall>r. eh_registry h = Some r \<longrightarrow>
       series (pv (registry r)) (dropped_counter r) [] = replicate (drops (callers x)) (Fin 1)) \<and>
    length lost \<le> length post \<and> distinct (map fst post) \<and> (\<forall>y \<in> set post. fst y < length todos) \<and>
    (\<not> shutdown_flag (proc x) \<longrightarrow> post = []) \<and>
    (spc x = Finished \<longrightarrow> map snd (pre @ post) = stored @ lost)"
proof -
  obtain pre post stored lost q where inv: "sys_inv pv cv (channel_capacity cfg) pre post stored lost q x"
    using booted_inv [OF assms(1-5), of files] sys_run_inv [OF assms(1,2)] unfolding assms(6) by blast
  have calls: "map calls_of (callers x) = todos" unfolding assms(6) sys_run_calls booted_calls ..
  then have len: "length todos = length (callers x)" by auto
  obtain h t c p where h: "global (proc x) = Some h" "tx h = Some c"
    "writer_thr (proc x) = Some t" "wt_seq t = of_nat (length stored)"
    "cv c = \<lparr>queue = q, capacity = channel_capacity cfg, rx_open = wpc x \<noteq> Gone, tx_open = True\<rparr>"
    "length q \<le> channel_capacity cfg" using inv unfolding sys_inv_def wired_def by blast
  have ta: "dropped_total h = of_nat (drops (callers x) + counting (callers x))"
    "\<And>r. eh_registry h = Some r \<Longrightarrow> drops_recorded pv r (drops (callers x))"
    using inv h(1) by (auto simp: sys_inv_def tally_def)
  have fl: "flow (callers x) (wpc x) q (shutdown_flag (proc x)) pre post stored lost"
    and jo: "join_ok (spc x) (wpc x) (proc x)" using inv by (simp_all add: sys_inv_def)
  have over: "map snd (pre @ post) = stored @ lost" if "spc x = Finished"
    using that fl jo by (simp add: flow_def join_ok_def)
  show ?thesis
    using h calls ta fl over len
    by (intro exI [of _ h] exI [of _ c] exI [of _ t] exI [of _ pre] exI [of _ post] exI [of _ stored] exI [of _ lost])
       (simp add: flow_def dropped_count_def drops_recorded_def)
qed

theorem samples_accounted_witness:
  "\<exists>s0 x h c pre post stored lost.
     init demo_deps demo_storage \<lparr>spawn_error = None, runtime_running = True\<rparr> demo_config (process_start, [])
       = (Inr (), s0, [[], [Normal (lit ''data'')]]) \<and>
     x = sys_run demo_deps (ref_parquet True) [Call 0, Call 1, Call 0, Call 1, Write, Stop, Call 0]
       (demo_system s0 [[demo_entry []], [demo_entry []]]) \<and>
     global (proc x) = Some h \<and> tx h = Some c \<and> map calls_of (callers x) = [[demo_entry []], [demo_entry []]] \<and>
     map snd (pre @ post) = stored @ in_batch (wpc x) @ metrics (queue c) @ lost \<and> length lost \<le> length post \<and>
     (\<forall>y \<in> set post. fst y < (2 :: nat))"
proof -
  let ?env = "\<lparr>spawn_error = None, runtime_running = True\<rparr>"
  let ?todos = "[[demo_entry []], [demo_entry []]]"
  obtain s0 where i: "init demo_deps demo_storage ?env demo_config (process_start, [])
    = (Inr (), s0, [[], [Normal (lit ''data'')]])" using init_demo by blast
  define x where "x = sys_run demo_deps (ref_parquet True) [Call 0, Call 1, Call 0, Call 1, Write, Stop, Call 0]
    (demo_system s0 ?todos)"
  have specs: "prom_spec ref_view ref_ok (prom demo_deps)" "chan_spec id (chan demo_deps)"
    by (simp_all add: ref_prom_spec ref_chan_spec)
  have "list_all (list_all (\<lambda>e. admissible (metric_kind e) (sample e))) ?todos"
    by (simp add: demo_admissible)
  from samples_accounted [OF specs i demo_config_simps(2) this x_def [unfolded demo_system_def]]
  obtain h c t pre post stored lost where "global (proc x) = Some h" "tx h = Some c"
    "map calls_of (callers x) = ?todos"
    "map snd (pre @ post) = stored @ in_batch (wpc x) @ metrics (queue (id c)) @ lost"
    "length lost \<le> length post" "\<forall>y \<in> set post. fst y < length ?todos"
    by (elim exE conjE) (rule that)
  then have "global (proc x) = Some h \<and> tx h = Some c \<and> map calls_of (callers x) = ?todos \<and>
      map snd (pre @ post) = stored @ in_batch (wpc x) @ metrics (queue c) @ lost \<and> length lost \<le> length post \<and>
      (\<forall>y \<in> set post. fst y < (2 :: nat))" by (simp add: numeral_2_eq_2)
  note all = conjI [OF i conjI [OF x_def this]]
  show ?thesis
    by (rule exI [of _ s0], rule exI [of _ x], rule exI [of _ h], rule exI [of _ c],
        rule exI [of _ pre], rule exI [of _ post], rule exI [of _ stored], rule exI [of _ lost], rule all)
qed

end
