(* ===== verification/Durability.thy ===== *)
theory Durability
  imports Accounting
begin

text \<open>
  What becomes of the stored samples while the writer and the compaction share the
  partition: under every schedule in which no pass fails and no export is published over
  another, each of them is in the partition, in a published export, or written by the
  running pass.
\<close>

section \<open>Pairs and exports\<close>

lemma batch_keys_append:
  "batch_keys (es @ es') seq = batch_keys es seq @ batch_keys es' (seq + of_nat (length es))"
  by (induction es arbitrary: seq) (simp_all add: algebra_simps)

lemma stored_pairs_snoc:
  "stored_pairs jn (es @ [e]) 0 = stored_pairs jn es 0 @
     [(encode_key (entry_micros e) (of_nat (length es)) (name e), encode_value jn e)]"
  by (simp add: stored_pairs_def batch_keys_append)

text \<open>Some published export holds the row.\<close>

definition published :: "('fs \<Rightarrow> path \<rightharpoonup> row list) \<Rightarrow> 'fs \<Rightarrow> row \<Rightarrow> bool" where
  "published fv fs r \<longleftrightarrow>
     (\<exists>cfg stamp rows. fv fs (final_path cfg stamp) = Some rows \<and> r \<in> set rows)"

lemma published_frame:
  assumes "\<And>q. q \<noteq> tmp_path cfg stamp \<Longrightarrow> fv fs' q = fv fs q" "published fv fs r"
  shows "published fv fs' r"
  using assms tmp_not_final unfolding published_def by metis

text \<open>
  The pairs of the stored samples can be told apart from each other and from what the
  partition held at the start, \<open>m0\<close>.
\<close>

definition storable :: "json_api \<Rightarrow> (byte list \<rightharpoonup> byte list) \<Rightarrow> metric_entry list \<Rightarrow> bool" where
  "storable jn m0 es \<longleftrightarrow>
     length es \<le> 2 ^ 32 \<and> list_all (exportable jn) es \<and>
     (\<forall>x \<in> set (stored_pairs jn es 0). m0 (fst x) = None)"

lemma storable_snoc: "storable jn m0 (es @ [e]) \<Longrightarrow> storable jn m0 es"
  by (simp add: storable_def stored_pairs_snoc)

lemma storable_distinct: "storable jn m0 es \<Longrightarrow> distinct (map fst (stored_pairs jn es 0))"
  using distinct_batch_keys [of es 0] by (simp add: storable_def stored_pairs_def)

definition held ::
  "('p \<Rightarrow> byte list \<rightharpoonup> byte list) \<Rightarrow> ('fs \<Rightarrow> path \<rightharpoonup> row list) \<Rightarrow> json_api \<Rightarrow> 'p \<Rightarrow> 'fs \<Rightarrow> kv list \<Rightarrow> bool" where
  "held cont fv jn p fs kvs \<longleftrightarrow>
     (\<forall>x \<in> set kvs. cont p (fst x) = Some (snd x) \<or> (\<exists>r. row_of_kv jn x = Some r \<and> published fv fs r))"

definition from_here :: "(byte list \<rightharpoonup> byte list) \<Rightarrow> kv list \<Rightarrow> (byte list \<rightharpoonup> byte list) \<Rightarrow> bool" where
  "from_here m0 kvs m \<longleftrightarrow> (\<forall>k v. m k = Some v \<longrightarrow> m0 k = Some v \<or> (k, v) \<in> set kvs)"

text \<open>A pair of the partition under a stored sample's key is that sample's.\<close>

lemma same_pair:
  assumes "storable jn m0 es" "m0 k = Some v \<or> (k, v) \<in> set (stored_pairs jn es 0)"
    and "(k, v') \<in> set (stored_pairs jn es 0)"
  shows "v = v'"
proof -
  have "m0 k = None" using assms(1,3) unfolding storable_def by fastforce
  then have "(k, v) \<in> set (stored_pairs jn es 0)" using assms(2) by simp
  with assms(3) storable_distinct [OF assms(1)] show ?thesis by (metis eq_key_imp_eq_value)
qed

lemma expired_rows_set: "set (expired_rows jn kvs) = {r. \<exists>x \<in> set kvs. row_of_kv jn x = Some r}"
  by (induction kvs) (auto split: option.split)

section \<open>The invariant\<close>

text \<open>
  During a pass, \<open>p0\<close> is what the partition would be had the pass removed nothing, and
  \<open>exported @ buf @ rest\<close> is its scan.
\<close>

definition pass_keeps ::
  "('fs \<Rightarrow> path \<rightharpoonup> row list) \<Rightarrow> ('w \<Rightarrow> path \<times> row list list) \<Rightarrow> ('p \<Rightarrow> byte list \<rightharpoonup> byte list)
     \<Rightarrow> json_api \<Rightarrow> (byte list \<rightharpoonup> byte list) \<Rightarrow> kv list \<Rightarrow> 'p \<Rightarrow> 'fs \<Rightarrow> 'w cold_pass \<Rightarrow> 'fs \<Rightarrow> 'p
     \<Rightarrow> kv list \<Rightarrow> kv list \<Rightarrow> kv list \<Rightarrow> row list list \<Rightarrow> bool" where
  "pass_keeps fv wv cont jn m0 kvs p fs cp fs0 p0 exported buf rest batches \<longleftrightarrow>
     pass_inv fv wv cont jn (tmp_path (cp_cfg cp) (open_stamp (cp_env cp))) fs0 p0 exported buf
       (ROWS_PER_BATCH - 1) (cp_moved cp) batches (cp_state cp p fs) \<and>
     cp_rest cp = map Inr rest \<and> distinct (map fst (exported @ buf @ rest)) \<and>
     held cont fv jn p0 fs0 kvs \<and> from_here m0 kvs (cont p0) \<and>
     (\<forall>x \<in> set (exported @ buf @ rest). m0 (fst x) = Some (snd x) \<or> x \<in> set kvs)"

definition durable ::
  "('fs \<Rightarrow> path \<rightharpoonup> row list) \<Rightarrow> ('w \<Rightarrow> path \<times> row list list) \<Rightarrow> ('p \<Rightarrow> byte list \<rightharpoonup> byte list)
     \<Rightarrow> json_api \<Rightarrow> (byte list \<rightharpoonup> byte list) \<Rightarrow> kv list \<Rightarrow> 'p \<Rightarrow> 'fs \<Rightarrow> 'w cold_pass option \<Rightarrow> bool" where
  "durable fv wv cont jn m0 kvs p fs running \<longleftrightarrow>
     (case running of
        None \<Rightarrow> held cont fv jn p fs kvs \<and> from_here m0 kvs (cont p)
      | Some cp \<Rightarrow>
          (\<exists>fs0 p0 exported buf rest batches.
             pass_keeps fv wv cont jn m0 kvs p fs cp fs0 p0 exported buf rest batches))"

lemma pass_inv_partition:
  assumes "pass_inv fv wv cont jn tmp fs0 p0 exported buf m moved batches (cp_state cp p fs)"
    and "\<And>k. cont p' k = (if k \<in> fst ` set exported then None else cont p0' k)"
  shows "pass_inv fv wv cont jn tmp fs0 p0' exported buf m moved batches (cp_state cp p' fs)"
  using assms unfolding pass_inv_def cp_state_def by simp

lemma pass_inv_contents:
  "pass_inv fv wv cont jn tmp fs0 p0 exported buf m moved batches (cp_state cp p fs) \<Longrightarrow>
     cont p k = (if k \<in> fst ` set exported then None else cont p0 k)"
  unfolding pass_inv_def cp_state_def by simp

lemma durable_same:
  assumes "durable fv wv cont jn m0 kvs p fs running" "cont p' = cont p"
  shows "durable fv wv cont jn m0 kvs p' fs running"
proof (cases running)
  case None
  then show ?thesis using assms by (simp add: durable_def held_def)
next
  case (Some cp)
  then obtain fs0 p0 exported buf rest batches where
    "pass_keeps fv wv cont jn m0 kvs p fs cp fs0 p0 exported buf rest batches"
    using assms(1) by (auto simp: durable_def)
  then have inv: "pass_inv fv wv cont jn (tmp_path (cp_cfg cp) (open_stamp (cp_env cp))) fs0 p0 exported buf
       (ROWS_PER_BATCH - 1) (cp_moved cp) batches (cp_state cp p fs)"
    and k: "pass_keeps fv wv cont jn m0 kvs p fs cp fs0 p0 exported buf rest batches"
    by (simp_all add: pass_keeps_def)
  have "cont p' j = (if j \<in> fst ` set exported then None else cont p0 j)" for j
    using pass_inv_contents [OF inv, of j] assms(2) by simp
  from pass_inv_partition [OF inv this] k
  have "pass_keeps fv wv cont jn m0 kvs p' fs cp fs0 p0 exported buf rest batches"
    unfolding pass_keeps_def by blast
  then show ?thesis using Some by (simp add: durable_def) blast
qed

subsection \<open>An insert of the writer\<close>

lemma held_insert:
  assumes "held cont fv jn p fs kvs" "k \<notin> fst ` set kvs" "cont p' = (cont p)(k \<mapsto> v)"
  shows "held cont fv jn p' fs (kvs @ [(k, v)])"
  using assms by (force simp: held_def)

lemma from_here_insert: "from_here m0 kvs m \<Longrightarrow> from_here m0 (kvs @ [(k, v)]) (m(k \<mapsto> v))"
  by (auto simp: from_here_def)

text \<open>A pass does not notice the insert of a key it has not exported.\<close>

lemma pass_inv_insert:
  assumes inv: "pass_inv fv wv cont jn tmp fs0 p0 exported buf m moved batches (cp_state cp p fs)"
    and new: "k \<notin> fst ` set exported" and spec: "fjall_spec cont fl" "fjall_reliable fl"
  shows "pass_inv fv wv cont jn tmp fs0 (snd (part_insert fl p0 k v)) exported buf m moved batches
    (cp_state cp (snd (part_insert fl p k v)) fs)"
  by (rule pass_inv_partition [OF inv])
    (use pass_inv_contents [OF inv] new in \<open>auto simp: part_insert_reliable [OF spec]\<close>)

lemma durable_insert:
  assumes "durable fv wv cont jn m0 kvs p fs running" "k \<notin> fst ` set kvs" "m0 k = None"
    and spec: "fjall_spec cont fl" "fjall_reliable fl"
  shows "durable fv wv cont jn m0 (kvs @ [(k, v)]) (snd (part_insert fl p k v)) fs running"
proof (cases running)
  case None
  then show ?thesis
    using assms(1) held_insert [of cont fv jn p fs kvs k "snd (part_insert fl p k v)" v, OF _ assms(2)]
      from_here_insert [of m0 kvs "cont p" k v]
    by (simp add: durable_def part_insert_reliable [OF spec])
next
  case (Some cp)
  then obtain fs0 p0 exported buf rest batches where
    k: "pass_keeps fv wv cont jn m0 kvs p fs cp fs0 p0 exported buf rest batches"
    using assms(1) by (auto simp: durable_def)
  let ?p = "snd (part_insert fl p k v)" and ?base = "snd (part_insert fl p0 k v)"
  have c: "cont ?base = (cont p0)(k \<mapsto> v)" by (simp add: part_insert_reliable [OF spec])
  have "\<forall>x \<in> set (exported @ buf @ rest). m0 (fst x) = Some (snd x) \<or> x \<in> set kvs"
    using k by (simp add: pass_keeps_def)
  then have new: "k \<notin> fst ` set exported" using assms(2,3) by force
  have inv: "pass_inv fv wv cont jn (tmp_path (cp_cfg cp) (open_stamp (cp_env cp))) fs0 p0 exported buf
       (ROWS_PER_BATCH - 1) (cp_moved cp) batches (cp_state cp p fs)" using k by (simp add: pass_keeps_def)
  note pass_inv_insert [OF inv new spec, of v]
  moreover have "held cont fv jn ?base fs0 (kvs @ [(k, v)])" "from_here m0 (kvs @ [(k, v)]) (cont ?base)"
    using k held_insert [of cont fv jn p0 fs0 kvs k ?base v, OF _ assms(2) c]
      from_here_insert [of m0 kvs "cont p0" k v] c by (simp_all add: pass_keeps_def)
  ultimately have "pass_keeps fv wv cont jn m0 (kvs @ [(k, v)]) ?p fs cp fs0 ?base exported buf rest batches"
    using k unfolding pass_keeps_def by auto
  then show ?thesis using Some by (simp add: durable_def) blast
qed

subsection \<open>A pass\<close>

lemma open_effect:
  assumes spec: "parquet_spec fv wv pq" "fjall_spec cont fl" "fjall_reliable fl"
    and op: "pass_open pq fl env cfg p fs = (opened, fs')"
  shows "fv fs' = fv fs"
    and "opened = Some cp \<Longrightarrow> \<exists>rest.
      pass_inv fv wv cont jn (tmp_path (cp_cfg cp) (open_stamp (cp_env cp))) fs' p [] []
        (ROWS_PER_BATCH - 1) (cp_moved cp) [] (cp_state cp p fs') \<and>
      cp_cfg cp = cfg \<and> cp_env cp = env \<and> cp_export cp = None \<and> cp_rest cp = map Inr rest \<and>
      distinct (map fst rest) \<and> (\<forall>x \<in> set rest. cont p (fst x) = Some (snd x))"
proof -
  show "fv fs' = fv fs"
    using op parquet_specD(2) [OF spec(1)]
    by (auto simp: pass_open_def split: res.splits sum.splits prod.splits)
  assume "opened = Some cp"
  then obtain cutoff where c: "cp = \<lparr>cp_cfg = cfg, cp_env = env,
      cp_rest = part_range_to fl p (utf8 (cutoff_prefix cutoff)), cp_moved = 0,
      cp_pending = pending_new, cp_export = None\<rparr>"
    using op by (auto simp: pass_open_def split: res.splits sum.splits prod.splits)
  let ?rest = "oks (part_range_to fl p (utf8 (cutoff_prefix cutoff)))"
  have ex: "expired (cont p) cutoff ?rest" by (rule scan_expired [OF spec(2,3)])
  then have "distinct (map fst ?rest)" "\<forall>x \<in> set ?rest. cont p (fst x) = Some (snd x)"
    using strict_sorted_iff [of "map fst ?rest"] unfolding expired_def by auto
  moreover have "cp_state cp p fs' = pass_start p fs'" by (simp add: c cp_state_def pass_start_def)
  moreover have "cp_rest cp = map Inr ?rest" using reliable_items [OF spec(3)] by (simp add: c)
  ultimately show "\<exists>rest.
      pass_inv fv wv cont jn (tmp_path (cp_cfg cp) (open_stamp (cp_env cp))) fs' p [] []
        (ROWS_PER_BATCH - 1) (cp_moved cp) [] (cp_state cp p fs') \<and>
      cp_cfg cp = cfg \<and> cp_env cp = env \<and> cp_export cp = None \<and> cp_rest cp = map Inr rest \<and>
      distinct (map fst rest) \<and> (\<forall>x \<in> set rest. cont p (fst x) = Some (snd x))"
    by (intro exI [of _ ?rest]) (simp add: c pass_start_inv)
qed

lemma durable_open:
  assumes spec: "parquet_spec fv wv pq" "fjall_spec cont fl" "fjall_reliable fl"
    and dur: "durable fv wv cont jn m0 kvs p fs None"
    and op: "pass_open pq fl env cfg p fs = (cp, fs')"
  shows "durable fv wv cont jn m0 kvs p fs' cp"
proof -
  have held: "held cont fv jn p fs' kvs" "from_here m0 kvs (cont p)"
    using dur open_effect(1) [OF spec op] by (simp_all add: durable_def held_def published_def)
  show ?thesis
  proof (cases cp)
    case None
    then show ?thesis using held by (simp add: durable_def)
  next
    case (Some c)
    from open_effect(2) [OF spec op Some] obtain rest where r:
      "pass_inv fv wv cont jn (tmp_path (cp_cfg c) (open_stamp (cp_env c))) fs' p [] []
        (ROWS_PER_BATCH - 1) (cp_moved c) [] (cp_state c p fs')"
      "cp_rest c = map Inr rest" "distinct (map fst rest)" "\<forall>x \<in> set rest. cont p (fst x) = Some (snd x)" by blast
    then have "\<forall>x \<in> set rest. m0 (fst x) = Some (snd x) \<or> x \<in> set kvs"
      using held(2) unfolding from_here_def by (metis prod.collapse)
    then have "pass_keeps fv wv cont jn m0 kvs p fs' c fs' p [] [] rest []"
      using r held unfolding pass_keeps_def by simp
    then show ?thesis using Some by (simp add: durable_def) blast
  qed
qed

text \<open>A step of a pass over the scan.\<close>

lemma item_effect:
  assumes spec: "parquet_spec fv wv pq" "fjall_spec cont fl" "fjall_reliable fl"
    and inv: "pass_inv fv wv cont jn (tmp_path (cp_cfg cp) (open_stamp (cp_env cp))) fs0 p0 exported buf
       (ROWS_PER_BATCH - 1) (cp_moved cp) batches (cp_state cp p fs)" and rest: "cp_rest cp = map Inr rest"
    and mv: "pass_move pq fl jn cp p fs = (Inr cp', p', fs')"
  shows "\<exists>flushed buf' rest' batches'. flushed @ buf' @ rest' = buf @ rest \<and>
    pass_inv fv wv cont jn (tmp_path (cp_cfg cp') (open_stamp (cp_env cp'))) fs0 p0 (exported @ flushed) buf'
      (ROWS_PER_BATCH - 1) (cp_moved cp') batches' (cp_state cp' p' fs') \<and>
    cp_cfg cp' = cp_cfg cp \<and> cp_env cp' = cp_env cp \<and> cp_rest cp' = map Inr rest'"
proof -
  obtain kv rest' where r: "rest = kv # rest'"
    using mv rest by (cases rest) (auto simp: pass_move_def split: prod.splits)
  obtain n st where st: "scan_item pq fl jn (cp_env cp) (cp_cfg cp) (Inr kv) (cp_state cp p fs) = (Inr n, st)"
    and cp': "cp' = cp\<lparr>cp_rest := map Inr rest', cp_moved := cp_moved cp + n, cp_pending := pending st,
      cp_export := export st\<rparr>" "p' = ps_part st" "fs' = ps_fs st"
    using mv rest r by (auto simp: pass_move_def split: prod.splits sum.splits)
  obtain flushed buf' batches' where i: "flushed @ buf' = buf @ [kv]"
    "pass_inv fv wv cont jn (tmp_path (cp_cfg cp) (open_stamp (cp_env cp))) fs0 p0 (exported @ flushed) buf'
       (ROWS_PER_BATCH - 1) (cp_moved cp + n) batches' st"
    using scan_item_inv [OF spec refl inv st] by blast
  have "flushed @ buf' @ rest' = buf @ rest" using arg_cong [OF i(1), of "\<lambda>xs. xs @ rest'"] by (simp add: r)
  with i(2) show ?thesis by (intro exI [of _ flushed] exI [of _ buf'] exI [of _ rest'] exI [of _ batches']) (simp add: cp')
qed

lemma durable_item:
  assumes spec: "parquet_spec fv wv pq" "fjall_spec cont fl" "fjall_reliable fl"
    and dur: "durable fv wv cont jn m0 kvs p fs (Some cp)"
    and mv: "pass_move pq fl jn cp p fs = (Inr cp', p', fs')"
  shows "durable fv wv cont jn m0 kvs p' fs' (Some cp')"
proof -
  obtain fs0 p0 exported buf rest batches where
    k: "pass_keeps fv wv cont jn m0 kvs p fs cp fs0 p0 exported buf rest batches"
    using dur by (auto simp: durable_def)
  then have "pass_inv fv wv cont jn (tmp_path (cp_cfg cp) (open_stamp (cp_env cp))) fs0 p0 exported buf
       (ROWS_PER_BATCH - 1) (cp_moved cp) batches (cp_state cp p fs)" "cp_rest cp = map Inr rest"
    by (simp_all add: pass_keeps_def)
  from item_effect [OF spec this mv] obtain flushed buf' rest' batches' where i: "flushed @ buf' @ rest' = buf @ rest"
    "pass_inv fv wv cont jn (tmp_path (cp_cfg cp') (open_stamp (cp_env cp'))) fs0 p0 (exported @ flushed) buf'
      (ROWS_PER_BATCH - 1) (cp_moved cp') batches' (cp_state cp' p' fs')" "cp_rest cp' = map Inr rest'" by blast
  then have "pass_keeps fv wv cont jn m0 kvs p' fs' cp' fs0 p0 (exported @ flushed) buf' rest' batches'"
    using k unfolding pass_keeps_def append_assoc i(1) by blast
  then show ?thesis by (simp add: durable_def) blast
qed

lemma flush_export: "pending_flush pq fl st = (Inr n, st') \<Longrightarrow> (export st' = None) = (export st = None)"
  by (auto simp: pending_flush_def Let_def split: if_splits sum.splits option.splits prod.splits)

text \<open>A pair of the partition survives a successful pass, or its row is published.\<close>

lemma finish_held:
  assumes ready: "ready fv wv cont jn (tmp_path cfg stamp) fs0 p0 scan batches st"
    and held: "held cont fv jn p0 fs0 kvs"
    and own: "\<And>k v v'. (k, v) \<in> set scan \<Longrightarrow> (k, v') \<in> set kvs \<Longrightarrow> v = v'"
    and dec: "\<And>x. x \<in> set kvs \<Longrightarrow> row_of_kv jn x \<noteq> None"
    and p': "cont p' = cont (ps_part st)"
    and pub: "expired_rows jn scan \<noteq> [] \<Longrightarrow> fv fs' (final_path cfg stamp') = Some (expired_rows jn scan) \<and>
        fv fs0 (final_path cfg stamp') = None \<and>
        (\<forall>q. q \<noteq> tmp_path cfg stamp \<and> q \<noteq> final_path cfg stamp' \<longrightarrow> fv fs' q = fv fs0 q)"
    and quiet: "expired_rows jn scan = [] \<Longrightarrow> fv fs' = fv fs0"
  shows "held cont fv jn p' fs' kvs"
  unfolding held_def
proof
  fix x
  assume x: "x \<in> set kvs"
  obtain r where r: "row_of_kv jn x = Some r" using dec [OF x] by auto
  have keep: "published fv fs' r" if "published fv fs0 r"
  proof (cases "expired_rows jn scan = []")
    case False
    from that obtain cfg' stamp'' rows where f: "fv fs0 (final_path cfg' stamp'') = Some rows" "r \<in> set rows"
      unfolding published_def by blast
    have "final_path cfg' stamp'' \<noteq> tmp_path cfg stamp" using tmp_not_final by metis
    then have "fv fs' (final_path cfg' stamp'') = Some rows" using f(1) pub [OF False] by force
    then show ?thesis using f(2) unfolding published_def by blast
  qed (use that quiet in \<open>simp add: published_def\<close>)
  show "cont p' (fst x) = Some (snd x) \<or> (\<exists>r. row_of_kv jn x = Some r \<and> published fv fs' r)"
  proof (cases "fst x \<in> fst ` set scan")
    case True
    then obtain v where v: "(fst x, v) \<in> set scan" by force
    then have "x \<in> set scan" using own [OF v, of "snd x"] x by simp
    then have "r \<in> set (expired_rows jn scan)" using r by (auto simp: expired_rows_set)
    moreover from this have "fv fs' (final_path cfg stamp') = Some (expired_rows jn scan)" using pub by force
    ultimately show ?thesis using r unfolding published_def by blast
  next
    case False
    then have "cont p' (fst x) = cont p0 (fst x)" using ready by (simp add: p' ready_def)
    then show ?thesis using held x r keep unfolding held_def by fastforce
  qed
qed

lemma finish_effect:
  assumes spec: "parquet_spec fv wv pq" "fjall_spec cont fl" "fjall_reliable fl"
    and inv: "pass_inv fv wv cont jn (tmp_path (cp_cfg cp) (open_stamp (cp_env cp))) fs0 p0 exported buf
       (ROWS_PER_BATCH - 1) (cp_moved cp) batches (cp_state cp p fs)"
    and mv: "pass_move pq fl jn cp p fs = (Inl (Inr n), p', fs')"
    and fresh: "cp_export cp \<noteq> None \<Longrightarrow> fv fs (final_path (cp_cfg cp) (publish_stamp (cp_env cp))) = None"
  shows "\<exists>batches' st. cp_rest cp = [] \<and>
    ready fv wv cont jn (tmp_path (cp_cfg cp) (open_stamp (cp_env cp))) fs0 p0 (exported @ buf) batches' st \<and>
    cont p' = cont (ps_part st) \<and> (expired_rows jn (exported @ buf) = [] \<longrightarrow> fv fs' = fv fs0) \<and>
    (expired_rows jn (exported @ buf) \<noteq> [] \<longrightarrow>
      fv fs' (final_path (cp_cfg cp) (publish_stamp (cp_env cp))) = Some (expired_rows jn (exported @ buf)) \<and>
      fv fs0 (final_path (cp_cfg cp) (publish_stamp (cp_env cp))) = None \<and>
      (\<forall>q. q \<noteq> tmp_path (cp_cfg cp) (open_stamp (cp_env cp)) \<and> q \<noteq> final_path (cp_cfg cp) (publish_stamp (cp_env cp))
        \<longrightarrow> fv fs' q = fv fs0 q))"
proof -
  let ?cfg = "cp_cfg cp" and ?env = "cp_env cp" and ?scan = "exported @ buf"
  let ?tmp = "tmp_path ?cfg (open_stamp ?env)" and ?final = "final_path ?cfg (publish_stamp ?env)"
  have rest: "cp_rest cp = []" using mv by (auto simp: pass_move_def split: list.splits prod.splits sum.splits)
  then have fin: "finish_pass pq fl ?env ?cfg (cp_moved cp) (cp_state cp p fs) = (Inr n, p', fs')"
    using mv by (auto simp: pass_move_def split: prod.splits)
  then obtain m st where fl: "pending_flush pq fl (cp_state cp p fs) = (Inr m, st)"
    by (auto simp: finish_pass_def split: prod.splits sum.splits)
  obtain batches' where ready: "ready fv wv cont jn ?tmp fs0 p0 ?scan batches' st"
    using last_flush [OF spec inv fl] by blast
  have "cont p' = cont (ps_part st) \<and> (expired_rows jn ?scan = [] \<longrightarrow> fv fs' = fv fs0) \<and>
      (expired_rows jn ?scan \<noteq> [] \<longrightarrow> fv fs' ?final = Some (expired_rows jn ?scan) \<and> fv fs0 ?final = None \<and>
        (\<forall>q. q \<noteq> ?tmp \<and> q \<noteq> ?final \<longrightarrow> fv fs' q = fv fs0 q))"
  proof (cases "export st")
    case None
    then have "p' = ps_part st" "fs' = ps_fs st" using fin fl by (simp_all add: finish_pass_def)
    then show ?thesis using None ready by (simp add: ready_def)
  next
    case (Some y)
    obtain t w where y: "y = (t, w)" by fastforce
    then have w: "t = ?tmp" "wv w = (?tmp, batches')" using ready Some by (simp_all add: ready_def written_def)
    obtain r fs2 where f: "finalize_export pq ?env ?cfg ?tmp w (ps_fs st) = (r, fs2)" by fastforce
    then have r: "r = Inr ()" "fs' = fs2" "p' = snd (persist fl (ps_part st))"
      using fin fl Some y w by (auto simp: finish_pass_def split: sum.splits)
    have "cp_export cp \<noteq> None" using Some flush_export [OF fl] by (simp add: cp_state_def)
    moreover have "fv fs ?final = fv fs0 ?final"
      using inv tmp_not_final [THEN not_sym] unfolding pass_inv_def cp_state_def by simp
    ultimately have "fv fs0 ?final = None" using fresh by simp
    moreover have "expired_rows jn ?scan \<noteq> []" using ready Some by (simp add: ready_def)
    ultimately show ?thesis
      using finalize_ok [OF spec(1) w(2) f] ready r persist_contents [OF spec(2)]
      by (simp add: ready_def)
  qed
  with ready rest show ?thesis by blast
qed

lemma durable_finish:
  assumes spec: "parquet_spec fv wv pq" "fjall_spec cont fl" "fjall_reliable fl"
    and dur: "durable fv wv cont jn m0 kvs p fs (Some cp)"
    and own: "\<And>k v v'. m0 k = Some v \<or> (k, v) \<in> set kvs \<Longrightarrow> (k, v') \<in> set kvs \<Longrightarrow> v = v'"
    and dec: "\<And>x. x \<in> set kvs \<Longrightarrow> row_of_kv jn x \<noteq> None"
    and mv: "pass_move pq fl jn cp p fs = (Inl (Inr n), p', fs')"
    and fresh: "cp_export cp \<noteq> None \<Longrightarrow> fv fs (final_path (cp_cfg cp) (publish_stamp (cp_env cp))) = None"
  shows "durable fv wv cont jn m0 kvs p' fs' None"
proof -
  obtain fs0 p0 exported buf rest batches where
    k: "pass_keeps fv wv cont jn m0 kvs p fs cp fs0 p0 exported buf rest batches"
    using dur by (auto simp: durable_def)
  then have inv: "pass_inv fv wv cont jn (tmp_path (cp_cfg cp) (open_stamp (cp_env cp))) fs0 p0 exported buf
      (ROWS_PER_BATCH - 1) (cp_moved cp) batches (cp_state cp p fs)" by (simp add: pass_keeps_def)
  let ?scan = "exported @ buf"
  from finish_effect [OF spec inv mv fresh] obtain batches' st where rest: "cp_rest cp = []"
    and ready: "ready fv wv cont jn (tmp_path (cp_cfg cp) (open_stamp (cp_env cp))) fs0 p0 ?scan batches' st"
    and p': "cont p' = cont (ps_part st)"
    and res: "expired_rows jn ?scan = [] \<longrightarrow> fv fs' = fv fs0"
      "expired_rows jn ?scan \<noteq> [] \<longrightarrow>
        fv fs' (final_path (cp_cfg cp) (publish_stamp (cp_env cp))) = Some (expired_rows jn ?scan) \<and>
        fv fs0 (final_path (cp_cfg cp) (publish_stamp (cp_env cp))) = None \<and>
        (\<forall>q. q \<noteq> tmp_path (cp_cfg cp) (open_stamp (cp_env cp)) \<and> q \<noteq> final_path (cp_cfg cp) (publish_stamp (cp_env cp))
          \<longrightarrow> fv fs' q = fv fs0 q)" by blast
  have "rest = []" using k rest by (simp add: pass_keeps_def)
  then have origin: "\<forall>x \<in> set ?scan. m0 (fst x) = Some (snd x) \<or> x \<in> set kvs"
    and held: "held cont fv jn p0 fs0 kvs" and here: "from_here m0 kvs (cont p0)"
    using k by (simp_all add: pass_keeps_def)
  have own': "v = v'" if "(j, v) \<in> set ?scan" "(j, v') \<in> set kvs" for j v v'
    using origin that own by fastforce
  have "held cont fv jn p' fs' kvs"
    by (rule finish_held [OF ready held own' dec p']) (use res in blast)+
  moreover have "from_here m0 kvs (cont p')"
    using ready here p' unfolding ready_def from_here_def by (metis option.discI)
  ultimately show ?thesis by (simp add: durable_def)
qed

section \<open>Runs\<close>

text \<open>
  The two ways a pass loses rows: it fails after keys were removed, or it publishes over
  an export that is already there.
\<close>

definition mishap ::
  "('fs \<Rightarrow> path \<rightharpoonup> row list) \<Rightarrow> ('pw, 'h, 'c, 'p) deps \<Rightarrow> ('w, 'fs) parquet_api \<Rightarrow> event
     \<Rightarrow> ('pw, 'h, 'c, 'p, 'w, 'fs) sys \<Rightarrow> bool" where
  "mishap fv d pq ev x \<longleftrightarrow>
     ev = Move \<and>
     (case (cold x, partition_of (proc x)) of
        (Some cp, Some p) \<Rightarrow>
          (case fst (pass_move pq (fj d) (js d) cp p (disk x)) of
             Inl (Inl e) \<Rightarrow> True
           | Inl (Inr n) \<Rightarrow>
               cp_export cp \<noteq> None \<and> fv (disk x) (final_path (cp_cfg cp) (publish_stamp (cp_env cp))) \<noteq> None
           | Inr cp' \<Rightarrow> False)
      | _ \<Rightarrow> False)"

fun calm ::
  "('fs \<Rightarrow> path \<rightharpoonup> row list) \<Rightarrow> ('pw, 'h, 'c, 'p) deps \<Rightarrow> ('w, 'fs) parquet_api \<Rightarrow> event list
     \<Rightarrow> ('pw, 'h, 'c, 'p, 'w, 'fs) sys \<Rightarrow> bool" where
  "calm fv d pq [] x = True"
| "calm fv d pq (ev # evs) x = (\<not> mishap fv d pq ev x \<and> calm fv d pq evs (sys_step d pq ev x))"

definition durable_sys ::
  "('fs \<Rightarrow> path \<rightharpoonup> row list) \<Rightarrow> ('w \<Rightarrow> path \<times> row list list) \<Rightarrow> ('p \<Rightarrow> byte list \<rightharpoonup> byte list)
     \<Rightarrow> json_api \<Rightarrow> (byte list \<rightharpoonup> byte list) \<Rightarrow> metric_entry list
     \<Rightarrow> ('pw, 'h, 'c, 'p, 'w, 'fs) sys \<Rightarrow> bool" where
  "durable_sys fv wv cont jn m0 stored x \<longleftrightarrow>
     (storable jn m0 stored \<longrightarrow>
       (\<exists>p. partition_of (proc x) = Some p \<and>
          durable fv wv cont jn m0 (stored_pairs jn stored 0) p (disk x) (cold x)))"

lemma call_partition:
  "partition_of (snd (caller_step d c s)) = partition_of s"
proof -
  have "partition_of (snd (call_step d pc s)) = partition_of s" for pc
    by (cases pc)
       (auto simp: call_step_defs Let_def partition_of_def
          split: option.splits prod.splits res.splits sum.splits if_splits bind_splits)
  then show ?thesis
    by (auto simp: caller_step_def split: option.split list.split prod.split sum.split) (metis snd_conv)+
qed

lemma call_frame:
  "cold (sys_step d pq (Call i) x) = cold x" "disk (sys_step d pq (Call i) x) = disk x"
  "partition_of (proc (sys_step d pq (Call i) x)) = partition_of (proc x)"
  using call_partition [of d "callers x ! i" "proc x"] by (auto split: prod.split)

lemma durable_write:
  assumes spec: "fjall_spec cont fl" "fjall_reliable fl"
    and dur: "storable jn m0 stored \<Longrightarrow> durable fv wv cont jn m0 (stored_pairs jn stored 0) p fs running"
    and eff: "write_effect jn fl stored p stored' p'" and ok: "storable jn m0 stored'"
  shows "durable fv wv cont jn m0 (stored_pairs jn stored' 0) p' fs running"
proof (cases "stored' = stored")
  case True
  then have "cont p' = cont p"
    using eff persist_contents [OF spec(1)] by (auto simp: write_effect_def persist_best_effort_def)
  with dur ok True durable_same show ?thesis by metis
next
  case False
  then obtain e where e: "stored' = stored @ [e]" "p' = snd (part_insert fl p
      (encode_key (entry_micros e) (of_nat (length stored)) (name e)) (encode_value jn e))"
    using eff by (auto simp: write_effect_def)
  have "storable jn m0 stored" using storable_snoc ok e(1) by simp
  moreover have "distinct (map fst (stored_pairs jn stored' 0))" by (rule storable_distinct [OF ok])
  moreover have "m0 (encode_key (entry_micros e) (of_nat (length stored)) (name e)) = None"
    using ok by (simp add: storable_def e(1) stored_pairs_snoc)
  ultimately show ?thesis
    using durable_insert [OF dur _ _ spec] by (simp add: e stored_pairs_snoc)
qed

lemma storable_rows: "json_floats jn \<Longrightarrow> storable jn m0 es \<Longrightarrow> x \<in> set (stored_pairs jn es 0) \<Longrightarrow> row_of_kv jn x \<noteq> None"
proof -
  assume a: "json_floats jn" "storable jn m0 es" "x \<in> set (stored_pairs jn es 0)"
  then have "map (row_of_kv jn) (stored_pairs jn es 0) = map (\<lambda>e. Some (row_of_entry jn e)) es"
    by (intro rows_of_stored_pairs) (simp_all add: storable_def)
  then have "row_of_kv jn x \<in> (\<lambda>e. Some (row_of_entry jn e)) ` set es"
    using a(3) by (metis (no_types, lifting) image_eqI list.set_map)
  then show ?thesis by auto
qed

lemma sys_step_durable:
  assumes spec: "prom_spec pv ok (prom d)" "chan_spec cv (chan d)"
    and store: "parquet_spec fv wv pq" "fjall_spec cont (fj d)" "fjall_reliable (fj d)" "json_floats (js d)"
    and inv: "sys_inv pv cv cap pre post stored lost q x"
    and dur: "durable_sys fv wv cont (js d) m0 stored x" and calm: "\<not> mishap fv d pq ev x"
  shows "\<exists>pre post stored lost q. sys_inv pv cv cap pre post stored lost q (sys_step d pq ev x) \<and>
    durable_sys fv wv cont (js d) m0 stored (sys_step d pq ev x)"
proof (cases ev)
  case (Call i)
  have "durable_sys fv wv cont (js d) m0 stored (sys_step d pq (Call i) x)"
    using dur unfolding durable_sys_def call_frame .
  with Call call_inv [OF spec inv] show ?thesis by blast
next
  case Write
  from write_inv [OF spec(2) inv] obtain stored' lost' q' p p' where
    w: "sys_inv pv cv cap pre post stored' lost' q' (sys_step d pq Write x)"
    "partition_of (proc x) = Some p" "partition_of (proc (sys_step d pq Write x)) = Some p'"
    "write_effect (js d) (fj d) stored p stored' p'" by blast
  have fr: "cold (sys_step d pq Write x) = cold x" "disk (sys_step d pq Write x) = disk x"
    by (simp_all split: prod.split)
  have old: "storable (js d) m0 stored \<Longrightarrow>
      durable fv wv cont (js d) m0 (stored_pairs (js d) stored 0) p (disk x) (cold x)"
    using dur w(2) by (simp add: durable_sys_def)
  have "durable_sys fv wv cont (js d) m0 stored' (sys_step d pq Write x)"
    unfolding durable_sys_def fr using durable_write [OF store(2,3) old w(4)] w(3) by blast
  with Write w(1) show ?thesis by blast
next
  case Stop
  from stop_inv [OF spec(2) inv] obtain q' p p' where
    w: "sys_inv pv cv cap pre post stored lost q' (sys_step d pq Stop x)"
    "partition_of (proc x) = Some p" "partition_of (proc (sys_step d pq Stop x)) = Some p'"
    "p' = p \<or> p' = snd (persist (fj d) p)" by blast
  have "cont p' = cont p" using w(4) persist_contents [OF store(2)] by auto
  have fr: "cold (sys_step d pq Stop x) = cold x" "disk (sys_step d pq Stop x) = disk x"
    by (simp_all split: prod.split)
  have old: "storable (js d) m0 stored \<Longrightarrow>
      durable fv wv cont (js d) m0 (stored_pairs (js d) stored 0) p (disk x) (cold x)"
    using dur w(2) by (simp add: durable_sys_def)
  have "durable_sys fv wv cont (js d) m0 stored (sys_step d pq Stop x)"
    unfolding durable_sys_def fr using durable_same [OF old \<open>cont p' = cont p\<close>] w(3) by blast
  with Stop w(1) show ?thesis by blast
next
  case (Compact i env)
  have "durable_sys fv wv cont (js d) m0 stored (sys_step d pq (Compact i env) x)"
    using dur durable_open [OF store(1-3)]
    by (auto simp: durable_sys_def split: option.splits prod.split)
  with Compact compaction_inv(1) [OF inv] show ?thesis by blast
next
  case Move
  have "durable_sys fv wv cont (js d) m0 stored (sys_step d pq Move x)"
  proof (cases "cold x")
    case (Some cp)
    show ?thesis
      unfolding durable_sys_def
    proof
      assume st: "storable (js d) m0 stored"
      then obtain p where p: "partition_of (proc x) = Some p"
        "durable fv wv cont (js d) m0 (stored_pairs (js d) stored 0) p (disk x) (Some cp)"
        using dur Some by (auto simp: durable_sys_def)
      obtain r p' fs' where mv: "pass_move pq (fj d) (js d) cp p (disk x) = (r, p', fs')" by (metis prod_cases3)
      have set: "partition_of (set_partition p' (proc x)) = Some p'"
        using p(1) by (auto simp: partition_of_def set_partition_def on_handle_def split: bind_splits)
      have "durable fv wv cont (js d) m0 (stored_pairs (js d) stored 0) p' fs' (case r of Inl _ \<Rightarrow> None | Inr cp' \<Rightarrow> Some cp')"
      proof (cases r)
        case (Inr cp')
        then show ?thesis using durable_item [OF store(1-3) p(2)] mv by simp
      next
        case (Inl res)
        then obtain n where n: "res = Inr n" "cp_export cp \<noteq> None \<Longrightarrow>
            fv (disk x) (final_path (cp_cfg cp) (publish_stamp (cp_env cp))) = None"
          using calm Move Some p(1) mv by (cases res) (auto simp: mishap_def)
        from durable_finish [OF store(1-3) p(2) _ storable_rows [OF store(4) st] mv [unfolded Inl n(1)] n(2)]
        show ?thesis using same_pair [OF st] Inl by simp
      qed
      then show "\<exists>p. partition_of (proc (sys_step d pq Move x)) = Some p \<and>
          durable fv wv cont (js d) m0 (stored_pairs (js d) stored 0) p (disk (sys_step d pq Move x))
            (cold (sys_step d pq Move x))"
        using Some p(1) mv set by (cases r) simp_all
    qed
  qed (use dur in simp)
  with Move compaction_inv(2) [OF inv] show ?thesis by blast
qed

lemma sys_run_durable:
  assumes spec: "prom_spec pv ok (prom d)" "chan_spec cv (chan d)"
    and store: "parquet_spec fv wv pq" "fjall_spec cont (fj d)" "fjall_reliable (fj d)" "json_floats (js d)"
  shows "sys_inv pv cv cap pre post stored lost q x \<Longrightarrow> durable_sys fv wv cont (js d) m0 stored x \<Longrightarrow>
    calm fv d pq evs x \<Longrightarrow>
    \<exists>pre post stored lost q. sys_inv pv cv cap pre post stored lost q (sys_run d pq evs x) \<and>
      durable_sys fv wv cont (js d) m0 stored (sys_run d pq evs x)"
proof (induction evs arbitrary: pre post stored lost q x)
  case (Cons ev evs)
  have "\<not> mishap fv d pq ev x" "calm fv d pq evs (sys_step d pq ev x)" using Cons.prems(3) by simp_all
  moreover from sys_step_durable [OF spec store Cons.prems(1,2) this(1)]
  obtain pre' post' stored' lost' q' where
    "sys_inv pv cv cap pre' post' stored' lost' q' (sys_step d pq ev x)"
    "durable_sys fv wv cont (js d) m0 stored' (sys_step d pq ev x)" by blast
  ultimately show ?case unfolding sys_run.simps by (intro Cons.IH)
next
  case Nil
  then show ?case unfolding sys_run.simps by blast
qed

text \<open>The running pass wrote the row to its temporary file.\<close>

definition written_by_pass ::
  "('w \<Rightarrow> path \<times> row list list) \<Rightarrow> 'w cold_pass option \<Rightarrow> row \<Rightarrow> bool" where
  "written_by_pass wv running r \<longleftrightarrow>
     (\<exists>cp tmp w. running = Some cp \<and> cp_export cp = Some (tmp, w) \<and> r \<in> set (concat (snd (wv w))))"

lemma durable_placed:
  assumes "durable fv wv cont jn m0 kvs p fs running" and "x \<in> set kvs" and "row_of_kv jn x = Some r"
    and own: "\<And>k v v'. m0 k = Some v \<or> (k, v) \<in> set kvs \<Longrightarrow> (k, v') \<in> set kvs \<Longrightarrow> v = v'"
  shows "cont p (fst x) = Some (snd x) \<or> published fv fs r \<or> written_by_pass wv running r"
proof (cases running)
  case None
  then show ?thesis using assms(1-3) by (force simp: durable_def held_def)
next
  case (Some cp)
  then obtain fs0 p0 exported buf rest batches where
    k: "pass_keeps fv wv cont jn m0 kvs p fs cp fs0 p0 exported buf rest batches"
    using assms(1) by (auto simp: durable_def)
  let ?tmp = "tmp_path (cp_cfg cp) (open_stamp (cp_env cp))"
  have inv: "pass_inv fv wv cont jn ?tmp fs0 p0 exported buf (ROWS_PER_BATCH - 1) (cp_moved cp) batches
      (cp_state cp p fs)" using k by (simp add: pass_keeps_def)
  then have fv: "\<And>q. q \<noteq> ?tmp \<Longrightarrow> fv fs q = fv fs0 q"
    and wr: "written wv ?tmp (cp_export cp) batches" "expired_rows jn exported = concat batches"
    by (simp_all add: pass_inv_def cp_state_def)
  show ?thesis
  proof (cases "fst x \<in> fst ` set exported")
    case True
    then obtain v where v: "(fst x, v) \<in> set exported" by force
    have "\<forall>y \<in> set (exported @ buf @ rest). m0 (fst y) = Some (snd y) \<or> y \<in> set kvs"
      using k by (simp add: pass_keeps_def)
    then have "m0 (fst x) = Some v \<or> (fst x, v) \<in> set kvs" using v by force
    then have "x \<in> set exported" using v own [of "fst x" v "snd x"] assms(2) by simp
    then have "r \<in> set (concat batches)" using assms(3) wr(2) [symmetric] by (auto simp: expired_rows_set)
    then have "written_by_pass wv running r"
      using wr(1) Some by (auto simp: written_def written_by_pass_def split: option.splits)
    then show ?thesis by simp
  next
    case False
    then have "cont p (fst x) = cont p0 (fst x)" using pass_inv_contents [OF inv] by simp
    moreover have "cont p0 (fst x) = Some (snd x) \<or> published fv fs0 r"
      using k assms(2,3) unfolding pass_keeps_def held_def by fastforce
    moreover have "published fv fs r" if "published fv fs0 r"
      by (rule published_frame [OF fv that])
    ultimately show ?thesis by auto
  qed
qed

section \<open>What the callers recorded\<close>

lemma length_by_caller:
  fixes n :: nat
  shows "(\<forall>y \<in> set xs. fst y < n) \<Longrightarrow> length xs = (\<Sum>i<n. length (filter (\<lambda>y. fst y = i) xs))"
proof (induction xs)
  case (Cons y xs)
  have "(\<Sum>i<n. length (filter (\<lambda>y. fst y = i) (y # xs))) =
      (\<Sum>i<n. (if fst y = i then 1 else 0) + length (filter (\<lambda>y. fst y = i) xs))"
    by (intro sum.cong) auto
  then show ?case using Cons by (simp add: sum.distrib)
qed simp

lemma accepted_calls: "set (accepted_by c) \<subseteq> set (calls_of c)" "length (accepted_by c) \<le> length (calls_of c)"
  by (auto simp: accepted_by_def calls_of_def intro: le_trans [OF length_filter_le])

lemma flow_calls:
  assumes "flow cs pc q flag pre post stored lost"
  shows "set stored \<subseteq> set (concat (map calls_of cs))" "length stored \<le> length (concat (map calls_of cs))"
proof -
  let ?log = "pre @ post"
  have fl: "\<forall>y \<in> set ?log. fst y < length cs"
    "\<And>i. i < length cs \<Longrightarrow> map snd (filter (\<lambda>y. fst y = i) ?log) = accepted_by (cs ! i)"
    "map snd ?log = stored @ in_batch pc @ metrics q @ lost"
    using assms unfolding flow_def by blast+
  have "set (map snd ?log) \<subseteq> set (concat (map calls_of cs))"
  proof
    fix e
    assume "e \<in> set (map snd ?log)"
    then obtain y where "y \<in> set ?log" "snd y = e" by force
    then obtain i where "(i, e) \<in> set ?log" by (metis prod.collapse)
    then have i: "i < length cs" and "e \<in> set (map snd (filter (\<lambda>y. fst y = i) ?log))"
      using fl(1) by force+
    then have "e \<in> set (accepted_by (cs ! i))" unfolding fl(2) [OF i] by simp
    then have "e \<in> set (calls_of (cs ! i))" using accepted_calls(1) by blast
    then show "e \<in> set (concat (map calls_of cs))" using nth_mem [OF i] by fastforce
  qed
  then show "set stored \<subseteq> set (concat (map calls_of cs))" unfolding fl(3) by auto
  have "length ?log = (\<Sum>i<length cs. length (accepted_by (cs ! i)))"
    using length_by_caller [OF fl(1)] fl(2) by (metis (no_types, lifting) length_map lessThan_iff sum.cong)
  also have "\<dots> \<le> (\<Sum>i<length cs. length (calls_of (cs ! i)))" by (intro sum_mono accepted_calls)
  also have "\<dots> = length (concat (map calls_of cs))"
    by (simp add: length_concat comp_def sum_list_sum_nth atLeast0LessThan)
  finally show "length stored \<le> length (concat (map calls_of cs))"
    using arg_cong [OF fl(3), of length] by simp
qed

section \<open>A schedule that loses a sample\<close>

text \<open>The crate without the exporter, right after \<open>init\<close>.\<close>

definition quiet_deps :: "(ref_world, nat, chan_view, kv_store) deps" where
  "quiet_deps = demo_deps\<lparr>ft := \<lparr>fjall_backend = True, prometheus_exporter = False\<rparr>\<rparr>"

definition quiet_env :: init_env where
  "quiet_env = \<lparr>spawn_error = None, runtime_running = False\<rparr>"

definition quiet_start :: "(ref_world, nat, chan_view, kv_store) process" where
  "quiet_start =
     process_start\<lparr>global := Some \<lparr>tx = Some \<lparr>queue = [], capacity = 16384, rx_open = True, tx_open = True\<rparr>,
         eh_registry = None, eh_fjall = Some store_empty, dropped_total = 0, eh_has_fjall = True\<rparr>,
       writer_thr := Some \<lparr>wt_rows = batch_rows (fjall_config_new [Normal (lit ''data'')]), wt_seq = 0, wt_exited = False\<rparr>,
       writer_join := \<lparr>guarded = Some (), poisoned = False\<rparr>\<rparr>"

lemma quiet_init:
  "init quiet_deps demo_storage quiet_env demo_config (process_start, [])
     = (Inr (), quiet_start, [[], [Normal (lit ''data'')]])"
proof -
  have p: "prepare quiet_deps demo_storage demo_config [] =
      (Inr (\<lparr>tx = Some \<lparr>queue = [], capacity = 16384, rx_open = True, tx_open = True\<rparr>,
         eh_registry = None, eh_fjall = Some store_empty, dropped_total = 0, eh_has_fjall = True\<rparr>, Some store_empty),
       [[], [Normal (lit ''data'')]])"
    using demo_config_simps
    by (simp add: prepare_def quiet_deps_def engine_handle_new_def init_storage_def ref_chan_def open_demo
        cold_dir_def fjall_config_new_def fjall_config_default_def path_parent_def)
  show ?thesis
    by (simp add: init_prepare p init_writer_cases [OF p] quiet_env_def quiet_start_def process_start_def lock_new_def
        try_spawn_compaction_def spawn_compaction_task_def demo_config_simps)
qed

lemma stop_step_delivering:
  "stop_step d (Delivering (numeral k)) s =
     (case Option.bind (global s) tx of
        None \<Rightarrow> (Taking, s)
      | Some c \<Rightarrow>
          (case try_send (chan d) c Shutdown of
             (Inr _, c') \<Rightarrow> (Taking, set_tx c' s)
           | (Inl Closed, c') \<Rightarrow> (Taking, set_tx c' s)
           | (Inl Full, c') \<Rightarrow> (Delivering (pred_numeral k), set_tx c' s)))"
  by (simp add: numeral_eq_Suc)

text \<open>
  The caller passes the check of \<open>SHUTDOWN\<close>; \<open>shutdown\<close> sends its sentinel; the
  writer takes it; the caller sends; the writer drops the receiver; \<open>shutdown\<close> returns.
\<close>

definition late_schedule :: "event list" where
  "late_schedule =
     [Call 0, Call 0, Call 0, Stop, Stop, Write, Call 0, Write, Write, Stop, Stop, Stop, Stop]"

section \<open>Properties\<close>

text \<open>
  C1: accepted samples stay. Let threads record, the writer insert and compaction passes
  run in any schedule in which no pass fails and none publishes over an existing export, on
  a store that reports no error and held no sample of the same microsecond and name. Then
  every sample the writer inserted, the \<open>j\<close>-th of them with sequence number \<open>j\<close>, is in
  the partition with its payload, or its row is in a published export, or the running pass
  has written its row to the temporary file. The writer inserts what was accepted, in the
  order it was accepted, except for at most one sample of each caller accepted after
  \<open>SHUTDOWN\<close> was set.
\<close>

theorem stored_samples_survive:
  assumes "prom_spec pv ok (prom d)" and "chan_spec cv (chan d)"
    and "parquet_spec fv wv pq" and "fjall_spec cont (fj d)" and "fjall_reliable (fj d)" and "json_floats (js d)"
    and "init d sa env cfg (process_start, fs) = (Inr (), s0, fs')" and "fjall cfg = Some fcfg"
    and "open_handles sa fcfg fs = (Inr p, fs')"
    and "list_all (list_all (\<lambda>e. admissible (metric_kind e) (sample e))) todos"
    and "list_all (exportable (js d)) (concat todos)" and "length (concat todos) \<le> 2 ^ 32"
    and "\<forall>e \<in> set (concat todos). \<forall>seq. cont p (encode_key (entry_micros e) seq (name e)) = None"
    and "calm fv d pq evs (booted s0 todos files)" and "x = sys_run d pq evs (booted s0 todos files)"
  shows "\<exists>h c part pre post stored lost. global (proc x) = Some h \<and> tx h = Some c \<and> eh_fjall h = Some part \<and>
    (\<forall>i < length (callers x). accepted_by (callers x ! i) = map snd (filter (\<lambda>y. fst y = i) (pre @ post))) \<and>
    map snd (pre @ post) = stored @ in_batch (wpc x) @ metrics (queue (cv c)) @ lost \<and>
    length lost \<le> length post \<and> distinct (map fst post) \<and> (\<not> shutdown_flag (proc x) \<longrightarrow> post = []) \<and>
    (\<forall>j < length stored.
       cont part (encode_key (entry_micros (stored ! j)) (of_nat j) (name (stored ! j)))
         = Some (encode_value (js d) (stored ! j)) \<or>
       published fv (disk x) (row_of_entry (js d) (stored ! j)) \<or>
       written_by_pass wv (cold x) (row_of_entry (js d) (stored ! j)))"
proof -
  have boot: "partition_of s0 = Some p"
    "sys_inv pv cv (channel_capacity cfg) [] [] [] [] [] (booted s0 todos files)"
    using booted_inv [OF assms(1,2,7,8,10), of files] assms(9) by auto
  have "durable_sys fv wv cont (js d) (cont p) [] (booted s0 todos files)"
    using boot(1) by (simp add: durable_sys_def durable_def held_def from_here_def booted_def stored_pairs_def)
  from sys_run_durable [OF assms(1-6) boot(2) this assms(14)] obtain pre post stored lost q where
    inv: "sys_inv pv cv (channel_capacity cfg) pre post stored lost q x"
    and dur: "durable_sys fv wv cont (js d) (cont p) stored x" unfolding assms(15) by blast
  obtain h c part where h: "global (proc x) = Some h" "tx h = Some c" "eh_fjall h = Some part" "queue (cv c) = q"
    using inv unfolding sys_inv_def wired_def by fastforce
  have fl: "flow (callers x) (wpc x) q (shutdown_flag (proc x)) pre post stored lost" using inv by (simp add: sys_inv_def)
  have "map calls_of (callers x) = todos" unfolding assms(15) sys_run_calls booted_calls ..
  with flow_calls [OF fl] have sub: "set stored \<subseteq> set (concat todos)" "length stored \<le> length (concat todos)" by simp_all
  have st: "storable (js d) (cont p) stored"
    using sub assms(11-13) stored_pairs_key [of _ _ "js d" stored 0]
    by (fastforce simp: storable_def list_all_iff)
  then have dp: "durable fv wv cont (js d) (cont p) (stored_pairs (js d) stored 0) part (disk x) (cold x)"
    using dur h by (simp add: durable_sys_def partition_of_def)
  have "cont part (encode_key (entry_micros (stored ! j)) (of_nat j) (name (stored ! j)))
         = Some (encode_value (js d) (stored ! j)) \<or>
       published fv (disk x) (row_of_entry (js d) (stored ! j)) \<or>
       written_by_pass wv (cold x) (row_of_entry (js d) (stored ! j))" if j: "j < length stored" for j
  proof -
    let ?y = "(encode_key (entry_micros (stored ! j)) (of_nat j) (name (stored ! j)), encode_value (js d) (stored ! j))"
    have "?y = stored_pairs (js d) stored 0 ! j" using j by (simp add: stored_pairs_def nth_batch_keys)
    then have "?y \<in> set (stored_pairs (js d) stored 0)"
      using j by (metis length_batch_keys length_map length_zip min.idem nth_mem stored_pairs_def)
    moreover have "row_of_kv (js d) ?y = Some (row_of_entry (js d) (stored ! j))"
      using st j by (intro row_of_stored [OF assms(6)]) (auto simp: storable_def list_all_length)
    ultimately show ?thesis using durable_placed [OF dp] same_pair [OF st] by fastforce
  qed
  moreover have "\<forall>i < length (callers x). accepted_by (callers x ! i) = map snd (filter (\<lambda>y. fst y = i) (pre @ post))"
    "map snd (pre @ post) = stored @ in_batch (wpc x) @ metrics (queue (cv c)) @ lost"
    "length lost \<le> length post" "distinct (map fst post)" "\<not> shutdown_flag (proc x) \<longrightarrow> post = []"
    using fl h(4) by (simp_all add: flow_def)
  ultimately show ?thesis using h(1-3) by blast
qed

theorem stored_samples_survive_witness:
  "\<exists>x h part pre post stored lost.
     x = sys_run quiet_deps (ref_parquet True) [Call 0, Call 0, Call 0, Call 0, Write, Write, Write]
       (demo_system quiet_start [[demo_sample]]) \<and>
     global (proc x) = Some h \<and> eh_fjall h = Some part \<and>
     map snd (pre @ post :: (nat \<times> metric_entry) list) = stored @ in_batch (wpc x) @ metrics (queue (the (tx h))) @ lost \<and>
     length lost \<le> length post \<and> (\<not> shutdown_flag (proc x) \<longrightarrow> post = []) \<and>
     (\<forall>j < length stored.
       store_map part (encode_key (entry_micros (stored ! j)) (of_nat j) (name (stored ! j)))
         = Some (encode_value (js quiet_deps) (stored ! j)) \<or>
       published id (disk x) (row_of_entry (js quiet_deps) (stored ! j)) \<or>
       written_by_pass id (cold x) (row_of_entry (js quiet_deps) (stored ! j)))"
proof -
  let ?evs = "[Call 0, Call 0, Call 0, Call 0, Write, Write, Write]"
  define x where "x = sys_run quiet_deps (ref_parquet True) ?evs (demo_system quiet_start [[demo_sample]])"
  have specs: "prom_spec ref_view ref_ok (prom quiet_deps)" "chan_spec id (chan quiet_deps)"
    "parquet_spec id id (ref_parquet True)" "fjall_spec store_map (fj quiet_deps)" "fjall_reliable (fj quiet_deps)"
    "json_floats (js quiet_deps)"
    by (simp_all add: quiet_deps_def ref_prom_spec ref_chan_spec ref_parquet_spec ref_fjall_spec ref_fjall_reliable
        json_floats_table)
  have op: "open_handles demo_storage (fjall_config_new [Normal (lit ''data'')]) [] =
      (Inr store_empty, [[], [Normal (lit ''data'')]])"
    by (simp add: open_demo cold_dir_def fjall_config_new_def fjall_config_default_def path_parent_def)
  have e: "list_all (list_all (\<lambda>e. admissible (metric_kind e) (sample e))) [[demo_sample]]"
    "list_all (exportable (js quiet_deps)) (concat [[demo_sample]])" "length (concat [[demo_sample]]) \<le> 2 ^ 32"
    "\<forall>e \<in> set (concat [[demo_sample]]). \<forall>seq. store_map store_empty (encode_key (entry_micros e) seq (name e)) = None"
    using json_exact_demo
    by (simp_all add: demo_sample_def admissible_def exportable_def lit_def is_scalar_def quiet_deps_def
        store_map_def store_empty.rep_eq)
  have "calm id quiet_deps (ref_parquet True) ?evs (booted quiet_start [[demo_sample]] Map.empty)"
    by (simp add: mishap_def del: sys_step.simps)
  from stored_samples_survive [OF specs quiet_init demo_config_simps(2) op e this x_def [unfolded demo_system_def]]
  obtain h c part pre post stored lost where r: "global (proc x) = Some h" "tx h = Some c" "eh_fjall h = Some part"
    "map snd (pre @ post :: (nat \<times> metric_entry) list) = stored @ in_batch (wpc x) @ metrics (queue (id c)) @ lost"
    "length lost \<le> length post" "\<not> shutdown_flag (proc x) \<longrightarrow> post = []"
    "\<forall>j < length stored.
       store_map part (encode_key (entry_micros (stored ! j)) (of_nat j) (name (stored ! j)))
         = Some (encode_value (js quiet_deps) (stored ! j)) \<or>
       published id (disk x) (row_of_entry (js quiet_deps) (stored ! j)) \<or>
       written_by_pass id (cold x) (row_of_entry (js quiet_deps) (stored ! j))"
    by (elim exE conjE) (rule that)
  have q: "queue (id c) = queue (the (tx h))" using r(2) by simp
  note all = conjI [OF x_def conjI [OF r(1) conjI [OF r(3) conjI [OF r(4) [unfolded q] conjI [OF r(5) conjI [OF r(6,7)]]]]]]
  show ?thesis
    by (rule exI [of _ x], rule exI [of _ h], rule exI [of _ part], rule exI [of _ pre], rule exI [of _ post],
        rule exI [of _ stored], rule exI [of _ lost], rule all)
qed


text \<open>
  C20: the name of an export has a resolution of one second, and publishing renames over
  an existing file: a pass that publishes in the second of an earlier export replaces it,
  and the rows of that export are in no published file any more.
\<close>

theorem export_replaced:
  assumes "parquet_spec fv wv pq" and "fjall_spec cont fl" and "fjall_reliable fl"
    and "run_compaction_once_blocking pq fl jn env cfg part fs = (Ret (Inr n), part', fs')" and "0 < n"
    and "fv fs (final_path cfg (publish_stamp env)) = Some old" and "r \<in> set old"
    and "\<forall>q rows. q \<noteq> final_path cfg (publish_stamp env) \<longrightarrow> fv fs q = Some rows \<longrightarrow> r \<notin> set rows"
    and "\<forall>k v. cont part k = Some v \<longrightarrow> row_of_kv jn (k, v) \<noteq> Some r"
  shows "published fv fs r \<and> \<not> published fv fs' r"
proof
  show "published fv fs r" using assms(6,7) unfolding published_def by blast
  let ?final = "final_path cfg (publish_stamp env)" and ?tmp = "tmp_path cfg (open_stamp env)"
  obtain cutoff kvs where k: "expired (cont part) cutoff kvs" "n = length (expired_rows jn kvs)"
    "if expired_rows jn kvs = [] then fv fs' = fv fs \<and> cont part' = cont part
     else fv fs' ?final = Some (expired_rows jn kvs) \<and>
       (\<forall>q. q \<noteq> ?tmp \<and> q \<noteq> ?final \<longrightarrow> fv fs' q = fv fs q) \<and>
       (\<forall>k. k \<notin> fst ` set kvs \<longrightarrow> cont part' k = cont part k) \<and>
       (\<forall>k \<in> fst ` set kvs. decode_key k \<noteq> None \<longrightarrow> cont part' k = None)"
    using compaction_exports [OF assms(1-4)] by blast
  have ne: "expired_rows jn kvs \<noteq> []" using k(2) assms(5) by auto
  have new: "r \<notin> set (expired_rows jn kvs)"
    using k(1) assms(9) by (auto simp: expired_rows_set expired_def)
  show "\<not> published fv fs' r"
  proof
    assume "published fv fs' r"
    then obtain cfg' stamp rows where f: "fv fs' (final_path cfg' stamp) = Some rows" "r \<in> set rows"
      unfolding published_def by blast
    have "final_path cfg' stamp \<noteq> ?tmp" using tmp_not_final [THEN not_sym] .
    with f new ne k(3) assms(8) show False by (cases "final_path cfg' stamp = ?final") auto
  qed
qed

theorem export_replaced_witness:
  "\<exists>part' fs' old. run_compaction_once_blocking (ref_parquet True) ref_fjall (json_table demo_table) demo_env demo_cfg
      demo_part [final_path demo_cfg (lit ''20240101T000001'') \<mapsto> [old]] = (Ret (Inr (Suc 0)), part', fs') \<and>
    published id [final_path demo_cfg (lit ''20240101T000001'') \<mapsto> [old]] old \<and> \<not> published id fs' old"
proof -
  let ?jn = "json_table demo_table"
  let ?old = "\<lparr>r_ts = 1, r_name = lit ''old'', r_value = Fin 2, r_kind = lit ''gauge'', r_labels = []\<rparr>"
  let ?fs = "[final_path demo_cfg (lit ''20240101T000001'') \<mapsto> [?old]]"
  have "fst (finalize_export (ref_parquet True) demo_env demo_cfg t w fs) = Inr ()" for t w fs
    by (simp add: finalize_export_def ref_parquet_def)
  then obtain n part' fs' where run: "run_compaction_once_blocking (ref_parquet True) ref_fjall ?jn
      demo_env demo_cfg demo_part ?fs = (Ret (Inr n), part', fs')"
    using run_returns [OF ref_parquet_spec ref_fjall_spec ref_fjall_reliable ref_parquet_writable demo_cutoff] by blast
  have row: "\<exists>v k l. row_of_kv ?jn (demo_key, w) = Some \<lparr>r_ts = 7, r_name = lit ''up'', r_value = v, r_kind = k, r_labels = l\<rparr>" for w
    by (cases "decode_value ?jn w") (simp add: row_of_kv_def demo_key_decodes i64_or_max_def)
  obtain kvs where k: "expired (store_map demo_part) 10 kvs" "n = length (expired_rows ?jn kvs)"
    using compaction_exports [OF ref_parquet_spec ref_fjall_spec ref_fjall_reliable run] demo_cutoff by auto
  have "kvs = [(demo_key, encode_value ?jn demo_sample)]" using expired_demo [OF k(1)] .
  then have n: "n = Suc 0" using k(2) row [of "encode_value ?jn demo_sample"] by auto
  have st: "publish_stamp demo_env = lit ''20240101T000001''" by (simp add: demo_env_def)
  have "0 < n" "id ?fs (final_path demo_cfg (publish_stamp demo_env)) = Some [?old]" "?old \<in> set [?old]"
    "\<forall>q rows. q \<noteq> final_path demo_cfg (publish_stamp demo_env) \<longrightarrow> id ?fs q = Some rows \<longrightarrow> ?old \<notin> set rows"
    using n by (simp_all add: st)
  moreover have "\<forall>k v. store_map demo_part k = Some v \<longrightarrow> row_of_kv ?jn (k, v) \<noteq> Some ?old"
    using row [of "encode_value ?jn demo_sample"] by (auto simp: store_map_demo)
  ultimately have "published id ?fs ?old \<and> \<not> published id fs' ?old"
    using export_replaced [OF ref_parquet_spec ref_fjall_spec ref_fjall_reliable run] by blast
  then show ?thesis using run n by blast
qed

end
