(* ===== verification/Passes.thy ===== *)
theory Passes
  imports Durability
begin

text \<open>
  Several compaction passes at once on one store, while the writer inserts: compaction
  tasks that \<open>shutdown\<close> can no longer abort, or callers of
  \<open>run_compaction_once_blocking\<close>, run beside each other. The steps are those of
  \<open>Threads\<close>: the start of a pass, and one item of its scan or its end.
\<close>

section \<open>The system\<close>

datatype pass_event = Begin pass_env fjall_config | Advance nat | Put "byte list" "byte list"

type_synonym ('w, 'p, 'fs) passes = "'w cold_pass option list \<times> 'p \<times> 'fs"

fun passes_step ::
  "('w, 'fs) parquet_api \<Rightarrow> 'p fjall_api \<Rightarrow> json_api \<Rightarrow> pass_event \<Rightarrow> ('w, 'p, 'fs) passes
     \<Rightarrow> ('w, 'p, 'fs) passes" where
  "passes_step pq fl jn (Begin env cfg) (ps, p, fs) =
     (case pass_open pq fl env cfg p fs of (opened, fs') \<Rightarrow> (ps @ [opened], p, fs'))"
| "passes_step pq fl jn (Advance i) (ps, p, fs) =
     (if i < length ps
      then (case ps ! i of
              None \<Rightarrow> (ps, p, fs)
            | Some cp \<Rightarrow>
                (case pass_move pq fl jn cp p fs of
                   (Inl r, p', fs') \<Rightarrow> (ps[i := None], p', fs')
                 | (Inr cp', p', fs') \<Rightarrow> (ps[i := Some cp'], p', fs')))
      else (ps, p, fs))"
| "passes_step pq fl jn (Put k v) (ps, p, fs) = (ps, snd (part_insert fl p k v), fs)"

fun passes_run ::
  "('w, 'fs) parquet_api \<Rightarrow> 'p fjall_api \<Rightarrow> json_api \<Rightarrow> pass_event list \<Rightarrow> ('w, 'p, 'fs) passes
     \<Rightarrow> ('w, 'p, 'fs) passes" where
  "passes_run pq fl jn [] x = x"
| "passes_run pq fl jn (ev # evs) x = passes_run pq fl jn evs (passes_step pq fl jn ev x)"

interpretation passing: event_system "passes_step pq fl jn" "passes_run pq fl jn" for pq fl jn
  by unfold_locales simp_all

fun puts :: "pass_event list \<Rightarrow> kv list" where
  "puts [] = []"
| "puts (Put k v # evs) = (k, v) # puts evs"
| "puts (Begin env cfg # evs) = puts evs"
| "puts (Advance i # evs) = puts evs"

text \<open>
  What a schedule must avoid: a pass that fails, one that publishes over an existing
  export, and one that opens the temporary file of a running pass. \<open>parquet_spec\<close> speaks
  of one writer to a file.
\<close>

definition pass_path :: "'w cold_pass \<Rightarrow> path" where
  "pass_path cp = tmp_path (cp_cfg cp) (open_stamp (cp_env cp))"

fun collision ::
  "('fs \<Rightarrow> path \<rightharpoonup> row list) \<Rightarrow> ('w, 'fs) parquet_api \<Rightarrow> 'p fjall_api \<Rightarrow> json_api \<Rightarrow> pass_event
     \<Rightarrow> ('w, 'p, 'fs) passes \<Rightarrow> bool" where
  "collision fv pq fl jn (Begin env cfg) (ps, p, fs) =
     list_ex (\<lambda>running. map_option pass_path running = Some (tmp_path cfg (open_stamp env))) ps"
| "collision fv pq fl jn (Advance i) (ps, p, fs) =
     (i < length ps \<and>
      (case ps ! i of
         None \<Rightarrow> False
       | Some cp \<Rightarrow>
           (case fst (pass_move pq fl jn cp p fs) of
              Inl (Inl e) \<Rightarrow> True
            | Inl (Inr n) \<Rightarrow>
                cp_export cp \<noteq> None \<and> fv fs (final_path (cp_cfg cp) (publish_stamp (cp_env cp))) \<noteq> None
            | Inr cp' \<Rightarrow> False)))"
| "collision fv pq fl jn (Put k v) (ps, p, fs) = False"

fun orderly ::
  "('fs \<Rightarrow> path \<rightharpoonup> row list) \<Rightarrow> ('w, 'fs) parquet_api \<Rightarrow> 'p fjall_api \<Rightarrow> json_api \<Rightarrow> pass_event list
     \<Rightarrow> ('w, 'p, 'fs) passes \<Rightarrow> bool" where
  "orderly fv pq fl jn [] x = True"
| "orderly fv pq fl jn (ev # evs) x =
     (\<not> collision fv pq fl jn ev x \<and> orderly fv pq fl jn evs (passes_step pq fl jn ev x))"

section \<open>A pass among others\<close>

text \<open>A step of a pass only removes from the partition.\<close>

definition shrinks :: "('k \<rightharpoonup> 'v) \<Rightarrow> ('k \<rightharpoonup> 'v) \<Rightarrow> bool" where
  "shrinks m m' \<longleftrightarrow> (\<forall>k. m' k = None \<or> m' k = m k)"

lemma shrinks_refl [simp]: "shrinks m m"
  by (simp add: shrinks_def)

lemma flush_shrinks:
  assumes "fjall_spec cont fl" "fjall_reliable fl"
  shows "shrinks (cont (ps_part st)) (cont (ps_part (snd (pending_flush pq fl st))))"
  by (auto simp: shrinks_def pending_flush_def Let_def remove_keys_contents [OF assms]
      split: sum.split option.split prod.split)

lemma item_shrinks:
  assumes "fjall_spec cont fl" "fjall_reliable fl"
  shows "shrinks (cont (ps_part st)) (cont (ps_part (snd (scan_item pq fl jn env cfg item st))))"
proof -
  have "shrinks (cont (ps_part st)) (cont (ps_part (snd (pending_flush pq fl (st'\<lparr>pending := b\<rparr>)))))"
    if "ps_part st' = ps_part st" for st' b
    using flush_shrinks [OF assms, of "st'\<lparr>pending := b\<rparr>" pq] that by simp
  note this [simp]
  show ?thesis by (simp add: scan_item_def Let_def split: sum.split option.split prod.split)
qed

lemma finish_shrinks:
  assumes "fjall_spec cont fl" "fjall_reliable fl" and "finish_pass pq fl env cfg n st = (r, p', fs')"
  shows "shrinks (cont (ps_part st)) (cont p')"
proof -
  obtain f st1 where f: "pending_flush pq fl st = (f, st1)" by fastforce
  then have "cont p' = cont (ps_part st1)"
    using assms(3) persist_contents [OF assms(1)]
    by (auto simp: finish_pass_def split: sum.splits option.splits prod.splits)
  then show ?thesis using flush_shrinks [OF assms(1,2), of st pq] f by simp
qed

lemma move_shrinks:
  assumes "fjall_spec cont fl" "fjall_reliable fl" and "pass_move pq fl jn cp p fs = (r, p', fs')"
  shows "shrinks (cont p) (cont p')"
proof (cases "cp_rest cp")
  case Nil
  then show ?thesis
    using assms(3) finish_shrinks [OF assms(1,2), of pq "cp_env cp" "cp_cfg cp" "cp_moved cp" "cp_state cp p fs"]
    by (auto simp: pass_move_def cp_state_def split: prod.splits)
next
  case (Cons item rest)
  then show ?thesis
    using assms(3) item_shrinks [OF assms(1,2), of "cp_state cp p fs" pq jn "cp_env cp" "cp_cfg cp" item]
    by (auto simp: pass_move_def cp_state_def split: prod.splits sum.splits)
qed

text \<open>Its scan are pairs that were stored, and its invariant holds for some start.\<close>

definition pass_ok ::
  "('fs \<Rightarrow> path \<rightharpoonup> row list) \<Rightarrow> ('w \<Rightarrow> path \<times> row list list) \<Rightarrow> ('p \<Rightarrow> byte list \<rightharpoonup> byte list)
     \<Rightarrow> json_api \<Rightarrow> kv list \<Rightarrow> 'p \<Rightarrow> 'fs \<Rightarrow> 'w cold_pass \<Rightarrow> 'fs \<Rightarrow> 'p \<Rightarrow> kv list \<Rightarrow> kv list \<Rightarrow> kv list
     \<Rightarrow> row list list \<Rightarrow> bool" where
  "pass_ok fv wv cont jn kvs p fs cp fs0 p0 exported buf rest batches \<longleftrightarrow>
     pass_inv fv wv cont jn (pass_path cp) fs0 p0 exported buf (ROWS_PER_BATCH - 1) (cp_moved cp) batches
       (cp_state cp p fs) \<and>
     cp_rest cp = map Inr rest \<and> set (exported @ buf @ rest) \<subseteq> set kvs"

text \<open>What other passes do: remove from the partition, and anything to the files.\<close>

lemma pass_ok_frame:
  assumes ok: "pass_ok fv wv cont jn kvs p fs cp fs0 p0 exported buf rest batches"
    and "shrinks (cont p) (cont p')" and here: "\<And>k v. cont p k = Some v \<Longrightarrow> k \<in> fst ` set kvs"
    and spec: "fjall_spec cont fl" "fjall_reliable fl"
  shows "\<exists>p0'. pass_ok fv wv cont jn kvs p' fs' cp fs' p0' exported buf rest batches"
proof -
  have inv: "pass_inv fv wv cont jn (pass_path cp) fs0 p0 exported buf (ROWS_PER_BATCH - 1) (cp_moved cp) batches
       (cp_state cp p fs)" using ok by (simp add: pass_ok_def)
  let ?p0 = "remove_keys fl (filter (\<lambda>k. cont p' k = None) (map fst kvs)) p0"
  have old: "cont p k = (if k \<in> fst ` set exported then None else cont p0 k)" for k
    by (rule pass_inv_contents [OF inv])
  have "cont p' k = (if k \<in> fst ` set exported then None else cont ?p0 k)" for k
  proof (cases "cont p k")
    case None
    then have "cont p' k = None" using assms(2) unfolding shrinks_def by metis
    then show ?thesis using None old [of k] by (auto simp: remove_keys_contents [OF spec])
  next
    case (Some v)
    then have "k \<in> fst ` set kvs" "k \<notin> fst ` set exported" "cont p0 k = Some v"
      using here old [of k] by (auto split: if_splits)
    moreover have "cont p' k = None \<or> cont p' k = Some v" using assms(2) Some unfolding shrinks_def by metis
    ultimately show ?thesis by (auto simp: remove_keys_contents [OF spec])
  qed
  from pass_inv_partition [OF inv this]
  have "pass_inv fv wv cont jn (pass_path cp) fs' ?p0 exported buf (ROWS_PER_BATCH - 1) (cp_moved cp) batches
       (cp_state cp p' fs')"
    unfolding pass_inv_def cp_state_def pass_state.select_convs by (elim conjE) (intro conjI; blast)
  then show ?thesis using ok unfolding pass_ok_def by blast
qed

lemma pass_ok_insert:
  assumes ok: "pass_ok fv wv cont jn kvs p fs cp fs0 p0 exported buf rest batches"
    and "k \<notin> fst ` set kvs" and spec: "fjall_spec cont fl" "fjall_reliable fl"
  shows "pass_ok fv wv cont jn (kvs @ [(k, v)]) (snd (part_insert fl p k v)) fs cp
    fs0 (snd (part_insert fl p0 k v)) exported buf rest batches"
proof -
  have "k \<notin> fst ` set exported" using ok assms(2) by (auto simp: pass_ok_def)
  then show ?thesis using ok pass_inv_insert [OF _ _ spec] unfolding pass_ok_def by fastforce
qed

lemma written_rows:
  assumes "pass_ok fv wv cont jn kvs p fs cp fs0 p0 exported buf rest batches"
  shows "written_by_pass wv (Some cp) r \<longleftrightarrow> r \<in> set (expired_rows jn exported)"
  using assms
  by (auto simp: pass_ok_def pass_inv_def cp_state_def written_def written_by_pass_def split: option.splits)

section \<open>All of them\<close>

text \<open>Where a stored pair with its row can be.\<close>

definition placed ::
  "('fs \<Rightarrow> path \<rightharpoonup> row list) \<Rightarrow> ('w \<Rightarrow> path \<times> row list list) \<Rightarrow> ('p \<Rightarrow> byte list \<rightharpoonup> byte list)
     \<Rightarrow> ('w, 'p, 'fs) passes \<Rightarrow> kv \<Rightarrow> row \<Rightarrow> bool" where
  "placed fv wv cont x y r \<longleftrightarrow>
     (case x of (ps, p, fs) \<Rightarrow>
        cont p (fst y) = Some (snd y) \<or> published fv fs r \<or> (\<exists>running \<in> set ps. written_by_pass wv running r))"

definition passes_inv ::
  "('fs \<Rightarrow> path \<rightharpoonup> row list) \<Rightarrow> ('w \<Rightarrow> path \<times> row list list) \<Rightarrow> ('p \<Rightarrow> byte list \<rightharpoonup> byte list)
     \<Rightarrow> json_api \<Rightarrow> 'fs \<Rightarrow> kv list \<Rightarrow> ('w, 'p, 'fs) passes \<Rightarrow> bool" where
  "passes_inv fv wv cont jn start kvs x \<longleftrightarrow>
     (case x of (ps, p, fs) \<Rightarrow>
        distinct (map fst kvs) \<and> (\<forall>k v. cont p k = Some v \<longrightarrow> (k, v) \<in> set kvs) \<and>
        (\<forall>y \<in> set kvs. \<forall>r. row_of_kv jn y = Some r \<longrightarrow> placed fv wv cont x y r) \<and>
        (\<forall>r. published fv fs r \<longrightarrow> published fv start r \<or> (\<exists>y \<in> set kvs. row_of_kv jn y = Some r)) \<and>
        (\<forall>cp. Some cp \<in> set ps \<longrightarrow>
          (\<exists>fs0 p0 exported buf rest batches. pass_ok fv wv cont jn kvs p fs cp fs0 p0 exported buf rest batches)))"

lemma passes_invD:
  assumes "passes_inv fv wv cont jn start kvs (ps, p, fs)"
  shows "distinct (map fst kvs)" and "cont p k = Some v \<Longrightarrow> (k, v) \<in> set kvs"
    and "y \<in> set kvs \<Longrightarrow> row_of_kv jn y = Some r \<Longrightarrow> placed fv wv cont (ps, p, fs) y r"
    and "published fv fs r \<Longrightarrow> published fv start r \<or> (\<exists>y \<in> set kvs. row_of_kv jn y = Some r)"
    and "Some cp \<in> set ps \<Longrightarrow>
      \<exists>fs0 p0 exported buf rest batches. pass_ok fv wv cont jn kvs p fs cp fs0 p0 exported buf rest batches"
  using assms by (simp_all add: passes_inv_def)

lemma passes_frame:
  assumes inv: "passes_inv fv wv cont jn start kvs (ps, p, fs)" and "shrinks (cont p) (cont p')"
    and spec: "fjall_spec cont fl" "fjall_reliable fl" and "Some cp \<in> set ps"
  shows "\<exists>fs0 p0 exported buf rest batches. pass_ok fv wv cont jn kvs p' fs' cp fs0 p0 exported buf rest batches"
proof -
  have "\<And>k v. cont p k = Some v \<Longrightarrow> k \<in> fst ` set kvs" using passes_invD(2) [OF inv] by force
  with passes_invD(5) [OF inv assms(5)] pass_ok_frame [OF _ assms(2) _ spec] show ?thesis by metis
qed

lemma begin_inv:
  assumes spec: "parquet_spec fv wv pq" "fjall_spec cont fl" "fjall_reliable fl"
    and inv: "passes_inv fv wv cont jn start kvs (ps, p, fs)"
    and op: "pass_open pq fl env cfg p fs = (opened, fs')"
  shows "passes_inv fv wv cont jn start kvs (ps @ [opened], p, fs')"
proof -
  note fv = open_effect(1) [OF spec op] and i = passes_invD [OF inv]
  have "\<exists>fs0 p0 exported buf rest batches. pass_ok fv wv cont jn kvs p fs' cp fs0 p0 exported buf rest batches"
    if "Some cp \<in> set (ps @ [opened])" for cp
  proof (cases "Some cp \<in> set ps")
    case True
    then show ?thesis by (rule passes_frame [OF inv shrinks_refl spec(2,3)])
  next
    case False
    then have "opened = Some cp" using that by simp
    from open_effect(2) [OF spec op this] obtain rest where r:
      "pass_inv fv wv cont jn (pass_path cp) fs' p [] [] (ROWS_PER_BATCH - 1) (cp_moved cp) [] (cp_state cp p fs')"
      "cp_rest cp = map Inr rest" "\<forall>x \<in> set rest. cont p (fst x) = Some (snd x)" unfolding pass_path_def by blast
    then have "set rest \<subseteq> set kvs" using i(2) by (metis prod.collapse subsetI)
    then have "pass_ok fv wv cont jn kvs p fs' cp fs' p [] [] rest []" using r by (simp add: pass_ok_def)
    then show ?thesis by blast
  qed
  moreover have "placed fv wv cont (ps @ [opened], p, fs') y r" if "placed fv wv cont (ps, p, fs) y r" for y r
    using that by (auto simp: placed_def published_def fv)
  ultimately show ?thesis using i by (simp add: passes_inv_def published_def fv)
qed

lemma put_inv:
  assumes spec: "fjall_spec cont fl" "fjall_reliable fl"
    and inv: "passes_inv fv wv cont jn start kvs (ps, p, fs)" and new: "k \<notin> fst ` set kvs"
  shows "passes_inv fv wv cont jn start (kvs @ [(k, v)]) (ps, snd (part_insert fl p k v), fs)"
proof -
  note i = passes_invD [OF inv] and c = part_insert_reliable [OF spec]
  have "\<exists>fs0 p0 exported buf rest batches.
      pass_ok fv wv cont jn (kvs @ [(k, v)]) (snd (part_insert fl p k v)) fs cp fs0 p0 exported buf rest batches"
    if "Some cp \<in> set ps" for cp
    using i(5) [OF that] pass_ok_insert [OF _ new spec] by metis
  moreover have "placed fv wv cont (ps, snd (part_insert fl p k v), fs) y r"
    if "y \<in> set (kvs @ [(k, v)])" "row_of_kv jn y = Some r" for y r
    using that i(3) [of y r] new by (auto simp: placed_def c)
  moreover have "distinct (map fst (kvs @ [(k, v)]))" using i(1) new by auto
  moreover have "(j, w) \<in> set (kvs @ [(k, v)])" if "cont (snd (part_insert fl p k v)) j = Some w" for j w
    using that i(2) by (auto simp: c split: if_splits)
  ultimately show ?thesis using i(4) unfolding passes_inv_def by fastforce
qed

text \<open>A step of one pass: what it removes it has written or published.\<close>

lemma advance_inv:
  assumes inv: "passes_inv fv wv cont jn start kvs (ps, p, fs)" and i: "i < length ps" "ps ! i = Some cp"
    and spec: "fjall_spec cont fl" "fjall_reliable fl" and shrinks: "shrinks (cont p) (cont p')"
    and mine: "\<And>c. running = Some c \<Longrightarrow>
      \<exists>fs0 p0 exported buf rest batches. pass_ok fv wv cont jn kvs p' fs' c fs0 p0 exported buf rest batches"
    and removed: "\<And>y r. y \<in> set kvs \<Longrightarrow> row_of_kv jn y = Some r \<Longrightarrow> cont p (fst y) = Some (snd y) \<Longrightarrow>
      cont p' (fst y) = None \<Longrightarrow> published fv fs' r \<or> written_by_pass wv running r"
    and wrote: "\<And>r. written_by_pass wv (Some cp) r \<Longrightarrow> published fv fs' r \<or> written_by_pass wv running r"
    and keep: "\<And>r. published fv fs r \<Longrightarrow> published fv fs' r"
    and only: "\<And>r. published fv fs' r \<Longrightarrow> published fv fs r \<or> (\<exists>y \<in> set kvs. row_of_kv jn y = Some r)"
  shows "passes_inv fv wv cont jn start kvs (ps[i := running], p', fs')"
proof -
  note d = passes_invD [OF inv]
  have "\<exists>fs0 p0 exported buf rest batches. pass_ok fv wv cont jn kvs p' fs' c fs0 p0 exported buf rest batches"
    if "Some c \<in> set (ps[i := running])" for c
    using that set_update_subset_insert [of ps i running] mine passes_frame [OF inv shrinks spec] by blast
  moreover have "(k, v) \<in> set kvs" if "cont p' k = Some v" for k v
    using that shrinks d(2) unfolding shrinks_def by (metis option.distinct(1))
  moreover have "placed fv wv cont (ps[i := running], p', fs') y r"
    if y: "y \<in> set kvs" "row_of_kv jn y = Some r" for y r
  proof -
    have me: "running \<in> set (ps[i := running])" using i(1) by (rule set_update_memI)
    have other: "o' \<in> set (ps[i := running])" if "o' \<in> set ps" "o' \<noteq> Some cp" for o'
      using that i by (metis in_set_conv_nth length_list_update nth_list_update_neq)
    from d(3) [OF y] consider "cont p (fst y) = Some (snd y)" | "published fv fs r"
      | o' where "o' \<in> set ps" "written_by_pass wv o' r" unfolding placed_def by auto
    then show ?thesis
    proof cases
      case 1
      then have "cont p' (fst y) = None \<or> cont p' (fst y) = Some (snd y)"
        using shrinks unfolding shrinks_def by metis
      then show ?thesis using removed [OF y 1] me unfolding placed_def by auto
    next
      case 2
      then show ?thesis using keep by (simp add: placed_def)
    next
      case 3
      then show ?thesis using wrote me other unfolding placed_def by (cases "o' = Some cp") auto
    qed
  qed
  moreover have "published fv start r \<or> (\<exists>y \<in> set kvs. row_of_kv jn y = Some r)" if "published fv fs' r" for r
    using only [OF that] d(4) by blast
  ultimately show ?thesis using d(1) unfolding passes_inv_def by simp
qed

lemma pass_inv_files:
  "pass_inv fv wv cont jn tmp fs0 p0 exported buf m moved batches (cp_state cp p fs) \<Longrightarrow> q \<noteq> tmp \<Longrightarrow>
     fv fs q = fv fs0 q"
  unfolding pass_inv_def cp_state_def by simp

text \<open>A pair of the partition that is in a scan of stored pairs.\<close>

lemma scanned:
  assumes "distinct (map fst kvs)" "set scan \<subseteq> set kvs" "y \<in> set kvs" "fst y \<in> fst ` set scan"
  shows "y \<in> set scan"
proof -
  obtain v where v: "(fst y, v) \<in> set scan" using assms(4) by force
  then have "v = snd y" using assms(1-3) by (metis eq_key_imp_eq_value prod.collapse subsetD)
  then show ?thesis using v by simp
qed

lemma item_inv:
  assumes spec: "parquet_spec fv wv pq" "fjall_spec cont fl" "fjall_reliable fl"
    and inv: "passes_inv fv wv cont jn start kvs (ps, p, fs)" and i: "i < length ps" "ps ! i = Some cp"
    and mv: "pass_move pq fl jn cp p fs = (Inr cp', p', fs')"
  shows "passes_inv fv wv cont jn start kvs (ps[i := Some cp'], p', fs')"
proof -
  obtain fs0 p0 exported buf rest batches where
    ok: "pass_ok fv wv cont jn kvs p fs cp fs0 p0 exported buf rest batches"
    using passes_invD(5) [OF inv, of cp] i by (metis nth_mem)
  then have pi: "pass_inv fv wv cont jn (pass_path cp) fs0 p0 exported buf (ROWS_PER_BATCH - 1) (cp_moved cp)
      batches (cp_state cp p fs)" "cp_rest cp = map Inr rest" by (simp_all add: pass_ok_def)
  from item_effect [OF spec pi [unfolded pass_path_def] mv] obtain flushed buf' rest' batches' where
    e: "flushed @ buf' @ rest' = buf @ rest" "cp_rest cp' = map Inr rest'" and path: "pass_path cp' = pass_path cp"
    and pi': "pass_inv fv wv cont jn (pass_path cp') fs0 p0 (exported @ flushed) buf' (ROWS_PER_BATCH - 1)
      (cp_moved cp') batches' (cp_state cp' p' fs')" unfolding pass_path_def by metis
  have ok': "pass_ok fv wv cont jn kvs p' fs' cp' fs0 p0 (exported @ flushed) buf' rest' batches'"
    using ok pi' e unfolding pass_ok_def append_assoc by simp
  have files: "fv fs' q = fv fs q" if "q \<noteq> pass_path cp" for q
  proof -
    have "fv fs q = fv fs0 q" by (rule pass_inv_files [OF pi(1) that])
    moreover have "fv fs' q = fv fs0 q" by (rule pass_inv_files [OF pi' that [folded path]])
    ultimately show ?thesis by simp
  qed
  have same: "published fv fs' r = published fv fs r" for r
    using published_frame [of "cp_cfg cp" "open_stamp (cp_env cp)" fv fs' fs r]
      published_frame [of "cp_cfg cp" "open_stamp (cp_env cp)" fv fs fs' r] files
    unfolding pass_path_def by metis
  note w = written_rows [OF ok'] and w0 = written_rows [OF ok]
  show ?thesis
  proof (rule advance_inv [OF inv i spec(2,3) move_shrinks [OF spec(2,3) mv]])
    fix y r
    assume y: "y \<in> set kvs" "row_of_kv jn y = Some r" "cont p (fst y) = Some (snd y)" "cont p' (fst y) = None"
    then have "fst y \<in> fst ` set (exported @ flushed)"
      using pass_inv_contents [OF pi(1), of "fst y"] pass_inv_contents [OF pi', of "fst y"] by (auto split: if_splits)
    moreover have "set (exported @ flushed) \<subseteq> set kvs" using ok' by (simp add: pass_ok_def)
    ultimately have "y \<in> set (exported @ flushed)" using scanned [OF passes_invD(1) [OF inv]] y(1) by blast
    then show "published fv fs' r \<or> written_by_pass wv (Some cp') r" using y(2) w by (auto simp: expired_rows_set)
  next
    fix c
    assume "Some cp' = Some c"
    then show "\<exists>fs0 p0 exported buf rest batches. pass_ok fv wv cont jn kvs p' fs' c fs0 p0 exported buf rest batches"
      using ok' by blast
  qed (use w w0 same in \<open>auto simp: expired_rows_append\<close>)
qed

lemma end_inv:
  assumes spec: "parquet_spec fv wv pq" "fjall_spec cont fl" "fjall_reliable fl"
    and inv: "passes_inv fv wv cont jn start kvs (ps, p, fs)" and i: "i < length ps" "ps ! i = Some cp"
    and mv: "pass_move pq fl jn cp p fs = (Inl (Inr n), p', fs')"
    and fresh: "cp_export cp \<noteq> None \<Longrightarrow> fv fs (final_path (cp_cfg cp) (publish_stamp (cp_env cp))) = None"
  shows "passes_inv fv wv cont jn start kvs (ps[i := None], p', fs')"
proof -
  let ?final = "final_path (cp_cfg cp) (publish_stamp (cp_env cp))"
  obtain fs0 p0 exported buf rest batches where
    ok: "pass_ok fv wv cont jn kvs p fs cp fs0 p0 exported buf rest batches"
    using passes_invD(5) [OF inv, of cp] i by (metis nth_mem)
  let ?scan = "exported @ buf"
  have pi: "pass_inv fv wv cont jn (pass_path cp) fs0 p0 exported buf (ROWS_PER_BATCH - 1) (cp_moved cp)
      batches (cp_state cp p fs)" and sub: "set ?scan \<subseteq> set kvs" using ok by (simp_all add: pass_ok_def)
  from finish_effect [OF spec pi [unfolded pass_path_def] mv fresh] obtain batches' st where
    ready: "ready fv wv cont jn (pass_path cp) fs0 p0 ?scan batches' st" and p': "cont p' = cont (ps_part st)"
    and none: "expired_rows jn ?scan = [] \<longrightarrow> fv fs' = fv fs0"
    and out: "expired_rows jn ?scan \<noteq> [] \<longrightarrow> fv fs' ?final = Some (expired_rows jn ?scan) \<and> fv fs0 ?final = None \<and>
      (\<forall>q. q \<noteq> pass_path cp \<and> q \<noteq> ?final \<longrightarrow> fv fs' q = fv fs0 q)" unfolding pass_path_def by blast
  have files: "fv fs q = fv fs0 q" if "q \<noteq> pass_path cp" for q
    by (rule pass_inv_files [OF pi that])
  have final: "final_path cfg s \<noteq> pass_path cp" for cfg s
    using tmp_not_final [THEN not_sym] by (simp add: pass_path_def)
  have exported: "published fv fs' r" if "r \<in> set (expired_rows jn ?scan)" for r
    using that out unfolding published_def by force
  have rows: "r \<in> set (expired_rows jn ?scan) \<Longrightarrow> \<exists>y \<in> set kvs. row_of_kv jn y = Some r" for r
    using sub by (auto simp: expired_rows_set)
  show ?thesis
  proof (rule advance_inv [OF inv i spec(2,3) move_shrinks [OF spec(2,3) mv]])
    fix y r
    assume y: "y \<in> set kvs" "row_of_kv jn y = Some r" "cont p (fst y) = Some (snd y)" "cont p' (fst y) = None"
    have "fst y \<in> fst ` set ?scan"
      using pass_inv_contents [OF pi, of "fst y"] y(3,4) ready unfolding ready_def p' by (force split: if_splits)
    then have "y \<in> set ?scan" using scanned [OF passes_invD(1) [OF inv] sub y(1)] by blast
    then have "r \<in> set (expired_rows jn ?scan)" using y(2) unfolding expired_rows_set by blast
    then show "published fv fs' r \<or> written_by_pass wv None r" using exported by blast
  next
    fix r
    assume "written_by_pass wv (Some cp) r"
    then have "r \<in> set (expired_rows jn ?scan)" using written_rows [OF ok] by (simp add: expired_rows_append)
    then show "published fv fs' r \<or> written_by_pass wv None r" using exported by blast
  next
    fix r
    assume "published fv fs r"
    then obtain cfg s rs where f: "fv fs0 (final_path cfg s) = Some rs" "r \<in> set rs"
      unfolding published_def using files final by metis
    then have "fv fs' (final_path cfg s) = Some rs" using none out final by (cases "final_path cfg s = ?final") fastforce+
    then show "published fv fs' r" using f(2) unfolding published_def by blast
  next
    fix r
    assume "published fv fs' r"
    then obtain cfg s rs where f: "fv fs' (final_path cfg s) = Some rs" "r \<in> set rs" unfolding published_def by blast
    show "published fv fs r \<or> (\<exists>y \<in> set kvs. row_of_kv jn y = Some r)"
    proof (cases "expired_rows jn ?scan \<noteq> [] \<and> final_path cfg s = ?final")
      case True
      then show ?thesis using f out rows by force
    next
      case False
      then have "fv fs (final_path cfg s) = Some rs" using f(1) none out final files by metis
      then show ?thesis using f(2) unfolding published_def by blast
    qed
  qed simp
qed

lemma passes_step_inv:
  assumes spec: "parquet_spec fv wv pq" "fjall_spec cont fl" "fjall_reliable fl"
    and inv: "passes_inv fv wv cont jn start kvs x" and ok: "\<not> collision fv pq fl jn ev x"
    and new: "distinct (map fst (kvs @ puts [ev]))"
  shows "passes_inv fv wv cont jn start (kvs @ puts [ev]) (passes_step pq fl jn ev x)"
proof -
  obtain ps p fs where x: "x = (ps, p, fs)" by (metis prod_cases3)
  note inv = inv [unfolded x]
  show ?thesis
  proof (cases ev)
    case (Begin env cfg)
    then show ?thesis unfolding x using begin_inv [OF spec inv] by (simp split: prod.split)
  next
    case (Put k v)
    then show ?thesis unfolding x using put_inv [OF spec(2,3) inv] new by simp
  next
    case (Advance i)
    show ?thesis
    proof (cases "i < length ps \<and> ps ! i \<noteq> None")
      case False
      then show ?thesis unfolding x Advance using inv by auto
    next
      case True
      then obtain cp where i: "i < length ps" "ps ! i = Some cp" by auto
      obtain r p' fs' where mv: "pass_move pq fl jn cp p fs = (r, p', fs')" by (metis prod_cases3)
      show ?thesis
      proof (cases r)
        case (Inr cp')
        then show ?thesis unfolding x Advance using item_inv [OF spec inv i] mv i by simp
      next
        case (Inl res)
        with ok mv i obtain n where n: "res = Inr n"
          "cp_export cp \<noteq> None \<Longrightarrow> fv fs (final_path (cp_cfg cp) (publish_stamp (cp_env cp))) = None"
          unfolding x Advance by (cases res) auto
        from end_inv [OF spec inv i mv [unfolded Inl n(1)] n(2)] show ?thesis
          unfolding x Advance using mv i Inl by simp
      qed
    qed
  qed
qed

lemma passes_run_inv:
  assumes spec: "parquet_spec fv wv pq" "fjall_spec cont fl" "fjall_reliable fl"
  shows "passes_inv fv wv cont jn start kvs x \<Longrightarrow> orderly fv pq fl jn evs x \<Longrightarrow> distinct (map fst (kvs @ puts evs)) \<Longrightarrow>
    passes_inv fv wv cont jn start (kvs @ puts evs) (passes_run pq fl jn evs x)"
proof (induction evs arbitrary: kvs x)
  case (Cons ev evs)
  have split: "puts (ev # evs) = puts [ev] @ puts evs" by (cases ev) simp_all
  have "distinct (map fst (kvs @ puts [ev]))" using Cons.prems(3) unfolding split by auto
  from passes_step_inv [OF spec Cons.prems(1) _ this]
  have "passes_inv fv wv cont jn start (kvs @ puts [ev]) (passes_step pq fl jn ev x)" using Cons.prems(2) by simp
  from Cons.IH [OF this] Cons.prems(2,3) show ?case unfolding split by simp
qed simp

section \<open>Two passes over one sample\<close>

definition second_env :: pass_env where
  "second_env = demo_env\<lparr>open_stamp := lit ''20240101T000002'', publish_stamp := lit ''20240101T000003''\<rparr>"

definition demo_pair :: kv where
  "demo_pair = (demo_key, encode_value (json_table demo_table) demo_sample)"

definition demo_row :: row where
  "demo_row = row_of_entry (json_table demo_table) demo_sample"

definition demo_scan :: "pass_env \<Rightarrow> (path \<times> row list list) cold_pass" where
  "demo_scan env = \<lparr>cp_cfg = demo_cfg, cp_env = env, cp_rest = [Inr demo_pair], cp_moved = 0,
     cp_pending = pending_new, cp_export = None\<rparr>"

definition demo_buffered :: "pass_env \<Rightarrow> (path \<times> row list list) cold_pass" where
  "demo_buffered env = \<lparr>cp_cfg = demo_cfg, cp_env = env, cp_rest = [], cp_moved = 0,
     cp_pending = pending_push 7 (r_name demo_row) (r_value demo_row) (r_kind demo_row) (r_labels demo_row) demo_key pending_new,
     cp_export = Some (tmp_path demo_cfg (open_stamp env), tmp_path demo_cfg (open_stamp env), [])\<rparr>"

lemma demo_pair_row: "row_of_kv (json_table demo_table) demo_pair = Some demo_row"
proof -
  have "exportable (json_table demo_table) demo_sample"
    using json_exact_demo by (simp add: exportable_def demo_sample_def lit_def is_scalar_def)
  from row_of_stored [OF json_floats_table this, of 0] show ?thesis
    by (simp add: demo_pair_def demo_row_def demo_key_def demo_sample_def entry_micros_def)
qed

lemma demo_pair_decodes:
  "decode_value (json_table demo_table) (snd demo_pair) = (r_value demo_row, r_kind demo_row, r_labels demo_row)"
  "r_name demo_row = lit ''up''" "r_ts demo_row = 7"
proof -
  obtain v k l where d: "decode_value (json_table demo_table) (snd demo_pair) = (v, k, l)" by (metis prod_cases3)
  have row: "demo_row = \<lparr>r_ts = 7, r_name = lit ''up'', r_value = v, r_kind = k, r_labels = l\<rparr>"
    using demo_pair_row d by (simp add: row_of_kv_def demo_pair_def demo_key_decodes i64_or_max_def)
  then show "decode_value (json_table demo_table) (snd demo_pair) = (r_value demo_row, r_kind demo_row, r_labels demo_row)"
    "r_name demo_row = lit ''up''" "r_ts demo_row = 7"
    unfolding row d by simp_all
qed

lemma demo_open:
  assumes "cutoff_micros env demo_cfg = Ret (Inr 10)"
  shows "pass_open (ref_parquet True) ref_fjall env demo_cfg demo_part fs = (Some (demo_scan env), fs)"
proof -
  have "part_range_to ref_fjall demo_part (utf8 (cutoff_prefix 10)) = [Inr demo_pair]"
    using reliable_items [OF ref_fjall_reliable, of demo_part "utf8 (cutoff_prefix 10)"]
      expired_demo [OF scan_expired [OF ref_fjall_spec ref_fjall_reliable]]
    by (simp add: demo_pair_def)
  then show ?thesis by (simp add: pass_open_def assms ref_parquet_def demo_scan_def)
qed

lemma demo_item:
  "pass_move (ref_parquet True) ref_fjall (json_table demo_table) (demo_scan env) p fs
     = (Inr (demo_buffered env), p, fs(tmp_path demo_cfg (open_stamp env) := None))"
  using demo_pair_decodes
  by (simp add: pass_move_def demo_scan_def cp_state_def scan_item_def demo_pair_def demo_key_decodes
      open_export_writer_def ref_parquet_def demo_buffered_def ROWS_PER_BATCH_def Let_def)

lemma demo_end:
  "pass_move (ref_parquet True) ref_fjall (json_table demo_table) (demo_buffered env) p fs
     = (Inl (Inr 1), store_delete demo_key p,
        fs(tmp_path demo_cfg (open_stamp env) := None, final_path demo_cfg (publish_stamp env) \<mapsto> [demo_row]))"
proof -
  let ?b = "cp_pending (demo_buffered env)" and ?tmp = "tmp_path demo_cfg (open_stamp env)"
  have b: "aligned ?b" "pending_len ?b = 1" "pb_removals ?b = [demo_key]"
    by (simp_all add: demo_buffered_def) (simp add: pending_new_def)
  have rows: "pending_rows ?b = [demo_row]"
    using demo_pair_decodes by (simp add: demo_buffered_def pending_rows_push i64_or_max_def)
  have batch: "batch_new (ref_parquet True) arrow_schema (pb_ts ?b) (pb_names ?b) (pb_values ?b) (pb_kinds ?b) (pb_labels ?b)
      = Inr [demo_row]"
    using parquet_specD(1) [OF ref_parquet_spec b(1)] rows by simp
  have "pending_flush (ref_parquet True) ref_fjall (cp_state (demo_buffered env) p fs) =
      (Inr 1, \<lparr>pending = \<lparr>pb_ts = [], pb_names = [], pb_values = [], pb_kinds = [], pb_labels = [], pb_removals = []\<rparr>,
        export = Some (?tmp, ?tmp, [[demo_row]]), ps_part = store_delete demo_key p, ps_fs = fs\<rparr>)"
    using b batch
    by (simp add: pending_flush_def Let_def cp_state_def)
       (simp add: demo_buffered_def ref_parquet_def ref_fjall_def)
  then show ?thesis
    using tmp_not_final [of demo_cfg "open_stamp env" demo_cfg "publish_stamp env"]
    by (simp add: pass_move_def demo_buffered_def finish_pass_def finalize_export_def)
       (simp add: ref_parquet_def ref_fjall_def fun_upd_twist)
qed

definition overlap :: "pass_event list" where
  "overlap = [Begin demo_env demo_cfg, Begin second_env demo_cfg, Advance 0, Advance 1, Advance 0, Advance 1]"

lemma second_cutoff: "cutoff_micros second_env demo_cfg = Ret (Inr 10)"
  using demo_cutoff by (simp add: cutoff_micros_def second_env_def demo_env_def)

lemma other_paths:
  "tmp_path demo_cfg (open_stamp demo_env) \<noteq> tmp_path demo_cfg (open_stamp second_env)"
  "final_path demo_cfg (publish_stamp demo_env) \<noteq> final_path demo_cfg (publish_stamp second_env)"
  by (simp_all add: tmp_path_def final_path_def path_join_def second_env_def demo_env_def lit_def)

lemmas overlap_steps = demo_open [OF demo_cutoff] demo_open [OF second_cutoff] demo_item demo_end

lemma overlap_runs:
  "\<exists>fs. passes_run (ref_parquet True) ref_fjall (json_table demo_table) overlap ([], demo_part, Map.empty) =
      ([None, None], store_delete demo_key (store_delete demo_key demo_part), fs) \<and>
    fs (final_path demo_cfg (publish_stamp demo_env)) = Some [demo_row] \<and>
    fs (final_path demo_cfg (publish_stamp second_env)) = Some [demo_row]"
  using other_paths tmp_not_final [THEN not_sym]
  by (simp add: overlap_def overlap_steps)

lemma overlap_orderly:
  "orderly id (ref_parquet True) ref_fjall (json_table demo_table) overlap ([], demo_part, Map.empty)"
  using other_paths tmp_not_final [THEN not_sym]
  by (simp add: overlap_def overlap_steps pass_path_def) (simp add: demo_scan_def demo_buffered_def)

section \<open>Properties\<close>

text \<open>
  C9: passes that overlap lose nothing. Let several passes over one store run in any
  interleaving with each other and with the writer's inserts, on a store that reports no
  error, such that no pass fails, none publishes over an existing export and no two have
  the same temporary file. Then every pair that was in the store or inserted is still
  there, or its row is in a published export, or a running pass has written its row; and
  nothing else is stored or published. It is not exactly once: in the instance below both
  passes scan the same sample before either removes it, and both publish it.
\<close>

theorem overlapping_passes_keep:
  assumes "parquet_spec fv wv pq" and "fjall_spec cont fl" and "fjall_reliable fl"
    and "cont p = map_of kvs" and "distinct (map fst (kvs @ puts evs))"
    and "orderly fv pq fl jn evs ([], p, fs)" and "passes_run pq fl jn evs ([], p, fs) = (ps, p', fs')"
  shows "(\<forall>y \<in> set (kvs @ puts evs). \<forall>r. row_of_kv jn y = Some r \<longrightarrow>
      cont p' (fst y) = Some (snd y) \<or> published fv fs' r \<or> (\<exists>running \<in> set ps. written_by_pass wv running r)) \<and>
    (\<forall>k v. cont p' k = Some v \<longrightarrow> (k, v) \<in> set (kvs @ puts evs)) \<and>
    (\<forall>r. published fv fs' r \<longrightarrow> published fv fs r \<or> (\<exists>y \<in> set (kvs @ puts evs). row_of_kv jn y = Some r))"
proof -
  have d: "distinct (map fst kvs)" using assms(5) by simp
  have there: "cont p (fst y) = Some (snd y)" if "y \<in> set kvs" for y
    using that d unfolding assms(4) by (metis map_of_is_SomeI prod.collapse)
  have only: "(k, v) \<in> set kvs" if "cont p k = Some v" for k v
    using that unfolding assms(4) by (rule map_of_SomeD)
  have "passes_inv fv wv cont jn fs kvs ([], p, fs)"
    unfolding passes_inv_def placed_def prod.case using d there only by simp
  from passes_run_inv [OF assms(1-3) this assms(6,5)] show ?thesis
    unfolding assms(7) passes_inv_def placed_def prod.case by (elim conjE) (intro conjI)
qed

theorem overlapping_passes_keep_witness:
  "\<exists>p fs. passes_run (ref_parquet True) ref_fjall (json_table demo_table) overlap ([], demo_part, Map.empty)
      = ([None, None], p, fs) \<and>
    store_map p = Map.empty \<and> published id fs demo_row \<and>
    fs (final_path demo_cfg (publish_stamp demo_env)) = Some [demo_row] \<and>
    fs (final_path demo_cfg (publish_stamp second_env)) = Some [demo_row]"
proof -
  let ?p = "store_delete demo_key (store_delete demo_key demo_part)"
  obtain fs where run: "passes_run (ref_parquet True) ref_fjall (json_table demo_table) overlap
      ([], demo_part, Map.empty) = ([None, None], ?p, fs)"
    and files: "fs (final_path demo_cfg (publish_stamp demo_env)) = Some [demo_row]"
      "fs (final_path demo_cfg (publish_stamp second_env)) = Some [demo_row]" using overlap_runs by blast
  have contents: "store_map demo_part = map_of [demo_pair]" by (simp add: store_map_demo demo_pair_def)
  have gone: "store_map ?p = Map.empty"
    using part_remove_reliable [OF ref_fjall_spec ref_fjall_reliable, of _ demo_key]
    by (simp add: ref_fjall_def store_map_demo)
  have "distinct (map fst ([demo_pair] @ puts overlap))" by (simp add: overlap_def)
  from overlapping_passes_keep [OF ref_parquet_spec ref_fjall_spec ref_fjall_reliable contents this overlap_orderly run]
  have "published id fs demo_row" using demo_pair_row gone by (simp add: written_by_pass_def)
  then show ?thesis using run gone files by blast
qed

end
