(* ===== verification/Progress.thy ===== *)
theory Progress
  imports Accounting
begin

text \<open>
  How long the end takes: once the sentinel is in the queue, the writer has a bounded number
  of operations left whatever the other threads do, and then \<open>shutdown\<close> a bounded number
  of steps. The measure is \<open>work\<close>.
\<close>

section \<open>The writer's remaining work\<close>

text \<open>The messages in front of the sentinel.\<close>

fun ahead :: "pipeline_msg list \<Rightarrow> nat" where
  "ahead [] = 0"
| "ahead (Metric e # ms) = Suc (ahead ms)"
| "ahead (Shutdown # ms) = 0"

lemma ahead_le: "ahead ms \<le> length ms"
  by (induction ms rule: ahead.induct) auto

lemma ahead_append: "Shutdown \<in> set ms \<Longrightarrow> ahead (ms @ ms') = ahead ms"
  by (induction ms rule: ahead.induct) auto

text \<open>
  A queued sample costs an operation to take, one to insert, and at most two for the turn it
  may make necessary.
\<close>

fun work :: "writer_pc \<Rightarrow> nat \<Rightarrow> nat" where
  "work Waiting n = 4 * n + 3"
| "work (Draining b) n = length b + 4 * n + 5"
| "work (Inserting es stop) n = length es + (if stop then 3 else 4 * n + 4)"
| "work Leaving n = 2"
| "work Closing n = 1"
| "work Gone n = 0"

lemma work_le: "work pc n \<le> length (in_batch pc) + 4 * n + 5"
  by (cases pc) auto

lemma work_mono: "m \<le> n \<Longrightarrow> work pc m \<le> work pc n"
  by (cases pc) auto

definition delivered :: "writer_pc \<Rightarrow> pipeline_msg list \<Rightarrow> bool" where
  "delivered pc q \<longleftrightarrow> stopping pc \<or> Shutdown \<in> set q"

lemma delivered_append: "delivered pc q \<Longrightarrow> delivered pc (q @ ms) \<and> work pc (ahead (q @ ms)) = work pc (ahead q)"
  by (cases pc) (auto simp: delivered_def ahead_append)

lemma write_op_work:
  assumes spec: "chan_spec cv (chan d)" and dl: "delivered pc q" "pc \<noteq> Gone"
    and cvw: "cv (w_rx w) = \<lparr>queue = q, capacity = cap, rx_open = True, tx_open = True\<rparr>"
    and op: "write_op jn fl (chan d) rows pc w = (pc', w')"
  shows "delivered pc' (queue (cv (w_rx w'))) \<and> work pc' (ahead (queue (cv (w_rx w')))) < work pc (ahead q)"
proof (cases pc)
  case Waiting
  obtain b c where b: "blocking_recv (chan d) (w_rx w) = (b, c)" by fastforce
  note v = chan_specD(4) [OF spec b, unfolded cvw]
  have "q \<noteq> []" using dl(1) Waiting by (auto simp: delivered_def)
  then obtain m q' where q: "q = m # q'" by (cases q) auto
  then have "b = Received m" "cv c = \<lparr>queue = q', capacity = cap, rx_open = True, tx_open = True\<rparr>" using v by (auto simp: blocking_recv_view_def)
  then show ?thesis using op b Waiting dl q by (cases m) (auto simp: delivered_def)
next
  case (Draining batch)
  obtain r c where r: "try_recv (chan d) (w_rx w) = (r, c)" by fastforce
  note v = chan_specD(3) [OF spec r, unfolded cvw]
  have "q \<noteq> []" using dl(1) Draining by (auto simp: delivered_def)
  then obtain m q' where q: "q = m # q'" by (cases q) auto
  then have "r = Some m" "cv c = \<lparr>queue = q', capacity = cap, rx_open = True, tx_open = True\<rparr>" using v by (auto simp: try_recv_view_def)
  then show ?thesis using op r Draining dl q cvw by (cases m) (auto simp: delivered_def split: if_splits)
next
  case (Inserting es stop)
  then show ?thesis using op dl cvw by (cases es) (auto simp: delivered_def split: if_splits)
qed (use op dl in \<open>auto simp: delivered_def\<close>)

section \<open>What the other threads do to the queue\<close>

definition queue_of :: "('c \<Rightarrow> chan_view) \<Rightarrow> ('pw, 'h, 'c, 'p) process \<Rightarrow> pipeline_msg list" where
  "queue_of cv s = (case Option.bind (global s) tx of None \<Rightarrow> [] | Some c \<Rightarrow> queue (cv c))"

lemma send_queue:
  assumes "chan_spec cv (chan d)" "try_send (chan d) c m = (r, c')"
  shows "\<exists>ms. queue (cv c') = queue (cv c) @ ms"
proof -
  have "cv c' = snd (send_view m (cv c))" using chan_specD(2) [OF assms] by simp
  then show ?thesis by (simp add: send_view_def)
qed

lemma call_queue:
  assumes "chan_spec cv (chan d)" "caller_step d c s = (c', s')"
  shows "\<exists>ms. queue_of cv s' = queue_of cv s @ ms"
proof -
  have "\<exists>ms. queue_of cv s1 = queue_of cv s @ ms" if "call_step d pc s = (r, s1)" for pc r s1
  proof (cases "\<exists>e. pc = Sending e")
    case True
    then show ?thesis using that send_queue [OF assms(1)]
      by (auto simp: send_step_def set_tx_def queue_of_def split: option.splits prod.splits sum.splits bind_splits)
  next
    case False
    then have "queue_of cv s1 = queue_of cv s" using that
      by (cases pc) (auto simp: call_step_defs Let_def queue_of_def
          split: option.splits prod.splits res.splits if_splits bind_splits)
    then show ?thesis by simp
  qed
  then show ?thesis using assms(2)
    by (fastforce simp: caller_step_def split: option.splits list.splits prod.splits sum.splits)
qed

lemma stop_queue:
  assumes "chan_spec cv (chan d)" "stop_step d pc s = (pc', s')"
  shows "\<exists>ms. queue_of cv s' = queue_of cv s @ ms"
proof (cases "\<exists>n. pc = Delivering (Suc n)")
  case True
  then show ?thesis using assms(2) send_queue [OF assms(1)]
    by (auto simp: set_tx_def queue_of_def split: option.splits prod.splits sum.splits send_error.splits bind_splits)
next
  case False
  then have "queue_of cv s' = queue_of cv s" using assms(2)
    by (cases "(d, pc, s)" rule: stop_step.cases)
       (auto simp: queue_of_def abort_compaction_def final_persist_def split: option.splits if_splits bind_splits prod.splits)
  then show ?thesis by simp
qed

section \<open>Progress under every schedule\<close>

definition work_left :: "('c \<Rightarrow> chan_view) \<Rightarrow> ('pw, 'h, 'c, 'p, 'w, 'fs) sys \<Rightarrow> nat" where
  "work_left cv x = work (wpc x) (ahead (queue_of cv (proc x)))"

definition sentinel_sent :: "('c \<Rightarrow> chan_view) \<Rightarrow> ('pw, 'h, 'c, 'p, 'w, 'fs) sys \<Rightarrow> bool" where
  "sentinel_sent cv x \<longleftrightarrow> delivered (wpc x) (queue_of cv (proc x))"

lemma longer_queue:
  assumes "sentinel_sent cv x" "wpc x' = wpc x" "\<exists>ms. queue_of cv (proc x') = queue_of cv (proc x) @ ms"
  shows "sentinel_sent cv x' \<and> work_left cv x' = work_left cv x"
  using assms delivered_append unfolding sentinel_sent_def work_left_def by metis

text \<open>The writer works, and nobody gives it more to do.\<close>

lemma step_progress:
  assumes spec: "chan_spec cv (chan d)" and inv: "sys_inv pv cv cap pre post stored lost q x"
    and sent: "sentinel_sent cv x"
  shows "sentinel_sent cv (sys_step d pq ev x) \<and>
    work_left cv (sys_step d pq ev x) \<le> work_left cv x - (if ev = Write then 1 else 0)"
proof (cases ev)
  case (Call i)
  obtain c s where st: "caller_step d (callers x ! i) (proc x) = (c, s)" by fastforce
  have "sentinel_sent cv (sys_step d pq ev x) \<and> work_left cv (sys_step d pq ev x) = work_left cv x"
    by (rule longer_queue [OF sent]) (use call_queue [OF spec st] in \<open>simp_all add: Call st\<close>)
  then show ?thesis by (simp add: Call)
next
  case Stop
  obtain pc s where st: "stop_step d (spc x) (proc x) = (pc, s)" by fastforce
  have "sentinel_sent cv (sys_step d pq ev x) \<and> work_left cv (sys_step d pq ev x) = work_left cv x"
    by (rule longer_queue [OF sent]) (use stop_queue [OF spec st] in \<open>simp_all add: Stop st\<close>)
  then show ?thesis by (simp add: Stop)
next
  case (Compact i env)
  have "sentinel_sent cv (sys_step d pq ev x) \<and> work_left cv (sys_step d pq ev x) = work_left cv x"
    by (rule longer_queue [OF sent]) (simp_all add: Compact split: option.split prod.split)
  then show ?thesis by (simp add: Compact)
next
  case Move
  have same: "queue_of cv (set_partition p s) = queue_of cv s" for p s
    by (cases "global s") (simp_all add: queue_of_def set_partition_def on_handle_def)
  have "sentinel_sent cv (sys_step d pq ev x) \<and> work_left cv (sys_step d pq ev x) = work_left cv x"
    by (rule longer_queue [OF sent]) (simp_all add: Move same split: option.split prod.split sum.split)
  then show ?thesis by (simp add: Move)
next
  case Write
  obtain h t c p where h: "global (proc x) = Some h" "tx h = Some c" "eh_fjall h = Some p" "writer_thr (proc x) = Some t"
    "wt_exited t = (wpc x = Gone)" "cv c = \<lparr>queue = q, capacity = cap, rx_open = wpc x \<noteq> Gone, tx_open = True\<rparr>"
    using inv unfolding sys_inv_def wired_def by blast
  have q: "queue_of cv (proc x) = q" using h by (simp add: queue_of_def)
  show ?thesis
  proof (cases "wpc x = Gone")
    case True
    then have "sys_step d pq Write x = x" using h by (simp add: writer_event_def writer_of_def)
    then show ?thesis using Write sent True by (simp add: work_left_def)
  next
    case False
    let ?w = "\<lparr>w_rx = c, w_part = p, w_seq = wt_seq t\<rparr>"
    obtain pc' w' where op: "write_op (js d) (fj d) (chan d) (wt_rows t) (wpc x) ?w = (pc', w')" by fastforce
    have x': "sys_step d pq Write x = x\<lparr>wpc := pc', proc := put_writer (if pc' = Gone then Exited else Looping) w' (proc x)\<rparr>"
      using op h False by (simp add: writer_event_def writer_of_def)
    have "delivered (wpc x) q" using sent q by (simp add: sentinel_sent_def)
    from write_op_work [OF spec this False _ op] h(6) False
    have "delivered pc' (queue (cv (w_rx w')))" "work pc' (ahead (queue (cv (w_rx w')))) < work (wpc x) (ahead q)"
      by simp_all
    moreover have "queue_of cv (put_writer b w' (proc x)) = queue (cv (w_rx w'))" for b
      using h by (simp add: queue_of_def put_writer_def)
    ultimately show ?thesis using Write q unfolding Write x' by (simp add: sentinel_sent_def work_left_def)
  qed
qed

text \<open>The steps \<open>shutdown\<close> still has once the delivery is over.\<close>

fun stop_left :: "stop_pc \<Rightarrow> nat" where
  "stop_left Idle = 6"
| "stop_left (Delivering n) = 5"
| "stop_left Taking = 4"
| "stop_left Joining = 3"
| "stop_left Aborting = 2"
| "stop_left Syncing = 1"
| "stop_left Finished = 0"

lemma stop_progress:
  assumes inv: "sys_inv pv cv cap pre post stored lost q x" and over: "stop_left (spc x) \<le> 4"
  shows "stop_left (spc (sys_step d pq ev x)) \<le> stop_left (spc x)"
    and "wpc x = Gone \<Longrightarrow> wpc (sys_step d pq ev x) = Gone"
    and "wpc x = Gone \<Longrightarrow> stop_left (spc (sys_step d pq Stop x)) \<le> stop_left (spc x) - 1"
proof -
  obtain t where t: "writer_thr (proc x) = Some t" "wt_exited t = (wpc x = Gone)"
    using inv unfolding sys_inv_def wired_def by blast
  have s: "stop_left (spc (sys_step d pq Stop x)) \<le> stop_left (spc x) \<and>
    (wpc x = Gone \<longrightarrow> stop_left (spc (sys_step d pq Stop x)) \<le> stop_left (spc x) - 1)"
    using over t by (cases "spc x") (auto split: option.split prod.split)
  then show "wpc x = Gone \<Longrightarrow> stop_left (spc (sys_step d pq Stop x)) \<le> stop_left (spc x) - 1" by blast
  show "stop_left (spc (sys_step d pq ev x)) \<le> stop_left (spc x)"
    using s by (cases ev) (auto split: option.split prod.split sum.split simp del: stop_step.simps stop_left.simps)
  show "wpc x = Gone \<Longrightarrow> wpc (sys_step d pq ev x) = Gone"
    by (cases ev) (auto simp: writer_event_def split: option.split prod.split sum.split)
qed

text \<open>The states these measures are about: \<open>shutdown\<close> is past the delivery.\<close>

definition finishing where
  "finishing pv cv cap x \<longleftrightarrow>
     (\<exists>pre post stored lost q. sys_inv pv cv cap pre post stored lost q x) \<and> stop_left (spc x) \<le> 4"

lemma finishing_step:
  assumes spec: "prom_spec pv ok (prom d)" "chan_spec cv (chan d)" and "finishing pv cv cap x"
  shows "finishing pv cv cap (sys_step d pq ev x)"
proof -
  obtain pre post stored lost q where "sys_inv pv cv cap pre post stored lost q x" "stop_left (spc x) \<le> 4"
    using assms(3) unfolding finishing_def by blast
  then show ?thesis
    using sys_step_inv [OF spec] stop_progress(1) unfolding finishing_def by (meson le_trans)
qed

lemma run_writes:
  assumes spec: "prom_spec pv ok (prom d)" "chan_spec cv (chan d)"
    and start: "finishing pv cv cap x" "sentinel_sent cv x"
  shows "work_left cv (sys_run d pq evs x) \<le> work_left cv x - count_list evs Write"
    and "finishing pv cv cap (sys_run d pq evs x)"
proof -
  have step: "sentinel_sent cv (sys_step d pq ev y) \<and>
      work_left cv (sys_step d pq ev y) \<le> work_left cv y - (if ev = Write then 1 else 0)"
    if "finishing pv cv cap y" "sentinel_sent cv y" for ev y
    using that step_progress [OF spec(2)] unfolding finishing_def by fastforce
  show "work_left cv (sys_run d pq evs x) \<le> work_left cv x - count_list evs Write"
    by (rule sched.run_measure [of "\<lambda>y. finishing pv cv cap y \<and> sentinel_sent cv y"])
      (use step start finishing_step [OF spec] in blast)+
  show "finishing pv cv cap (sys_run d pq evs x)"
    by (rule sched.run_keeps [of "finishing pv cv cap", OF finishing_step [OF spec]]) (use start in simp_all)
qed

lemma run_stops:
  assumes spec: "prom_spec pv ok (prom d)" "chan_spec cv (chan d)"
    and start: "finishing pv cv cap x" "wpc x = Gone"
  shows "stop_left (spc (sys_run d pq evs x)) \<le> stop_left (spc x) - count_list evs Stop"
proof -
  have step: "wpc (sys_step d pq ev y) = Gone \<and>
      stop_left (spc (sys_step d pq ev y)) \<le> stop_left (spc y) - (if ev = Stop then 1 else 0)"
    if fin: "finishing pv cv cap y" and gone: "wpc y = Gone" for ev y
  proof -
    obtain pre post stored lost q where "sys_inv pv cv cap pre post stored lost q y" "stop_left (spc y) \<le> 4"
      using fin unfolding finishing_def by blast
    note p = stop_progress [OF this, of d pq]
    show ?thesis using p(1) [of ev] p(2) [OF gone, of ev] p(3) [OF gone]
      by (cases "ev = Stop") (simp_all del: sys_step.simps)
  qed
  show ?thesis
    by (rule sched.run_measure [of "\<lambda>y. finishing pv cv cap y \<and> wpc y = Gone"])
      (use step start finishing_step [OF spec] in blast)+
qed

lemma work_zero: "work pc n = 0 \<longleftrightarrow> pc = Gone"
  by (cases pc) auto

lemma end_reached:
  assumes spec: "prom_spec pv ok (prom d)" "chan_spec cv (chan d)"
    and start: "finishing pv cv cap x" "sentinel_sent cv x"
    and enough: "work_left cv x \<le> count_list evs Write" "4 \<le> count_list evs' Stop"
  shows "spc (sys_run d pq (evs @ evs') x) = Finished"
proof -
  let ?x = "sys_run d pq evs x"
  note w = run_writes [OF spec start, of pq evs]
  then have "wpc ?x = Gone" using enough(1) work_zero unfolding work_left_def by fastforce
  from run_stops [OF spec w(2) this, of pq evs'] have "stop_left (spc (sys_run d pq evs' ?x)) = 0"
    using w(2) enough(2) by (simp add: finishing_def)
  then show ?thesis unfolding sched.run_append by (cases "spc (sys_run d pq evs' ?x)") auto
qed

text \<open>The attempt that finds room.\<close>

lemma ahead_sentinel: "ahead (q @ [Shutdown]) \<le> length q"
  by (induction q rule: ahead.induct) auto

lemma attempt_delivers:
  assumes spec: "chan_spec cv (chan d)" and inv: "sys_inv pv cv cap pre post stored lost q x"
    and at: "spc x = Delivering (Suc n)" and room: "length q < cap"
  shows "sentinel_sent cv (sys_step d pq Stop x) \<and> spc (sys_step d pq Stop x) = Taking \<and>
    work_left cv (sys_step d pq Stop x) \<le> length (in_batch (wpc x)) + 4 * length q + 5"
proof -
  obtain h c where h: "global (proc x) = Some h" "tx h = Some c"
    "cv c = \<lparr>queue = q, capacity = cap, rx_open = wpc x \<noteq> Gone, tx_open = True\<rparr>"
    using inv unfolding sys_inv_def wired_def by blast
  obtain r c' where r: "try_send (chan d) c Shutdown = (r, c')" by fastforce
  have v: "r = fst (send_view Shutdown (cv c))" "cv c' = snd (send_view Shutdown (cv c))"
    using chan_specD(2) [OF spec r] by (simp_all add: prod_eq_iff)
  have x': "sys_step d pq Stop x = x\<lparr>spc := Taking, proc := set_tx c' (proc x)\<rparr>"
    using at h r room v(1) by (cases "wpc x = Gone") (simp_all add: send_view_def)
  have q: "queue_of cv (set_tx c' (proc x)) = queue (cv c')" using h by (simp add: queue_of_def set_tx_def)
  show ?thesis
  proof (cases "wpc x = Gone")
    case True
    then show ?thesis unfolding x' by (simp add: sentinel_sent_def work_left_def delivered_def)
  next
    case False
    then have "queue (cv c') = q @ [Shutdown]" using h room by (simp add: v(2) send_view_def)
    then show ?thesis
      using work_mono [OF ahead_sentinel, of "wpc x" q] work_le [of "wpc x" "length q"]
      unfolding x' by (simp add: sentinel_sent_def work_left_def delivered_def q)
  qed
qed

section \<open>Properties\<close>

text \<open>
  C4: \<open>shutdown\<close> comes to its end whatever the other threads do. Let an attempt to send
  the sentinel find room in the queue, in any state some schedule leads to. Then every
  schedule that goes on with four operations of the writer for each queued sample, one for
  each sample of its batch and five more, and after them with four steps of \<open>shutdown\<close>,
  ends with \<open>shutdown\<close> returned, however many steps of recording threads and compaction
  passes lie in between.
\<close>

theorem shutdown_completes:
  assumes "prom_spec pv ok (prom d)" and "chan_spec cv (chan d)"
    and "init d sa env cfg (process_start, fs) = (Inr (), s0, fs')" and "fjall cfg = Some fcfg"
    and "list_all (list_all (\<lambda>e. admissible (metric_kind e) (sample e))) todos"
    and "x = sys_run d pq evs (booted s0 todos files)"
    and "global (proc x) = Some h" and "tx h = Some c"
    and "spc x = Delivering (Suc n)" and "length (queue (cv c)) < channel_capacity cfg"
    and "length (in_batch (wpc x)) + 4 * length (queue (cv c)) + 5 \<le> count_list writes Write"
    and "4 \<le> count_list stops Stop"
  shows "spc (sys_run d pq (Stop # writes @ stops) x) = Finished"
proof -
  obtain pre post stored lost q where inv: "sys_inv pv cv (channel_capacity cfg) pre post stored lost q x"
    using booted_inv [OF assms(1-5), of files] sys_run_inv [OF assms(1,2)] unfolding assms(6) by blast
  then have q: "queue (cv c) = q" using assms(7,8) unfolding sys_inv_def wired_def by force
  note at = attempt_delivers [OF assms(2) inv assms(9) assms(10) [unfolded q], of pq]
  obtain pre' post' stored' lost' q' where
    inv': "sys_inv pv cv (channel_capacity cfg) pre' post' stored' lost' q' (sys_step d pq Stop x)"
    using sys_step_inv [OF assms(1,2) inv] by blast
  then have "finishing pv cv (channel_capacity cfg) (sys_step d pq Stop x)"
    using at unfolding finishing_def by (metis order_refl stop_left.simps(3))
  then show ?thesis
    using end_reached [OF assms(1,2)] at assms(11,12) unfolding q sys_run.simps by (meson le_trans)
qed

theorem shutdown_completes_witness:
  "\<exists>s0. init demo_deps demo_storage \<lparr>spawn_error = None, runtime_running = True\<rparr> demo_config (process_start, [])
      = (Inr (), s0, [[], [Normal (lit ''data'')]]) \<and>
    spc (sys_run demo_deps (ref_parquet True) (Stop # replicate 5 Write @ Call 0 # replicate 4 Stop)
      (sys_run demo_deps (ref_parquet True) [Stop] (demo_system s0 [[demo_entry []]]))) = Finished"
proof -
  let ?env = "\<lparr>spawn_error = None, runtime_running = True\<rparr>" and ?todos = "[[demo_entry []]]"
  obtain s0 where i: "init demo_deps demo_storage ?env demo_config (process_start, [])
    = (Inr (), s0, [[], [Normal (lit ''data'')]])" using init_demo by blast
  have specs: "prom_spec ref_view ref_ok (prom demo_deps)" "chan_spec id (chan demo_deps)"
    by (simp_all add: ref_prom_spec ref_chan_spec)
  have adm: "list_all (list_all (\<lambda>e. admissible (metric_kind e) (sample e))) ?todos"
    by (simp add: demo_admissible)
  define x where "x = sys_run demo_deps (ref_parquet True) [Stop] (demo_system s0 ?todos)"
  from booted_inv [OF specs i demo_config_simps(2) adm, of Map.empty]
  have inv: "sys_inv ref_view id 16384 [] [] [] [] [] (demo_system s0 ?todos)"
    by (auto simp: demo_config_simps demo_system_def)
  then obtain h c where h: "global s0 = Some h" "tx h = Some c" "c = \<lparr>queue = [], capacity = 16384, rx_open = True, tx_open = True\<rparr>"
    "\<not> shutdown_flag s0"
    by (auto simp: sys_inv_def wired_def join_ok_def demo_system_def booted_def)
  then have x: "spc x = Delivering (Suc 99)" "global (proc x) = Some h" "wpc x = Waiting"
    by (simp_all add: x_def demo_system_def booted_def)
  have small: "length (queue (id c)) < channel_capacity demo_config"
    "length (in_batch (wpc x)) + 4 * length (queue (id c)) + 5 \<le> count_list (replicate 5 Write) Write"
    "4 \<le> count_list (Call 0 # replicate 4 Stop) Stop"
    using h(3) x(3) by (simp_all add: demo_config_simps numeral_eq_Suc)
  from shutdown_completes [OF specs i demo_config_simps(2) adm x_def [unfolded demo_system_def] x(2) h(2) x(1) small]
  show ?thesis using i unfolding x_def by blast
qed

end
