(* ===== verification/Starting.thy ===== *)
theory Starting
  imports Durability
begin

text \<open>
  \<open>init\<close> on several threads at once, while others already record: each call goes through
  its operations on shared state one at a time, and \<open>OnceLock::set\<close> decides which of them
  starts the engine.
\<close>

section \<open>The steps of a call\<close>

text \<open>
  \<open>Failed\<close> is an error before anything was published, \<open>Broken\<close> the one after.
\<close>

datatype ('pw, 'h, 'c, 'p) start_pc =
    Checking config
  | Opening config "('pw, 'h, 'c, 'p) engine_handle"
  | Publishing config "('pw, 'h, 'c, 'p) engine_handle" "'p option"
  | Spawning config "('pw, 'h, 'c, 'p) engine_handle" "'p option"
  | Keeping config     \<comment> \<open>before \<open>WRITER_JOIN\<close> is set\<close>
  | Scheduling config  \<comment> \<open>before \<open>try_spawn_compaction\<close>\<close>
  | Failed error
  | Broken error
  | Started

definition drop_rx :: "('pw, 'h, 'c, 'p) deps \<Rightarrow> ('pw, 'h, 'c, 'p) process \<Rightarrow> ('pw, 'h, 'c, 'p) process" where
  "drop_rx d s = s\<lparr>global := map_option (\<lambda>h. h\<lparr>tx := map_option (drop_receiver (chan d)) (tx h)\<rparr>) (global s)\<rparr>"

fun start_step ::
  "('pw, 'h, 'c, 'p) deps \<Rightarrow> ('k, 'p, 'fs) storage_api \<Rightarrow> init_env \<Rightarrow> ('pw, 'h, 'c, 'p) start_pc
     \<Rightarrow> ('pw, 'h, 'c, 'p) process \<times> 'fs
     \<Rightarrow> ('pw, 'h, 'c, 'p) start_pc \<times> ('pw, 'h, 'c, 'p) process \<times> 'fs" where
  "start_step d sa env (Checking cfg) (s, fs) =
     (case config_validate (ft d) cfg of
        Inl e \<Rightarrow> (Failed e, s, fs)
      | Inr _ \<Rightarrow>
          (case engine_handle_new d cfg of
             Inl e \<Rightarrow> (Failed e, s, fs)
           | Inr handle \<Rightarrow> (Opening cfg handle, s, fs)))"
| "start_step d sa env (Opening cfg handle) (s, fs) =
     (case init_storage d sa cfg handle fs of
        (Inl e, fs') \<Rightarrow> (Failed e, s, fs')
      | (Inr (handle', opened), fs') \<Rightarrow> (Publishing cfg handle' opened, s, fs'))"
| "start_step d sa env (Publishing cfg handle opened) (s, fs) =
     (case global s of
        Some _ \<Rightarrow> (Failed AlreadyInitialized, s, fs)
      | None \<Rightarrow> (Spawning cfg handle opened, s\<lparr>global := Some handle\<rparr>, fs))"
| "start_step d sa env (Spawning cfg handle opened) (s, fs) =
     (case (fjall cfg, tx handle, opened) of
        (Some fcfg, Some c, Some p) \<Rightarrow>
          (case spawn_error env of
             Some e \<Rightarrow> (Broken (Storage (lit ''spawn writer thread: '' @ e)), drop_rx d s, fs)
           | None \<Rightarrow>
               (Keeping cfg, s\<lparr>writer_thr := Some \<lparr>wt_rows = batch_rows fcfg, wt_seq = 0, wt_exited = False\<rparr>\<rparr>, fs))
      | _ \<Rightarrow> (Started, s, fs))"
| "start_step d sa env (Keeping cfg) (s, fs) =
     (Scheduling cfg,
      if poisoned (writer_join s) then s
      else s\<lparr>writer_join := (writer_join s)\<lparr>guarded := Some ()\<rparr>\<rparr>, fs)"
| "start_step d sa env (Scheduling cfg) (s, fs) = (Started, try_spawn_compaction (runtime_running env) cfg s, fs)"
| "start_step d sa env (Failed e) (s, fs) = (Failed e, s, fs)"
| "start_step d sa env (Broken e) (s, fs) = (Broken e, s, fs)"
| "start_step d sa env Started (s, fs) = (Started, s, fs)"

fun start_steps ::
  "nat \<Rightarrow> ('pw, 'h, 'c, 'p) deps \<Rightarrow> ('k, 'p, 'fs) storage_api \<Rightarrow> init_env \<Rightarrow> ('pw, 'h, 'c, 'p) start_pc
     \<Rightarrow> ('pw, 'h, 'c, 'p) process \<times> 'fs
     \<Rightarrow> ('pw, 'h, 'c, 'p) start_pc \<times> ('pw, 'h, 'c, 'p) process \<times> 'fs" where
  "start_steps 0 d sa env pc st = (pc, st)"
| "start_steps (Suc n) d sa env pc st =
     (case start_step d sa env pc st of (pc', st') \<Rightarrow> start_steps n d sa env pc' st')"

text \<open>What a finished call returned.\<close>

fun start_result :: "('pw, 'h, 'c, 'p) start_pc \<Rightarrow> (error + unit) option" where
  "start_result (Failed e) = Some (Inl e)"
| "start_result (Broken e) = Some (Inl e)"
| "start_result Started = Some (Inr ())"
| "start_result (Checking cfg) = None"
| "start_result (Opening cfg h) = None"
| "start_result (Publishing cfg h p) = None"
| "start_result (Spawning cfg h p) = None"
| "start_result (Keeping cfg) = None"
| "start_result (Scheduling cfg) = None"

text \<open>A call that nothing interrupts is \<open>init\<close>.\<close>

lemma start_alone:
  "\<exists>pc. start_steps 6 d sa env (Checking cfg) (s, fs) = (pc, snd (init d sa env cfg (s, fs))) \<and>
     start_result pc = Some (fst (init d sa env cfg (s, fs)))"
proof -
  have stay: "start_steps n d sa env pc st = (pc, st)" if "start_result pc \<noteq> None" for n pc st
    using that by (induction n) (cases pc; cases st; simp)+
  show ?thesis
    unfolding init_def
    by (simp add: eval_nat_numeral init_writer_def stay Let_def drop_rx_def
        split: sum.split prod.split option.split)
qed

section \<open>Several calls\<close>

text \<open>A step of the \<open>i\<close>-th call of \<open>init\<close>, or a call of \<open>record\<close>.\<close>

datatype start_event = Start nat | Note metric_entry

type_synonym ('pw, 'h, 'c, 'p, 'fs) starting =
  "('pw, 'h, 'c, 'p) start_pc list \<times> ('pw, 'h, 'c, 'p) process \<times> 'fs"

fun starting_step ::
  "('pw, 'h, 'c, 'p) deps \<Rightarrow> ('k, 'p, 'fs) storage_api \<Rightarrow> init_env \<Rightarrow> start_event
     \<Rightarrow> ('pw, 'h, 'c, 'p, 'fs) starting \<Rightarrow> ('pw, 'h, 'c, 'p, 'fs) starting" where
  "starting_step d sa env (Start i) (pcs, st) =
     (if i < length pcs
      then (case start_step d sa env (pcs ! i) st of (pc, st') \<Rightarrow> (pcs[i := pc], st'))
      else (pcs, st))"
| "starting_step d sa env (Note e) (pcs, s, fs) = (pcs, snd (global_record d e s), fs)"

fun starting_run ::
  "('pw, 'h, 'c, 'p) deps \<Rightarrow> ('k, 'p, 'fs) storage_api \<Rightarrow> init_env \<Rightarrow> start_event list
     \<Rightarrow> ('pw, 'h, 'c, 'p, 'fs) starting \<Rightarrow> ('pw, 'h, 'c, 'p, 'fs) starting" where
  "starting_run d sa env [] x = x"
| "starting_run d sa env (ev # evs) x = starting_run d sa env evs (starting_step d sa env ev x)"

interpretation starting: event_system "starting_step d sa env" "starting_run d sa env" for d sa env
  by unfold_locales simp_all

text \<open>The calls that set \<open>GLOBAL\<close>, and those of them that went past a stage.\<close>

fun stage :: "('pw, 'h, 'c, 'p) start_pc \<Rightarrow> nat" where
  "stage (Spawning cfg h p) = 1"
| "stage (Broken e) = 1"
| "stage (Keeping cfg) = 2"
| "stage (Scheduling cfg) = 3"
| "stage Started = 4"
| "stage (Checking cfg) = 0"
| "stage (Opening cfg h) = 0"
| "stage (Publishing cfg h p) = 0"
| "stage (Failed e) = 0"

definition owners :: "('pw, 'h, 'c, 'p) start_pc list \<Rightarrow> nat" where
  "owners pcs = length (filter (\<lambda>pc. 0 < stage pc) pcs)"

definition reached :: "nat \<Rightarrow> ('pw, 'h, 'c, 'p) start_pc list \<Rightarrow> bool" where
  "reached n pcs \<longleftrightarrow> (\<exists>pc \<in> set pcs. n \<le> stage pc)"

text \<open>The process as far as starting changes it, given how far the owner is.\<close>

definition started_to :: "nat \<Rightarrow> ('pw, 'h, 'c, 'p) process \<Rightarrow> bool" where
  "started_to n s \<longleftrightarrow> (global s = None \<longleftrightarrow> n = 0) \<and> (n < 2 \<longrightarrow> writer_thr s = None) \<and>
     (n < 3 \<longrightarrow> guarded (writer_join s) = None) \<and> (n < 4 \<longrightarrow> tasks s = []) \<and> length (tasks s) \<le> 1"

definition starting_inv :: "('pw, 'h, 'c, 'p, 'fs) starting \<Rightarrow> bool" where
  "starting_inv x \<longleftrightarrow> (case x of (pcs, s, fs) \<Rightarrow>
     started_to (sum_list (map stage pcs)) s \<and> owners pcs \<le> 1 \<and>
     (Failed AlreadyInitialized \<in> set pcs \<longrightarrow> global s \<noteq> None))"

section \<open>The invariant\<close>

lemma own_errors:
  "config_validate f cfg = Inl e \<Longrightarrow> e \<noteq> AlreadyInitialized"
  "engine_handle_new d cfg = Inl e \<Longrightarrow> e \<noteq> AlreadyInitialized"
  "init_storage d sa cfg h fs = (Inl e, fs') \<Longrightarrow> e \<noteq> AlreadyInitialized"
proof -
  show "config_validate f cfg = Inl e \<Longrightarrow> e \<noteq> AlreadyInitialized"
    by (auto simp: config_validate_def fjall_validate_def split: if_splits option.splits)
  show "engine_handle_new d cfg = Inl e \<Longrightarrow> e \<noteq> AlreadyInitialized"
    by (auto simp: engine_handle_new_def prom_registry_new_def split: if_splits sum.splits prod.splits)
  show "init_storage d sa cfg h fs = (Inl e, fs') \<Longrightarrow> e \<noteq> AlreadyInitialized"
    by (auto simp: init_storage_def open_handles_def error_from_io_def
        split: if_splits sum.splits prod.splits option.splits)
qed

lemma spawn_tasks:
  "tasks s = [] \<Longrightarrow> length (tasks (try_spawn_compaction rt cfg s)) \<le> 1 \<and>
     global (try_spawn_compaction rt cfg s) = global s"
  by (auto simp: try_spawn_compaction_def spawn_compaction_task_def Let_def split: option.split)

lemma start_step_effect:
  assumes "started_to (stage pc + n) s" "stage pc = 0 \<or> n = 0" "start_step d sa env pc (s, fs) = (pc', s', fs')"
  shows "started_to (stage pc' + n) s' \<and> (0 < stage pc' \<longrightarrow> n = 0) \<and>
    (pc' = Failed AlreadyInitialized \<longrightarrow> pc = pc' \<or> global s \<noteq> None) \<and> (global s \<noteq> None \<longrightarrow> global s' \<noteq> None)"
proof (cases pc)
  case (Scheduling cfg)
  then show ?thesis using assms spawn_tasks [of s "runtime_running env" cfg]
    by (auto simp: started_to_def)
next
  case (Checking cfg)
  then show ?thesis using assms by (auto split: sum.splits dest: own_errors(1,2))
next
  case (Opening cfg h)
  then show ?thesis using assms by (auto split: sum.splits prod.splits dest: own_errors(3))
qed (use assms in \<open>auto simp: started_to_def drop_rx_def split: option.splits if_splits\<close>)

lemma total_stage:
  assumes "owners pcs \<le> 1" "pcs = xs @ pc # ys"
  shows "stage pc = 0 \<or> sum_list (map stage (xs @ ys)) = 0"
proof (cases "stage pc = 0")
  case False
  then have "filter (\<lambda>pc. 0 < stage pc) (xs @ ys) = []" using assms by (simp add: owners_def)
  then show ?thesis by (auto simp: filter_empty_conv)
qed simp

lemma starting_step_inv:
  assumes "starting_inv x"
  shows "starting_inv (starting_step d sa env ev x)"
proof -
  obtain pcs s fs where x: "x = (pcs, s, fs)" by (metis prod_cases3)
  have inv: "started_to (sum_list (map stage pcs)) s" "owners pcs \<le> 1"
    "Failed AlreadyInitialized \<in> set pcs \<longrightarrow> global s \<noteq> None"
    using assms by (simp_all add: x starting_inv_def)
  show ?thesis
  proof (cases ev)
    case (Note e)
    have "global (snd (global_record d e s)) = None \<longleftrightarrow> global s = None" "global s = None \<longleftrightarrow> global (snd (global_record d e s)) = None"
      "writer_thr (snd (global_record d e s)) = writer_thr s" "writer_join (snd (global_record d e s)) = writer_join s"
      "tasks (snd (global_record d e s)) = tasks s"
      by (auto simp: global_record_def split: option.split prod.split)
    then show ?thesis using inv unfolding Note x starting_inv_def started_to_def by simp
  next
    case (Start i)
    show ?thesis
    proof (cases "i < length pcs")
      case True
      define xs ys where xs_ys_def: "xs = take i pcs" "ys = drop (Suc i) pcs"
      then have pcs: "pcs = xs @ pcs ! i # ys" and up: "pcs[i := pc] = xs @ pc # ys" for pc
        using True by (simp_all add: id_take_nth_drop upd_conv_take_nth_drop)
      obtain pc' s' fs' where st: "start_step d sa env (pcs ! i) (s, fs) = (pc', s', fs')" by (metis prod_cases3)
      let ?n = "sum_list (map stage (xs @ ys))"
      have sum: "sum_list (map stage pcs) = stage (pcs ! i) + ?n" by (subst pcs) simp
      note ef = start_step_effect [OF inv(1) [unfolded sum] total_stage [OF inv(2) pcs] st]
      have "owners (xs @ pc' # ys) \<le> 1"
      proof (cases "0 < stage pc'")
        case True
        then have "filter (\<lambda>pc. 0 < stage pc) (xs @ ys) = []" using ef by (auto simp: filter_empty_conv)
        then show ?thesis by (simp add: owners_def)
      next
        case False
        have "owners (xs @ pcs ! i # ys) \<le> 1" using inv(2) pcs by simp
        then show ?thesis using False by (simp add: owners_def split: if_splits)
      qed
      moreover have "sum_list (map stage (xs @ pc' # ys)) = stage pc' + ?n" by simp
      then have "started_to (sum_list (map stage (xs @ pc' # ys))) s'" using ef by metis
      moreover have "pcs ! i = Failed AlreadyInitialized \<longrightarrow> Failed AlreadyInitialized \<in> set pcs"
        using nth_mem [OF True] by metis
      then have "Failed AlreadyInitialized \<in> set (xs @ pc' # ys) \<longrightarrow> global s' \<noteq> None"
        using ef inv(3) by (auto simp: xs_ys_def dest: in_set_takeD in_set_dropD)
      ultimately show ?thesis
        unfolding Start x starting_step.simps if_P [OF True] st prod.case up starting_inv_def by blast
    next
      case False
      then show ?thesis using assms by (simp add: Start x)
    qed
  qed
qed

lemma starting_run_inv: "starting_inv x \<Longrightarrow> starting_inv (starting_run d sa env evs x)"
  by (rule starting.run_keeps [of starting_inv, OF starting_step_inv])

lemma starting_fresh: "starting_inv (map Checking cfgs, process_start, fs)"
  by (simp add: starting_inv_def started_to_def owners_def process_start_def lock_new_def comp_def sum_list_0 image_iff)

lemma owner_stage:
  assumes "owners pcs \<le> 1" "0 < sum_list (map stage pcs)"
  shows "\<exists>pc \<in> set pcs. stage pc = sum_list (map stage pcs)"
proof -
  have "\<exists>pc \<in> set pcs. 0 < stage pc"
    using assms(2) by (induction pcs) auto
  then obtain pc where pc: "pc \<in> set pcs" "0 < stage pc" by blast
  then obtain xs ys where pcs: "pcs = xs @ pc # ys" by (meson split_list)
  then show ?thesis using total_stage [OF assms(1) pcs] pc by auto
qed

lemma owners_zero: "owners pcs = 0 \<longleftrightarrow> sum_list (map stage pcs) = 0"
  by (auto simp: owners_def filter_empty_conv)

lemma started_owner:
  fixes pcs :: "('pw, 'h, 'c, 'p) start_pc list"
  shows "length (filter (\<lambda>pc. start_result pc = Some (Inr ())) pcs) \<le> owners pcs"
proof -
  have "0 < stage pc" if "start_result pc = Some (Inr ())" for pc :: "('pw, 'h, 'c, 'p) start_pc"
    using that by (cases pc) auto
  note this [dest]
  show ?thesis by (induction pcs) (auto simp: owners_def)
qed

section \<open>Properties\<close>

text \<open>
  C24: one engine however many threads call \<open>init\<close>. In every interleaving of the steps of
  some calls, and of records, as soon as \<open>GLOBAL\<close> is set exactly one call is past setting
  it; a call fails with \<open>AlreadyInitialized\<close> only when it is set; at most one call returns
  Ok, the writer thread and the joining of it are that call's, and so is the compaction
  loop, of which there is at most one. When all calls have returned, either one of them owns
  the engine or each failed with an error of its own and \<open>init\<close> can be called again.
\<close>

theorem engine_starts_once:
  assumes "starting_run d sa env evs (map Checking cfgs, process_start, fs) = (pcs, s, fs')"
  shows "owners pcs = (if global s = None then 0 else 1) \<and>
    (Failed AlreadyInitialized \<in> set pcs \<longrightarrow> global s \<noteq> None) \<and>
    length (filter (\<lambda>pc. start_result pc = Some (Inr ())) pcs) \<le> 1 \<and>
    (writer_thr s \<noteq> None \<longrightarrow> reached 2 pcs) \<and> (guarded (writer_join s) \<noteq> None \<longrightarrow> reached 3 pcs) \<and>
    (tasks s \<noteq> [] \<longrightarrow> Started \<in> set pcs) \<and> length (tasks s) \<le> 1 \<and>
    (global s = None \<longrightarrow> (\<forall>pc \<in> set pcs. start_result pc \<noteq> None \<longrightarrow> (\<exists>e. pc = Failed e \<and> e \<noteq> AlreadyInitialized)))"
proof -
  let ?n = "sum_list (map stage pcs)"
  have inv: "started_to ?n s" "owners pcs \<le> 1" "Failed AlreadyInitialized \<in> set pcs \<longrightarrow> global s \<noteq> None"
    using starting_run_inv [OF starting_fresh, of d sa env evs cfgs fs] unfolding assms starting_inv_def by auto
  have one: "owners pcs = (if global s = None then 0 else 1)"
    using inv(1,2) owners_zero [of pcs] by (auto simp: started_to_def)
  have at: "reached k pcs" if "k \<le> ?n" "0 < k" for k
    using owner_stage [OF inv(2)] that unfolding reached_def by (metis less_le_trans)
  have "4 \<le> stage pc \<Longrightarrow> pc = Started" if "pc \<in> set pcs" for pc by (cases pc) auto
  then have "reached 4 pcs \<Longrightarrow> Started \<in> set pcs" unfolding reached_def by blast
  moreover have "\<exists>e. pc = Failed e \<and> e \<noteq> AlreadyInitialized"
    if "global s = None" "pc \<in> set pcs" "start_result pc \<noteq> None" for pc
  proof -
    have "stage pc = 0" using that(1,2) inv(1) by (auto simp: started_to_def)
    then show ?thesis using that inv(3) by (cases pc) auto
  qed
  ultimately show ?thesis
    using one inv at [of 2] at [of 3] at [of 4] started_owner [of pcs]
    by (auto simp: started_to_def not_less intro: le_trans)
qed

text \<open>
  Two calls race: both open the store before either sets \<open>GLOBAL\<close>, so the same directory
  is open twice although only one of them starts the engine.
\<close>

theorem engine_starts_once_witness:
  "\<exists>s. starting_run quiet_deps demo_storage quiet_env (map Start [0, 1, 0, 1, 0, 1, 0, 0, 0])
      (map Checking [demo_config, demo_config], process_start, [])
      = ([Started, Failed AlreadyInitialized], s, [[], [Normal (lit ''data'')], [], [Normal (lit ''data'')]]) \<and>
    owners ([Started, Failed AlreadyInitialized] :: (ref_world, nat, chan_view, kv_store) start_pc list) = 1 \<and>
    global s \<noteq> None \<and> tasks s = []"
proof -
  let ?evs = "map Start [0, 1, 0, 1, 0, 1, 0, 0, 0]" and ?dir = "[[], [Normal (lit ''data'')]]"
  obtain h where h: "engine_handle_new quiet_deps demo_config = Inr h" "tx h \<noteq> None"
    using demo_config_simps by (simp add: engine_handle_new_def quiet_deps_def)
  have v: "config_validate (ft quiet_deps) demo_config = Inr ()" "fjall_backend (ft quiet_deps)"
    using demo_config_simps by (simp_all add: quiet_deps_def)
  have o: "open_handles demo_storage (fjall_config_new [Normal (lit ''data'')]) fs = (Inr store_empty, ?dir @ fs)" for fs
    by (simp add: open_demo cold_dir_def fjall_config_new_def fjall_config_default_def path_parent_def)
  have run: "\<exists>s. starting_run quiet_deps demo_storage quiet_env ?evs (map Checking [demo_config, demo_config], process_start, [])
      = ([Started, Failed AlreadyInitialized], s, ?dir @ ?dir)"
    using h by (auto simp: v o init_storage_def demo_config_simps quiet_env_def process_start_def)
  then obtain s where s: "starting_run quiet_deps demo_storage quiet_env ?evs (map Checking [demo_config, demo_config], process_start, [])
      = ([Started, Failed AlreadyInitialized], s, ?dir @ ?dir)" by blast
  from engine_starts_once [OF s] have g: "global s \<noteq> None"
    "owners ([Started, Failed AlreadyInitialized] :: (ref_world, nat, chan_view, kv_store) start_pc list) = 1"
    by (auto split: if_splits)
  have "tasks (fst (snd (starting_run quiet_deps demo_storage quiet_env ?evs
      (map Checking [demo_config, demo_config], process_start, [])))) = []"
    using h by (auto simp: v o init_storage_def demo_config_simps quiet_env_def process_start_def
        try_spawn_compaction_def spawn_compaction_task_def split: option.split)
  then show ?thesis using s g by (intro exI [of _ s]) simp
qed

end
