(* ===== verification/Registration.thy ===== *)
theory Registration
  imports PromRegistry
begin

text \<open>
  \<open>PromRegistry::update\<close> on several threads at once. A call takes the read lock to look
  its collector up, may take the write lock to look again and register one, and applies its
  sample holding no lock; between these, other calls run. Each of the three is one step
  here, and the steps in a row are the function of \<open>PromRegistry\<close>.
\<close>

section \<open>The steps of a call\<close>

fun match_of :: "metric_type \<Rightarrow> 'h \<Rightarrow> rstr list \<Rightarrow> bool" where
  "match_of Counter v names = label_names_match v names"
| "match_of Gauge v names = gauge_labels_match v names"
| "match_of Histogram v names = histogram_labels_match v names"

fun create_of ::
  "metric_type \<Rightarrow> ('pw, 'h) prom_api \<Rightarrow> f64 list \<Rightarrow> rstr \<Rightarrow> rstr list \<Rightarrow> 'pw \<Rightarrow> (rstr + 'h) \<times> 'pw" where
  "create_of Counter api bs = (\<lambda>nm. counter_vec_new api nm (lit ''tonggeret counter '' @ nm))"
| "create_of Gauge api bs = (\<lambda>nm. gauge_vec_new api nm (lit ''tonggeret gauge '' @ nm))"
| "create_of Histogram api bs = (\<lambda>nm. histogram_vec_new api nm (lit ''tonggeret histogram '' @ nm) bs)"

fun apply_of ::
  "metric_type \<Rightarrow> ('pw, 'h) prom_api \<Rightarrow> 'h \<Rightarrow> rstr list \<Rightarrow> f64 \<Rightarrow> 'pw \<Rightarrow> unit res \<times> 'pw" where
  "apply_of Counter api = with_values_inc_by api"
| "apply_of Gauge api = with_values_set api"
| "apply_of Histogram api = with_values_observe api"

text \<open>
  The fast path of \<open>ensure_counter\<close> and its two siblings; \<open>None\<close> goes on to the slow path.
\<close>

definition fast_path ::
  "metric_type \<Rightarrow> ('pw, 'h) prom_registry \<Rightarrow> rstr \<Rightarrow> rstr list \<Rightarrow> 'h option option" where
  "fast_path k r nm names =
     (if \<not> healthy_of k r then None
      else
        (case cache_of k r nm of
           None \<Rightarrow> None
         | Some v \<Rightarrow> Some (if match_of k v names then Some v else None)))"

text \<open>Under the write lock: another look at the map, then creation and registration.\<close>

definition slow_path ::
  "metric_type \<Rightarrow> ('pw, 'h) prom_api \<Rightarrow> ('pw, 'h) prom_registry \<Rightarrow> rstr \<Rightarrow> rstr list
     \<Rightarrow> 'h option \<times> ('pw, 'h) prom_registry" where
  "slow_path k api r nm names =
     (if \<not> healthy_of k r then (None, r)
      else
        (case cache_of k r nm of
           Some v \<Rightarrow> (Some v, r)
         | None \<Rightarrow>
             (case create_of k api (default_buckets r) nm names (registry r) of
                (Inl e, w) \<Rightarrow> (None, r\<lparr>registry := w\<rparr>)
              | (Inr v, w) \<Rightarrow>
                  (case register api v w of
                     (Inl e, w') \<Rightarrow> (None, r\<lparr>registry := w'\<rparr>)
                   | (Inr _, w') \<Rightarrow> (Some v, store_of k nm v (r\<lparr>registry := w'\<rparr>))))))"

datatype 'h update_pc =
    Looking metric_entry      \<comment> \<open>before the read lock\<close>
  | Registering metric_entry  \<comment> \<open>before the write lock\<close>
  | Applying metric_entry 'h  \<comment> \<open>before the sample is applied\<close>

datatype update_fate =
    Applied
  | Skipped            \<comment> \<open>no collector\<close>
  | Unwinding panic

fun update_step ::
  "('pw, 'h) prom_api \<Rightarrow> 'h update_pc \<Rightarrow> ('pw, 'h) prom_registry
     \<Rightarrow> (update_fate + 'h update_pc) \<times> ('pw, 'h) prom_registry" where
  "update_step api (Looking e) r =
     (case fast_path (metric_kind e) r (name e) (map fst (labels e)) of
        None \<Rightarrow> (Inr (Registering e), r)
      | Some None \<Rightarrow> (Inl Skipped, r)
      | Some (Some v) \<Rightarrow> (Inr (Applying e v), r))"
| "update_step api (Registering e) r =
     (case slow_path (metric_kind e) api r (name e) (map fst (labels e)) of
        (None, r') \<Rightarrow> (Inl Skipped, r')
      | (Some v, r') \<Rightarrow> (Inr (Applying e v), r'))"
| "update_step api (Applying e v) r =
     (case apply_of (metric_kind e) api v (map snd (labels e)) (sample e) (registry r) of
        (Ret _, w) \<Rightarrow> (Inl Applied, r\<lparr>registry := w\<rparr>)
      | (Panicked p, w) \<Rightarrow> (Inl (Unwinding p), r\<lparr>registry := w\<rparr>))"

fun update_steps ::
  "nat \<Rightarrow> ('pw, 'h) prom_api \<Rightarrow> 'h update_pc \<Rightarrow> ('pw, 'h) prom_registry
     \<Rightarrow> (update_fate + 'h update_pc) \<times> ('pw, 'h) prom_registry" where
  "update_steps 0 api pc r = (Inr pc, r)"
| "update_steps (Suc n) api pc r =
     (case update_step api pc r of
        (Inl f, r') \<Rightarrow> (Inl f, r')
      | (Inr pc', r') \<Rightarrow> update_steps n api pc' r')"

fun update_result :: "update_fate \<Rightarrow> unit res" where
  "update_result Applied = Ret ()"
| "update_result Skipped = Ret ()"
| "update_result (Unwinding p) = Panicked p"

text \<open>The three steps in a row are \<open>update\<close>.\<close>

lemma update_alone:
  "\<exists>f. update_steps 3 api (Looking e) r = (Inl f, snd (update api r e)) \<and> fst (update api r e) = update_result f"
proof (cases "metric_kind e")
  case Counter
  then show ?thesis
    by (auto simp: numeral_3_eq_3 fast_path_def slow_path_def update_def observe_counter_def ensure_counter_def
        label_names_and_values_def label_names_match_def split: option.split prod.split sum.split res.split)
next
  case Gauge
  then show ?thesis
    by (auto simp: numeral_3_eq_3 fast_path_def slow_path_def update_def observe_gauge_def ensure_gauge_def
        label_names_and_values_def gauge_labels_match_def split: option.split prod.split sum.split res.split)
next
  case Histogram
  then show ?thesis
    by (auto simp: numeral_3_eq_3 fast_path_def slow_path_def update_def observe_histogram_def ensure_histogram_def
        label_names_and_values_def histogram_labels_match_def split: option.split prod.split sum.split res.split)
qed

section \<open>Several threads\<close>

record 'h updater =
  u_past :: "(metric_entry \<times> update_fate) list"
  u_now :: "'h update_pc option"
  u_todo :: "metric_entry list"

fun subject :: "'h update_pc \<Rightarrow> metric_entry" where
  "subject (Looking e) = e"
| "subject (Registering e) = e"
| "subject (Applying e v) = e"

definition updater_step ::
  "('pw, 'h) prom_api \<Rightarrow> 'h updater \<Rightarrow> ('pw, 'h) prom_registry \<Rightarrow> 'h updater \<times> ('pw, 'h) prom_registry" where
  "updater_step api u r =
     (case u_now u of
        None \<Rightarrow>
          (case u_todo u of
             [] \<Rightarrow> (u, r)
           | e # es \<Rightarrow> (u\<lparr>u_now := Some (Looking e), u_todo := es\<rparr>, r))
      | Some pc \<Rightarrow>
          (case update_step api pc r of
             (Inl f, r') \<Rightarrow> (u\<lparr>u_past := u_past u @ [(subject pc, f)], u_now := None\<rparr>, r')
           | (Inr pc', r') \<Rightarrow> (u\<lparr>u_now := Some pc'\<rparr>, r')))"

text \<open>A schedule names the thread of every step; \<open>None\<close> is a dropped sample being counted.\<close>

definition updaters_step ::
  "('pw, 'h) prom_api \<Rightarrow> nat option \<Rightarrow> 'h updater list \<times> ('pw, 'h) prom_registry
     \<Rightarrow> 'h updater list \<times> ('pw, 'h) prom_registry" where
  "updaters_step api ev x =
     (case x of (us, r) \<Rightarrow>
        (case ev of
           None \<Rightarrow> (us, inc_dropped api r)
         | Some i \<Rightarrow>
             if i < length us
             then (case updater_step api (us ! i) r of (u, r') \<Rightarrow> (us[i := u], r'))
             else (us, r)))"

fun updaters_run ::
  "('pw, 'h) prom_api \<Rightarrow> nat option list \<Rightarrow> 'h updater list \<times> ('pw, 'h) prom_registry
     \<Rightarrow> 'h updater list \<times> ('pw, 'h) prom_registry" where
  "updaters_run api [] x = x"
| "updaters_run api (ev # evs) x = updaters_run api evs (updaters_step api ev x)"

interpretation updating: event_system "updaters_step api" "updaters_run api" for api
  by unfold_locales simp_all

definition fresh_updaters :: "metric_entry list list \<Rightarrow> 'h updater list" where
  "fresh_updaters todos = map (\<lambda>es. \<lparr>u_past = [], u_now = None, u_todo = es\<rparr>) todos"

section \<open>What a step does to the registry\<close>

text \<open>The kinds share the facts on their three crate calls.\<close>

lemma creates:
  assumes "prom_spec view ok api"
  shows "creation_spec view (ok k) (create_of k api bs)"
proof (cases k)
  case Counter
  have "creation_spec view (ok Counter) (\<lambda>nm. counter_vec_new api nm (lit ''tonggeret counter '' @ nm))"
    using assms unfolding prom_spec_def by (elim conjE allE)
  then show ?thesis by (simp add: Counter)
next
  case Gauge
  have "creation_spec view (ok Gauge) (\<lambda>nm. gauge_vec_new api nm (lit ''tonggeret gauge '' @ nm))"
    using assms unfolding prom_spec_def by (elim conjE allE)
  then show ?thesis by (simp add: Gauge)
next
  case Histogram
  have "creation_spec view (ok Histogram) (\<lambda>nm. histogram_vec_new api nm (lit ''tonggeret histogram '' @ nm) bs)"
    using assms unfolding prom_spec_def by (elim conjE allE)
  then show ?thesis by (simp add: Histogram)
qed

lemma applies:
  assumes "prom_spec view ok api"
  shows "observe_spec view (admissible k) (apply_of k api)"
  using assms unfolding prom_spec_def by (cases k) simp_all

lemma registers: "prom_spec view ok api \<Longrightarrow> register_spec view (register api)"
  unfolding prom_spec_def by blast

lemma healthy: "prom_inv view r \<Longrightarrow> healthy_of k r"
  unfolding prom_inv_def by blast

text \<open>Families are only added, and a series changes only by the samples applied to it.\<close>

definition grows :: "('pw \<Rightarrow> 'h prom_view) \<Rightarrow> ('pw, 'h) prom_registry \<Rightarrow> ('pw, 'h) prom_registry \<Rightarrow> bool" where
  "grows view r r' \<longleftrightarrow>
     (\<forall>k nm h. cache_of k r nm = Some h \<longrightarrow> cache_of k r' nm = Some h) \<and>
     families (abs_registry view r) \<subseteq>\<^sub>m families (abs_registry view r')"

lemma grows_refl: "grows view r r"
  by (simp add: grows_def)

lemma grows_trans: "grows view r r' \<Longrightarrow> grows view r' r'' \<Longrightarrow> grows view r r''"
  unfolding grows_def by (meson map_le_trans)

text \<open>Why a call has no collector.\<close>

definition unusable :: "(metric_type \<Rightarrow> rstr \<Rightarrow> rstr list \<Rightarrow> bool) \<Rightarrow> metric_entry \<Rightarrow> prom_abs \<Rightarrow> bool" where
  "unusable ok e A \<longleftrightarrow>
     name e = dropped_name \<or> \<not> ok (metric_kind e) (name e) (map fst (labels e)) \<or>
     (\<exists>k ls. families A (name e) = Some (k, ls) \<and> k \<noteq> metric_kind e)"

lemma abs_family:
  assumes "prom_inv view r" "cache_of k r nm = Some h"
  shows "\<exists>ls. families (abs_registry view r) nm = Some (k, ls) \<and> descs (view (registry r)) h = Some (nm, ls)"
proof -
  obtain ls where "descs (view (registry r)) h = Some (nm, ls)" using prom_invD(1) [OF assms] by blast
  moreover have "collector r nm = Some (k, h)" using assms(2) by (simp add: collector_iff [OF assms(1)])
  ultimately show ?thesis using abs_families [OF assms(1)] by blast
qed

lemma registered_taken:
  assumes "prom_inv view r" "nm \<in> registered (view (registry r))" "cache_of k r nm = None"
  shows "nm = dropped_name \<or> (\<exists>k' ls. families (abs_registry view r) nm = Some (k', ls) \<and> k' \<noteq> k)"
proof -
  have "nm = dropped_name \<or> (\<exists>k h. cache_of k r nm = Some h)" using assms(1,2) unfolding prom_inv_def by blast
  then show ?thesis using abs_family [OF assms(1)] assms(3) by (metis option.distinct(1))
qed

text \<open>Registering a collector adds its family and nothing else.\<close>

lemma abs_enrolled:
  assumes inv: "prom_inv view r" and n: "nm \<notin> registered (view (registry r))"
    and f: "descs (view (registry r)) h = None"
    and w: "view w = (add_desc h nm ls (view (registry r)))\<lparr>registered := insert nm (registered (view (registry r)))\<rparr>"
  shows "abs_registry view (store_of k nm h (r\<lparr>registry := w\<rparr>)) =
      (abs_registry view r)\<lparr>families := (families (abs_registry view r))(nm \<mapsto> (k, ls))\<rparr> \<and>
    families (abs_registry view r) nm = None \<and> prom_inv view (store_of k nm h (r\<lparr>registry := w\<rparr>))"
proof -
  have none: "cache_of k' r nm = None" for k'
    using prom_invD(2) [OF inv] n by (metis not_None_eq)
  then have c: "collector (store_of k nm h (r\<lparr>registry := w\<rparr>)) = (collector r)(nm \<mapsto> (k, h))"
    by (subst collector_store) simp_all
  have n': "collector r nm = None" using none by (simp add: collector_None [OF inv])
  have other: "h' \<noteq> h" if "collector r nm' = Some (k', h')" for nm' k' h'
    using cached_handle_name [OF inv that] f by auto
  have "abs_registry view (store_of k nm h (r\<lparr>registry := w\<rparr>)) =
      (abs_registry view r)\<lparr>families := (families (abs_registry view r))(nm \<mapsto> (k, ls))\<rparr>"
    using other n' by (auto simp: abs_registry_def c w fun_eq_iff split: option.splits)
  moreover have "descs (view (registry r)) h' = Some x \<Longrightarrow> descs (view w) h' = Some x" for h' x
    using f by (auto simp: w)
  then have "prom_inv view (store_of k nm h (r\<lparr>registry := w\<rparr>))"
    by (intro prom_inv_store [OF inv n, of w h ls]) (simp_all add: w)
  ultimately show ?thesis using n' by (simp add: abs_families_None)
qed

lemma slow_path_effect:
  assumes spec: "prom_spec view ok api" and inv: "prom_inv view r"
  shows "case slow_path k api r nm ls of
      (None, r') \<Rightarrow> prom_inv view r' \<and> grows view r r' \<and> abs_registry view r' = abs_registry view r \<and>
        (nm = dropped_name \<or> \<not> ok k nm ls \<or> (\<exists>k' ls'. families (abs_registry view r) nm = Some (k', ls') \<and> k' \<noteq> k))
    | (Some v, r') \<Rightarrow> prom_inv view r' \<and> grows view r r' \<and> samples (abs_registry view r') = samples (abs_registry view r) \<and>
        cache_of k r' nm = Some v"
proof (cases "cache_of k r nm")
  case (Some v)
  then show ?thesis using inv healthy [OF inv, of k] by (simp add: slow_path_def grows_refl)
next
  case None
  obtain c w where c: "create_of k api (default_buckets r) nm ls (registry r) = (c, w)" by fastforce
  note cs = creation_specD [OF creates [OF spec, of k "default_buckets r"], of nm ls "registry r", unfolded c]
  show ?thesis
  proof (cases c)
    case (Inl e)
    then have "view w = view (registry r)" "\<not> ok k nm ls" using cs by simp_all
    moreover have "prom_inv view (r\<lparr>registry := w\<rparr>)" "abs_registry view (r\<lparr>registry := w\<rparr>) = abs_registry view r"
      by (intro prom_inv_world [OF inv] abs_world_same [OF inv], simp_all add: calculation)+
    ultimately show ?thesis
      using None c Inl healthy [OF inv, of k] by (simp add: slow_path_def grows_def)
  next
    case (Inr v)
    with cs have v: "ok k nm ls" "descs (view (registry r)) v = None" "view w = add_desc v nm ls (view (registry r))" by auto
    then have d: "descs (view w) v = Some (nm, ls)" by simp
    obtain g w' where g: "register api v w = (g, w')" by fastforce
    note gs = register_specD [OF registers [OF spec] d, unfolded g]
    show ?thesis
    proof (cases g)
      case (Inl e)
      with gs v(3) have w': "nm \<in> registered (view (registry r))" "view w' = view w" by auto
      have keep: "descs (view (registry r)) h = Some x \<Longrightarrow>
          descs (view w') h = Some x \<and> series (view w') h = series (view (registry r)) h" for h x
        using v(2,3) w'(2) by auto
      have "prom_inv view (r\<lparr>registry := w'\<rparr>)" "abs_registry view (r\<lparr>registry := w'\<rparr>) = abs_registry view r"
        using keep w'(2) v(3) by (intro prom_inv_world [OF inv] abs_world_same [OF inv], simp_all)+
      then show ?thesis
        using None c \<open>c = Inr v\<close> g Inl healthy [OF inv, of k] registered_taken [OF inv w'(1) None]
        by (auto simp: slow_path_def grows_def)
    next
      case (Inr u)
      with gs v(3) have w': "nm \<notin> registered (view (registry r))"
        "view w' = (add_desc v nm ls (view (registry r)))\<lparr>registered := insert nm (registered (view (registry r)))\<rparr>" by auto
      note en = abs_enrolled [OF inv w'(1) v(2) w'(2), of k]
      have "cache_of k' r nm = None" for k'
        using prom_invD(2) [OF inv] w'(1) by (metis not_None_eq)
      then have "grows view r (store_of k nm v (r\<lparr>registry := w'\<rparr>))"
        using en unfolding grows_def by (auto simp: map_le_def)
      then show ?thesis
        using None c \<open>c = Inr v\<close> g Inr healthy [OF inv, of k] en by (simp add: slow_path_def)
    qed
  qed
qed

lemma apply_effect:
  assumes spec: "prom_spec view ok api" and inv: "prom_inv view r"
    and adm: "admissible (metric_kind e) (sample e)" and v: "cache_of (metric_kind e) r (name e) = Some v"
  shows "\<exists>ls. families (abs_registry view r) (name e) = Some (metric_kind e, ls) \<and>
    (case apply_of (metric_kind e) api v (map snd (labels e)) (sample e) (registry r) of
       (Ret u, w) \<Rightarrow> length (labels e) = length ls \<and> prom_inv view (r\<lparr>registry := w\<rparr>) \<and>
         abs_registry view (r\<lparr>registry := w\<rparr>) = abs_sample e (abs_registry view r)
     | (Panicked p, w) \<Rightarrow> length (labels e) \<noteq> length ls \<and> p = LabelCardinality \<and> prom_inv view (r\<lparr>registry := w\<rparr>) \<and>
         abs_registry view (r\<lparr>registry := w\<rparr>) = abs_registry view r)"
proof -
  obtain ls where ls: "families (abs_registry view r) (name e) = Some (metric_kind e, ls)"
    "descs (view (registry r)) v = Some (name e, ls)" using abs_family [OF inv v] by blast
  have c: "collector r (name e) = Some (metric_kind e, v)" using v by (simp add: collector_iff [OF inv])
  obtain res w where a: "apply_of (metric_kind e) api v (map snd (labels e)) (sample e) (registry r) = (res, w)"
    by fastforce
  note as = observe_specD [OF applies [OF spec] ls(2) adm, of "map snd (labels e)", unfolded a]
  show ?thesis
  proof (cases res)
    case (Ret u)
    then have w: "view w = add_sample v (map snd (labels e)) (sample e) (view (registry r))" and "length (labels e) = length ls"
      using as by auto
    moreover have "prom_inv view (r\<lparr>registry := w\<rparr>)" by (intro prom_inv_world [OF inv]) (simp_all add: w)
    ultimately show ?thesis using ls(1) a Ret abs_add_sample [OF inv c w] by auto
  next
    case (Panicked p)
    then have w: "view w = view (registry r)" using as by simp
    then have "prom_inv view (r\<lparr>registry := w\<rparr>)" "abs_registry view (r\<lparr>registry := w\<rparr>) = abs_registry view r"
      by (intro prom_inv_world [OF inv] abs_world_same [OF inv], simp_all)+
    then show ?thesis using ls(1) a Panicked as by auto
  qed
qed

section \<open>The invariant\<close>

text \<open>What the fate of a finished call says about the families.\<close>

fun fate_ok ::
  "(metric_type \<Rightarrow> rstr \<Rightarrow> rstr list \<Rightarrow> bool) \<Rightarrow> prom_abs \<Rightarrow> metric_entry \<Rightarrow> update_fate \<Rightarrow> bool" where
  "fate_ok ok A e Applied \<longleftrightarrow>
     (\<exists>ls. families A (name e) = Some (metric_kind e, ls) \<and> length (labels e) = length ls)"
| "fate_ok ok A e Skipped \<longleftrightarrow> unusable ok e A"
| "fate_ok ok A e (Unwinding p) \<longleftrightarrow> p = LabelCardinality \<and>
     (\<exists>ls. families A (name e) = Some (metric_kind e, ls) \<and> length (labels e) \<noteq> length ls)"

fun pc_ok :: "('pw, 'h) prom_registry \<Rightarrow> 'h update_pc \<Rightarrow> bool" where
  "pc_ok r (Looking e) \<longleftrightarrow> admissible (metric_kind e) (sample e)"
| "pc_ok r (Registering e) \<longleftrightarrow> admissible (metric_kind e) (sample e)"
| "pc_ok r (Applying e v) \<longleftrightarrow>
     admissible (metric_kind e) (sample e) \<and> cache_of (metric_kind e) r (name e) = Some v"

lemma fate_ok_grows: "grows view r r' \<Longrightarrow> fate_ok ok (abs_registry view r) e f \<Longrightarrow> fate_ok ok (abs_registry view r') e f"
  by (cases f) (fastforce simp: grows_def unusable_def map_le_def dom_def)+

lemma pc_ok_grows: "grows view r r' \<Longrightarrow> pc_ok r pc \<Longrightarrow> pc_ok r' pc"
  by (cases pc) (auto simp: grows_def)

definition sampled :: "prom_abs \<Rightarrow> metric_entry list \<Rightarrow> rstr \<Rightarrow> rstr list \<Rightarrow> f64 list" where
  "sampled A es nm vs =
     samples A nm vs @ map sample (filter (\<lambda>e. name e = nm \<and> map snd (labels e) = vs) es)"

lemma sampled_simps [simp]: "sampled A [] = samples A"
  by (simp add: sampled_def fun_eq_iff)

lemma sampled_snoc: "samples A' = sampled A [e] \<Longrightarrow> samples A = sampled A0 es \<Longrightarrow> samples A' = sampled A0 (es @ [e])"
  by (simp add: sampled_def fun_eq_iff)

lemma update_step_effect:
  assumes spec: "prom_spec view ok api" and inv: "prom_inv view r" and pc: "pc_ok r pc"
    and step: "update_step api pc r = (res, r')"
  shows "prom_inv view r' \<and> grows view r r' \<and>
    samples (abs_registry view r') = sampled (abs_registry view r) (if res = Inl Applied then [subject pc] else []) \<and>
    (case res of Inl f \<Rightarrow> fate_ok ok (abs_registry view r') (subject pc) f
     | Inr pc' \<Rightarrow> subject pc' = subject pc \<and> pc_ok r' pc')"
proof (cases pc)
  case (Looking e)
  have "match_of k v names" for k :: metric_type and v :: 'b and names
    by (cases k) (simp_all add: label_names_match_def gauge_labels_match_def histogram_labels_match_def)
  then show ?thesis
    using Looking step pc inv healthy [OF inv, of "metric_kind e"]
    by (auto simp: fast_path_def grows_refl split: option.splits)
next
  case (Registering e)
  show ?thesis
    using slow_path_effect [OF spec inv, where k = "metric_kind e" and nm = "name e" and ls = "map fst (labels e)"] step pc Registering
    by (auto simp: unusable_def split: prod.splits option.splits)
next
  case (Applying e v)
  have adm: "admissible (metric_kind e) (sample e)" "cache_of (metric_kind e) r (name e) = Some v"
    using pc Applying by simp_all
  obtain x w where a: "apply_of (metric_kind e) api v (map snd (labels e)) (sample e) (registry r) = (x, w)" by fastforce
  note ae = apply_effect [OF spec inv adm, unfolded a]
  show ?thesis
  proof (cases x)
    case (Ret u)
    then have "res = Inl Applied" "r' = r\<lparr>registry := w\<rparr>" using step Applying a by simp_all
    moreover have "samples (abs_sample e A) = sampled A [e]" for A
      by (simp add: abs_sample_def sampled_def fun_eq_iff)
    moreover have "families (abs_sample e A) = families A" for A by (simp add: abs_sample_def)
    ultimately show ?thesis using ae Ret Applying by (auto simp: grows_def)
  next
    case (Panicked p)
    then have "res = Inl (Unwinding p)" "r' = r\<lparr>registry := w\<rparr>" using step Applying a by simp_all
    then show ?thesis using ae Panicked Applying by (auto simp: grows_def)
  qed
qed

definition updater_ok ::
  "(metric_type \<Rightarrow> rstr \<Rightarrow> rstr list \<Rightarrow> bool) \<Rightarrow> ('pw \<Rightarrow> 'h prom_view) \<Rightarrow> ('pw, 'h) prom_registry \<Rightarrow> 'h updater \<Rightarrow> bool" where
  "updater_ok ok view r u \<longleftrightarrow>
     (\<forall>(e, f) \<in> set (u_past u). fate_ok ok (abs_registry view r) e f) \<and>
     (case u_now u of None \<Rightarrow> True | Some pc \<Rightarrow> pc_ok r pc) \<and>
     (\<forall>e \<in> set (u_todo u). admissible (metric_kind e) (sample e))"

lemma updater_ok_grows: "grows view r r' \<Longrightarrow> updater_ok ok view r u \<Longrightarrow> updater_ok ok view r' u"
  unfolding updater_ok_def by (auto intro: fate_ok_grows pc_ok_grows split: option.splits)

definition applied_by :: "'h updater \<Rightarrow> metric_entry list" where
  "applied_by u = map fst (filter (\<lambda>y. snd y = Applied) (u_past u))"

definition entries_of :: "'h updater \<Rightarrow> metric_entry list" where
  "entries_of u = map fst (u_past u) @ (case u_now u of None \<Rightarrow> [] | Some pc \<Rightarrow> [subject pc]) @ u_todo u"

definition updaters_inv ::
  "(metric_type \<Rightarrow> rstr \<Rightarrow> rstr list \<Rightarrow> bool) \<Rightarrow> ('pw \<Rightarrow> 'h prom_view) \<Rightarrow> prom_abs \<Rightarrow> (nat \<times> metric_entry) list
     \<Rightarrow> 'h updater list \<times> ('pw, 'h) prom_registry \<Rightarrow> bool" where
  "updaters_inv ok view A0 applied x \<longleftrightarrow>
     prom_inv view (snd x) \<and> families A0 \<subseteq>\<^sub>m families (abs_registry view (snd x)) \<and>
     samples (abs_registry view (snd x)) = sampled A0 (map snd applied) \<and>
     (\<forall>y \<in> set applied. fst y < length (fst x)) \<and>
     (\<forall>i < length (fst x). map snd (filter (\<lambda>y. fst y = i) applied) = applied_by (fst x ! i)) \<and>
     (\<forall>u \<in> set (fst x). updater_ok ok view (snd x) u)"

text \<open>One step of one thread: what it applied, and its own state.\<close>

lemma updater_step_effect:
  assumes spec: "prom_spec view ok api" and inv: "prom_inv view r" and u: "updater_ok ok view r u"
    and step: "updater_step api u r = (u', r')"
  shows "\<exists>es. prom_inv view r' \<and> grows view r r' \<and> length es \<le> 1 \<and>
    samples (abs_registry view r') = sampled (abs_registry view r) es \<and>
    applied_by u' = applied_by u @ es \<and> entries_of u' = entries_of u \<and> updater_ok ok view r' u'"
proof (cases "u_now u")
  case None
  then show ?thesis
    using step u inv
    by (intro exI [of _ "[]"])
       (auto simp: updater_step_def grows_refl applied_by_def entries_of_def updater_ok_def split: list.splits)
next
  case (Some pc)
  obtain res r1 where st: "update_step api pc r = (res, r1)" by fastforce
  have pc: "pc_ok r pc" using u Some by (simp add: updater_ok_def)
  note ef = update_step_effect [OF spec inv pc st]
  have r1: "r1 = r'" using step Some st by (auto simp: updater_step_def split: sum.splits)
  have grow: "updater_ok ok view r' u" using ef u updater_ok_grows r1 by blast
  show ?thesis
  proof (cases res)
    case (Inl f)
    then have "u' = u\<lparr>u_past := u_past u @ [(subject pc, f)], u_now := None\<rparr>"
      using step Some st by (simp add: updater_step_def)
    then show ?thesis
      using ef Inl grow r1 Some
      by (intro exI [of _ "if f = Applied then [subject pc] else []"])
         (auto simp: applied_by_def entries_of_def updater_ok_def)
  next
    case (Inr pc')
    then have "u' = u\<lparr>u_now := Some pc'\<rparr>" using step Some st by (simp add: updater_step_def)
    then show ?thesis
      using ef Inr grow r1 Some
      by (intro exI [of _ "[]"]) (auto simp: applied_by_def entries_of_def updater_ok_def)
  qed
qed

lemma map_le_trans_grows: "families A0 \<subseteq>\<^sub>m families (abs_registry view r) \<Longrightarrow> grows view r r' \<Longrightarrow>
    families A0 \<subseteq>\<^sub>m families (abs_registry view r')"
  unfolding grows_def by (meson map_le_trans)

lemma updaters_step_inv:
  assumes spec: "prom_spec view ok api" and inv: "updaters_inv ok view A0 applied x"
  shows "\<exists>applied'. updaters_inv ok view A0 applied' (updaters_step api ev x) \<and>
    map entries_of (fst (updaters_step api ev x)) = map entries_of (fst x)"
proof -
  obtain us r where x: "x = (us, r)" by fastforce
  have r: "prom_inv view r" using inv by (simp add: x updaters_inv_def)
  show ?thesis
  proof (cases "\<exists>i < length us. ev = Some i")
    case False
    then consider "updaters_step api ev x = x" | "updaters_step api ev x = (us, inc_dropped api r)"
      by (cases ev) (auto simp: updaters_step_def x)
    then show ?thesis
    proof cases
      case 1
      then show ?thesis using inv by auto
    next
      case 2
      have eq: "prom_inv view (inc_dropped api r)" "abs_registry view (inc_dropped api r) = abs_registry view r"
        using inc_dropped_refines [OF spec r] by simp_all
      moreover have "cache_of k (inc_dropped api r) = cache_of k r" for k by (simp add: inc_dropped_def)
      ultimately have "grows view r (inc_dropped api r)" by (simp add: grows_def)
      then have "\<forall>u \<in> set us. updater_ok ok view (inc_dropped api r) u"
        using inv unfolding x updaters_inv_def by (auto intro: updater_ok_grows)
      then show ?thesis using inv 2 eq by (intro exI [of _ applied]) (simp add: x updaters_inv_def)
    qed
  next
    case True
    then obtain i where i: "i < length us" "ev = Some i" by blast
    obtain u' r' where st: "updater_step api (us ! i) r = (u', r')" by fastforce
    have "updater_ok ok view r (us ! i)" using inv i(1) by (simp add: x updaters_inv_def)
    from updater_step_effect [OF spec r this st] obtain es where es: "prom_inv view r'" "grows view r r'" "length es \<le> 1"
      "samples (abs_registry view r') = sampled (abs_registry view r) es" "applied_by u' = applied_by (us ! i) @ es"
      "entries_of u' = entries_of (us ! i)" "updater_ok ok view r' u'" by blast
    let ?ap = "applied @ map (Pair i) es"
    have step: "updaters_step api ev x = (us[i := u'], r')" using i st by (simp add: updaters_step_def x)
    have s: "samples (abs_registry view r') = sampled A0 (map snd ?ap)"
      using es(4) inv by (simp add: x updaters_inv_def sampled_def fun_eq_iff comp_def)
    have "updaters_inv ok view A0 ?ap (us[i := u'], r')"
      unfolding updaters_inv_def fst_conv snd_conv
    proof (intro conjI ballI allI impI)
      fix y assume "y \<in> set ?ap"
      then show "fst y < length (us[i := u'])" using inv i(1) by (auto simp: x updaters_inv_def)
    next
      fix j assume j: "j < length (us[i := u'])"
      have "filter (\<lambda>y. fst y = j) (map (Pair i) es) = (if j = i then map (Pair i) es else [])"
        by (induction es) auto
      then show "map snd (filter (\<lambda>y. fst y = j) ?ap) = applied_by (us[i := u'] ! j)"
        using inv es(5) j by (simp add: x updaters_inv_def nth_list_update comp_def)
    next
      fix u assume "u \<in> set (us[i := u'])"
      then have "u = u' \<or> u \<in> set us" using set_update_subset_insert by fast
      then show "updater_ok ok view r' u"
        using es(2,7) inv unfolding x updaters_inv_def by (auto intro: updater_ok_grows)
    qed (use es(1,2) s inv in \<open>auto simp: x updaters_inv_def intro: map_le_trans_grows\<close>)
    moreover have "map entries_of (us[i := u']) = map entries_of us"
      using es(6) i(1) by (simp add: map_update list_update_same_conv)
    ultimately show ?thesis unfolding step unfolding x fst_conv by blast
  qed
qed

lemma updaters_run_inv:
  assumes "prom_spec view ok api" and "updaters_inv ok view A0 applied x"
  shows "\<exists>applied'. updaters_inv ok view A0 applied' (updaters_run api evs x) \<and>
    map entries_of (fst (updaters_run api evs x)) = map entries_of (fst x)"
  by (rule updating.run_keeps [of "\<lambda>y. \<exists>applied'. updaters_inv ok view A0 applied' y \<and>
      map entries_of (fst y) = map entries_of (fst x)"])
    (use updaters_step_inv [OF assms(1)] assms(2) in \<open>metis, blast\<close>)

lemma fresh_updaters_inv:
  assumes "prom_inv view r" and "list_all (list_all (\<lambda>e. admissible (metric_kind e) (sample e))) todos"
  shows "updaters_inv ok view (abs_registry view r) [] (fresh_updaters todos, r)"
    and "map entries_of (fresh_updaters todos) = todos"
  using assms
  by (auto simp: updaters_inv_def fresh_updaters_def updater_ok_def applied_by_def entries_of_def list_all_iff comp_def)

text \<open>
  When the entries of a name agree on its kind and label names, every finished call was
  applied.
\<close>

lemma agreeing_applied:
  assumes "fate_ok ok A e f" and "families A (name e) = Some (metric_kind e, map fst (labels e))"
    and "ok (metric_kind e) (name e) (map fst (labels e))" and "name e \<noteq> dropped_name"
  shows "f = Applied"
  using assms by (cases f) (auto simp: unusable_def)

section \<open>Properties\<close>


text \<open>
  Two threads record a counter nobody registered yet: both miss it in the fast path, and
  the second finds it in the slow path.
\<close>

definition demo_race :: "nat option list" where
  "demo_race = map Some [0, 1, 0, 1, 0, 1, 0, 1]"

lemma demo_race_outcome:
  assumes "prom_registry_new ref_prom [] = Inr r"
  shows "\<exists>r'. updaters_run ref_prom demo_race (fresh_updaters [[demo_entry []], [demo_entry []]], r) =
    (replicate 2 \<lparr>u_past = [(demo_entry [], Applied)], u_now = None, u_todo = []\<rparr>, r')"
proof -
  have ok: "ref_ok Counter (lit ''a'') []" "lit ''a'' \<noteq> dropped_name"
    by (simp_all add: ref_ok_def dropped_name_def str_eval)
  show ?thesis
    using assms ok
    by (auto simp: prom_registry_new_def ref_prom_def ref_create_def ref_register_def Let_def lock_new_def
        demo_race_def fresh_updaters_def updaters_step_def updater_step_def fast_path_def slow_path_def demo_entry_def
        label_names_match_def ref_apply_def ref_log_def numeral_2_eq_2 split: if_splits)
qed


end
