(* ===== verification/ExampleServer.thy ===== *)
theory ExampleServer
  imports Middleware Lifecycle
begin

text \<open>
  \<open>examples/axum_server.rs\<close>: a server built on the crate. Its configuration, its two
  handlers, the routes with the tracking layer around three of them, and what \<open>main\<close>
  does before it listens. Matching a path, extracting a query, listening and the timer are
  the framework's and are arguments; the tracing subscriber is log output.
\<close>

section \<open>Configuration\<close>

definition example_fjall :: fjall_config where
  "example_fjall = fjall_config_new [CurDir, Normal (lit ''data''), Normal (lit ''fjall'')]"

definition example_config :: "features \<Rightarrow> config" where
  "example_config f =
     (if fjall_backend f then with_fjall example_fjall default_light else default_light)"

section \<open>Handlers\<close>

record order_params =
  fail_param :: "u8 option"

definition text_response :: "u16 \<Rightarrow> rstr \<Rightarrow> http_response" where
  "text_response st body = \<lparr>r_status = st, r_type = None, r_body = body\<rparr>"

definition hello ::
  "('pw, 'h, 'c, 'p) deps \<Rightarrow> int \<times> int \<Rightarrow> ('pw, 'h, 'c, 'p) process
     \<Rightarrow> http_response fut \<times> ('pw, 'h, 'c, 'p) process" where
  "hello d now s =
     (case counter_macro d (fst now) (lit ''greetings_total'') (Fin 1) (Idents [(lit ''route'', lit ''/'')]) s of
        (Panicked p, s1) \<Rightarrow> (Unwound p, s1)
      | (Ret _, s1) \<Rightarrow>
          (case gauge_macro d (snd now) (lit ''active_sessions'') (Fin 7) (Idents [(lit ''region'', lit ''eu'')]) s1 of
             (Panicked p, s2) \<Rightarrow> (Unwound p, s2)
           | (Ret _, s2) \<Rightarrow> (Done (text_response 200 (lit ''hello from tonggeret'')), s2)))"

text \<open>
  \<open>woken\<close> says whether the timer fired before the request was dropped, and \<open>worked\<close>
  what the clock read since the start.
\<close>

definition create_order ::
  "('pw, 'h, 'c, 'p) deps \<Rightarrow> float_env \<Rightarrow> int \<times> int \<Rightarrow> bool \<Rightarrow> nat \<times> nat \<Rightarrow> order_params
     \<Rightarrow> ('pw, 'h, 'c, 'p) process \<Rightarrow> http_response fut \<times> ('pw, 'h, 'c, 'p) process" where
  "create_order d fe now woken worked q s =
     (if \<not> woken then (Dropped, s)
      else if (case fail_param q of None \<Rightarrow> 0 | Some f \<Rightarrow> f) = 1
      then (case counter_macro d (fst now) (lit ''orders_total'') (Fin 1)
                   (Idents [(lit ''route'', lit ''/orders''), (lit ''status'', lit ''error'')]) s of
              (Panicked p, s1) \<Rightarrow> (Unwound p, s1)
            | (Ret _, s1) \<Rightarrow> (Done (text_response 500 (lit ''order failed'')), s1))
      else (case counter_macro d (fst now) (lit ''orders_total'') (Fin 1)
                   (Idents [(lit ''route'', lit ''/orders''), (lit ''status'', lit ''ok'')]) s of
              (Panicked p, s1) \<Rightarrow> (Unwound p, s1)
            | (Ret _, s1) \<Rightarrow>
                (case histogram_macro d (snd now) (lit ''db_query_ms'') (elapsed_ms fe worked)
                        (Idents [(lit ''table'', lit ''orders'')]) s1 of
                   (Panicked p, s2) \<Rightarrow> (Unwound p, s2)
                 | (Ret _, s2) \<Rightarrow> (Done (text_response 200 (lit ''order created'')), s2))))"

section \<open>Routes\<close>

text \<open>
  What one request meets: the clock readings of its handler and of the tracking layer, the
  timer, and the answer of the query extractor, which rejects a query with a response of its
  own.
\<close>

record visit =
  handler_clock :: "int \<times> int"
  layer_clock :: "int \<times> int"
  timer_fired :: bool
  time_worked :: "nat \<times> nat"
  time_taken :: "nat \<times> nat"
  query_params :: "http_response + order_params"

definition on_process ::
  "(('pw, 'h, 'c, 'p) process \<Rightarrow> 'resp fut \<times> ('pw, 'h, 'c, 'p) process)
     \<Rightarrow> 'req \<Rightarrow> ('pw, 'h, 'c, 'p) app \<Rightarrow> 'resp fut \<times> ('pw, 'h, 'c, 'p) app" where
  "on_process f req st = (case st of (g, s) \<Rightarrow> (case f s of (r, s') \<Rightarrow> (r, g, s')))"

definition orders_endpoint ::
  "('pw, 'h, 'c, 'p) deps \<Rightarrow> float_env \<Rightarrow> visit \<Rightarrow> ('pw, 'h, 'c, 'p) process
     \<Rightarrow> http_response fut \<times> ('pw, 'h, 'c, 'p) process" where
  "orders_endpoint d fe v s =
     (case query_params v of
        Inl rejection \<Rightarrow> (Done rejection, s)
      | Inr q \<Rightarrow> create_order d fe (handler_clock v) (timer_fired v) (time_worked v) q s)"

type_synonym ('hv, 'b, 'pw, 'h, 'c, 'p) endpoint =
  "('hv, 'b) http_request \<Rightarrow> ('pw, 'h, 'c, 'p) app \<Rightarrow> http_response fut \<times> ('pw, 'h, 'c, 'p) app"

text \<open>The layer wraps the routes added before it; the export route is merged after it.\<close>

definition example_routes ::
  "('pw, 'h, 'c, 'p) deps \<Rightarrow> float_env \<Rightarrow> ('w, 'fs) parquet_api
     \<Rightarrow> (path \<Rightarrow> ('hv, 'b) http_request \<Rightarrow> http_response) \<Rightarrow> 'fs \<Rightarrow> visit
     \<Rightarrow> (rstr \<times> ('hv, 'b, 'pw, 'h, 'c, 'p) endpoint) list" where
  "example_routes d fe pq serve_file fs v =
     map (apsnd (axum_track d fe (layer_clock v) (time_taken v) r_status))
       [(lit ''/'', on_process (hello d (handler_clock v))),
        (lit ''/orders'', on_process (orders_endpoint d fe v)),
        (lit ''/metrics'', on_process (\<lambda>s. (Done (axum_prometheus_handler d s), s)))]
     @ (if fjall_backend (ft d)
        then map (\<lambda>(p, m, h). (p, \<lambda>req st. (Done (h fs req), st)))
          (parquet_route pq serve_file (cold_dir example_fjall))
        else [])"

text \<open>A \<open>GET\<close> of a known path, with the matched template in the request.\<close>

definition example_serve ::
  "(rstr \<times> ('hv, 'b, 'pw, 'h, 'c, 'p) endpoint) list \<Rightarrow> rstr
     \<Rightarrow> ('hv, 'b) http_request \<Rightarrow> ('pw, 'h, 'c, 'p) app
     \<Rightarrow> (http_response fut \<times> ('pw, 'h, 'c, 'p) app) option" where
  "example_serve routes tmpl req st =
     map_option (\<lambda>h. h (req\<lparr>route := Some tmpl\<rparr>) st) (map_of routes tmpl)"

text \<open>
  \<open>main\<close>: an error of \<open>init\<close> or of binding the listener ends the program before it
  serves anything.
\<close>

definition example_main ::
  "('pw, 'h, 'c, 'p) deps \<Rightarrow> ('k, 'p, 'fs) storage_api \<Rightarrow> init_env \<Rightarrow> rstr option
     \<Rightarrow> ('pw, 'h, 'c, 'p) process \<times> 'fs
     \<Rightarrow> ((error + rstr) + unit) \<times> ('pw, 'h, 'c, 'p) process \<times> 'fs" where
  "example_main d sa env bind_error st =
     (case init d sa env (example_config (ft d)) st of
        (Inl e, st') \<Rightarrow> (Inl (Inl e), st')
      | (Inr _, st') \<Rightarrow>
          (case bind_error of
             Some e \<Rightarrow> (Inl (Inr e), st')
           | None \<Rightarrow> (Inr (), st')))"

section \<open>What a request records\<close>

fun record_all ::
  "('pw, 'h, 'c, 'p) deps \<Rightarrow> metric_entry list \<Rightarrow> ('pw, 'h, 'c, 'p) process
     \<Rightarrow> unit res \<times> ('pw, 'h, 'c, 'p) process" where
  "record_all d [] s = (Ret (), s)"
| "record_all d (e # es) s =
     (case global_record d e s of
        (Panicked p, s1) \<Rightarrow> (Panicked p, s1)
      | (Ret _, s1) \<Rightarrow> record_all d es s1)"

definition greeting :: "int \<Rightarrow> metric_entry" where
  "greeting t = \<lparr>timestamp = t, name = lit ''greetings_total'', sample = Fin 1, metric_kind = Counter,
     labels = [(lit ''route'', lit ''/'')]\<rparr>"

definition sessions :: "int \<Rightarrow> metric_entry" where
  "sessions t = \<lparr>timestamp = t, name = lit ''active_sessions'', sample = Fin 7, metric_kind = Gauge,
     labels = [(lit ''region'', lit ''eu'')]\<rparr>"

definition order_count :: "int \<Rightarrow> rstr \<Rightarrow> metric_entry" where
  "order_count t st = \<lparr>timestamp = t, name = lit ''orders_total'', sample = Fin 1, metric_kind = Counter,
     labels = [(lit ''route'', lit ''/orders''), (lit ''status'', st)]\<rparr>"

definition query_timing :: "int \<Rightarrow> f64 \<Rightarrow> metric_entry" where
  "query_timing t ms = \<lparr>timestamp = t, name = lit ''db_query_ms'', sample = ms, metric_kind = Histogram,
     labels = [(lit ''table'', lit ''orders'')]\<rparr>"

text \<open>The samples of an order, and its response.\<close>

definition order_outcome :: "float_env \<Rightarrow> visit \<Rightarrow> order_params \<Rightarrow> metric_entry list \<times> http_response" where
  "order_outcome fe v q =
     (if fail_param q = Some 1
      then ([order_count (fst (handler_clock v)) (lit ''error'')], text_response 500 (lit ''order failed''))
      else ([order_count (fst (handler_clock v)) (lit ''ok''),
             query_timing (snd (handler_clock v)) (elapsed_ms fe (time_worked v))],
            text_response 200 (lit ''order created'')))"

text \<open>Recording samples and answering; a panic on the way unwinds.\<close>

definition recording ::
  "('pw, 'h, 'c, 'p) deps \<Rightarrow> metric_entry list \<Rightarrow> 'resp \<Rightarrow> ('pw, 'h, 'c, 'p) process
     \<Rightarrow> 'resp fut \<times> ('pw, 'h, 'c, 'p) process" where
  "recording d es resp s =
     (case record_all d es s of
        (Ret _, s') \<Rightarrow> (Done resp, s')
      | (Panicked p, s') \<Rightarrow> (Unwound p, s'))"

definition tracked ::
  "('pw, 'h, 'c, 'p) deps \<Rightarrow> float_env \<Rightarrow> visit \<Rightarrow> rstr \<Rightarrow> rstr \<Rightarrow> metric_entry list \<Rightarrow> http_response
     \<Rightarrow> ('pw, 'h, 'c, 'p) app \<Rightarrow> http_response fut \<times> ('pw, 'h, 'c, 'p) app" where
  "tracked d fe v mthd tmpl es resp st =
     on_process (recording d (es @
       [request_count (fst (layer_clock v)) mthd tmpl (r_status resp),
        request_timing (snd (layer_clock v)) mthd tmpl (elapsed_ms fe (time_taken v))]) resp) () st"

section \<open>Facts\<close>

lemma record_all_append:
  "record_all d (es @ es') s =
     (case record_all d es s of
        (Panicked p, s1) \<Rightarrow> (Panicked p, s1)
      | (Ret _, s1) \<Rightarrow> record_all d es' s1)"
  by (induction es arbitrary: s) (simp_all split: prod.split res.split)

lemma record_literal:
  assumes "valid_name nm" "list_all clean_key ls" "list_all (\<lambda>kv. is_ascii (snd kv) \<and> length (snd kv) \<le> 256) ls" "length ls \<le> 16"
  shows "record_metric mt d now nm v ls s =
    global_record d \<lparr>timestamp = now, name = nm, sample = v, metric_kind = mt, labels = ls\<rparr> s"
proof -
  have "map (apsnd (cut_to 256)) ls = ls"
    using assms(3) by (intro map_idI) (auto simp: list_all_iff cut_to_def str_len_ascii)
  moreover have "list_all (\<lambda>kv. has_cut 256 (snd kv)) ls"
    using assms(3) by (auto simp: list_all_iff has_cut_ascii)
  ultimately show ?thesis using record_metric_clean [OF assms(1,2) _ assms(4), of mt d now v s] by simp
qed

lemma example_names [simp]:
  "valid_name (lit ''greetings_total'')" "valid_name (lit ''active_sessions'')" "valid_name (lit ''orders_total'')"
  "valid_name (lit ''db_query_ms'')" "valid_name (lit ''route'')" "valid_name (lit ''region'')"
  "valid_name (lit ''status'')" "valid_name (lit ''table'')"
  by (simp_all add: lit_def name_char_ok_def name_tail_ok_def ascii_defs)

lemma hello_records:
  "hello d now s = recording d [greeting (fst now), sessions (snd now)] (text_response 200 (lit ''hello from tonggeret'')) s"
proof -
  have "record_metric Counter d (fst now) (lit ''greetings_total'') (Fin 1) [(lit ''route'', lit ''/'')] s =
      global_record d (greeting (fst now)) s" for s :: "('a, 'b, 'c, 'd) process"
    unfolding greeting_def by (rule record_literal) (simp_all add: clean_key_def, simp_all add: lit_def is_ascii_iff)
  moreover have "record_metric Gauge d (snd now) (lit ''active_sessions'') (Fin 7) [(lit ''region'', lit ''eu'')] s =
      global_record d (sessions (snd now)) s" for s :: "('a, 'b, 'c, 'd) process"
    unfolding sessions_def by (rule record_literal) (simp_all add: clean_key_def, simp_all add: lit_def is_ascii_iff)
  ultimately show ?thesis
    by (simp add: hello_def counter_macro_def gauge_macro_def record_counter_def record_gauge_def recording_def
        split: prod.split res.split)
qed

lemma order_records:
  "create_order d fe now True worked q s =
    (if fail_param q = Some 1
     then recording d [order_count (fst now) (lit ''error'')] (text_response 500 (lit ''order failed'')) s
     else recording d [order_count (fst now) (lit ''ok''), query_timing (snd now) (elapsed_ms fe worked)]
       (text_response 200 (lit ''order created'')) s)"
proof -
  have "record_metric Counter d (fst now) (lit ''orders_total'') (Fin 1)
      [(lit ''route'', lit ''/orders''), (lit ''status'', st)] s = global_record d (order_count (fst now) st) s"
    if "st = lit ''error'' \<or> st = lit ''ok''" for st and s :: "('a, 'b, 'c, 'd) process"
    unfolding order_count_def
    by (rule record_literal) (use that in \<open>simp_all add: clean_key_def\<close>, (use that in \<open>auto simp: lit_def is_ascii_iff\<close>)+)
  moreover have "record_metric Histogram d (snd now) (lit ''db_query_ms'') ms [(lit ''table'', lit ''orders'')] s =
      global_record d (query_timing (snd now) ms) s" for ms and s :: "('a, 'b, 'c, 'd) process"
    unfolding query_timing_def by (rule record_literal) (simp_all add: clean_key_def, simp_all add: lit_def is_ascii_iff)
  ultimately show ?thesis
    by (simp add: create_order_def counter_macro_def histogram_macro_def record_counter_def record_histogram_def
        recording_def split: prod.split res.split option.split)
qed

text \<open>The tracking layer around a handler that records some samples and answers.\<close>

lemma layer_records:
  assumes "has_cut 256 (http_method req)" "is_ascii tmpl"
  shows "axum_track d fe (layer_clock v) (time_taken v) r_status (on_process (recording d es resp))
      (req\<lparr>route := Some tmpl\<rparr>) st = tracked d fe v (http_method req) tmpl es resp st"
  using assms(1) has_cut_ascii [OF assms(2)]
  by (simp add: axum_track_def tracked_def on_process_def recording_def record_all_append axum_observe_eq
      split: prod.split res.split)

lemma recording_nothing: "recording d [] resp = Pair (Done resp)"
  by (simp add: fun_eq_iff recording_def)

lemma layer_reads:
  assumes "has_cut 256 (http_method req)" "is_ascii tmpl"
  shows "axum_track d fe (layer_clock v) (time_taken v) r_status (on_process (\<lambda>s. (Done (f s), s)))
      (req\<lparr>route := Some tmpl\<rparr>) (g, s) = tracked d fe v (http_method req) tmpl [] (f s) (g, s)"
  using layer_records [OF assms, of d fe v "[]" "f s" "(g, s)"]
  by (simp add: axum_track_def on_process_def recording_nothing)

text \<open>The configuration passes validation with and without the store.\<close>

lemma example_config_valid:
  "config_validate f (example_config f) = Inr ()"
  using usable_default [of "[CurDir, Normal (lit ''data''), Normal (lit ''fjall'')]"]
  by (simp add: config_validate_iff example_config_def with_fjall_def default_light_def prometheus_config_default_def
      example_fjall_def)

lemma example_cold_dir: "cold_dir example_fjall = [CurDir, Normal (lit ''data'')]"
  by (simp add: example_fjall_def cold_dir_def fjall_config_new_def fjall_config_default_def path_parent_def)

text \<open>
  \<open>main\<close> gets to serving when the store opens and the thread can be spawned; without the
  store nothing can keep it from it.
\<close>

lemma example_main_starts:
  assumes "prom_spec pv ok (prom d)" "global s = None" "spawn_error env = None"
    and "open_handles sa example_fjall fs = (Inr p, fs')"
  shows "\<exists>s'. example_main d sa env None (s, fs) = (Inr (), s', if fjall_backend (ft d) then fs' else fs) \<and>
    is_initialized s'"
proof -
  note valid = example_config_valid [of "ft d"]
  have "\<exists>h opened. prepare d sa (example_config (ft d)) fs = (Inr (h, opened), if fjall_backend (ft d) then fs' else fs)"
  proof (cases "fjall_backend (ft d)")
    case True
    then have "fjall (example_config (ft d)) = Some example_fjall" by (simp add: example_config_def with_fjall_def)
    from prepare_opens [OF assms(1) valid True this, of sa fs] show ?thesis using True assms(4) by simp
  next
    case False
    obtain r where "prom_registry_new (prom d) (default_histogram_buckets (prometheus (example_config (ft d)))) = Inr r"
      using prom_registry_new_ok [OF assms(1)] by blast
    then have "\<exists>h. engine_handle_new d (example_config (ft d)) = Inr h"
      by (cases "prometheus_exporter (ft d)") (simp_all add: engine_handle_new_def)
    then show ?thesis using False by (auto simp: prepare_def valid init_storage_def)
  qed
  then obtain h opened where prep: "prepare d sa (example_config (ft d)) fs = (Inr (h, opened), if fjall_backend (ft d) then fs' else fs)"
    by blast
  show ?thesis
    using assms(2,3)
    by (simp add: example_main_def init_prepare prep init_writer_cases [OF prep] is_initialized_def split: option.split)
qed

section \<open>Properties\<close>

text \<open>
  C16: what the example server records for a request and how it answers. A greeting records
  its counter and its gauge, an order its counter and, unless it was asked to fail, the
  timing of its query, a scrape nothing; then the tracking layer counts the request with its
  status and times it, in this order. An order dropped before its timer fired records
  nothing at all, and neither does a download of an export, which is routed past the layer.
\<close>

theorem example_requests_recorded:
  fixes d :: "('pw, 'h, 'c, 'p) deps" and s :: "('pw, 'h, 'c, 'p) process"
  assumes "has_cut 256 (http_method req)"
  shows "example_serve (example_routes d fe pq serve_file fs v) (lit ''/'') req (g, s) =
      Some (tracked d fe v (http_method req) (lit ''/'')
        [greeting (fst (handler_clock v)), sessions (snd (handler_clock v))]
        (text_response 200 (lit ''hello from tonggeret'')) (g, s)) \<and>
    example_serve (example_routes d fe pq serve_file fs v) (lit ''/orders'') req (g, s) =
      Some (case query_params v of
          Inl rejection \<Rightarrow> tracked d fe v (http_method req) (lit ''/orders'') [] rejection (g, s)
        | Inr q \<Rightarrow>
            if timer_fired v
            then tracked d fe v (http_method req) (lit ''/orders'') (fst (order_outcome fe v q)) (snd (order_outcome fe v q)) (g, s)
            else (Dropped, g, s)) \<and>
    example_serve (example_routes d fe pq serve_file fs v) (lit ''/metrics'') req (g, s) =
      Some (tracked d fe v (http_method req) (lit ''/metrics'') [] (axum_prometheus_handler d s) (g, s)) \<and>
    example_serve (example_routes d fe pq serve_file fs v) (lit ''/telemetry/parquet'') req (g, s) =
      (if fjall_backend (ft d)
       then Some (Done (serve_latest pq serve_file [CurDir, Normal (lit ''data'')] fs
         (req\<lparr>route := Some (lit ''/telemetry/parquet'')\<rparr>)), g, s)
       else None)"
proof -
  have ascii: "is_ascii (lit ''/'')" "is_ascii (lit ''/orders'')" "is_ascii (lit ''/metrics'')"
    by (simp_all add: lit_def is_ascii_iff)
  have distinct: "lit ''/orders'' \<noteq> lit ''/''" "lit ''/metrics'' \<noteq> lit ''/''" "lit ''/metrics'' \<noteq> lit ''/orders''"
    "lit ''/telemetry/parquet'' \<noteq> lit ''/''" "lit ''/telemetry/parquet'' \<noteq> lit ''/orders''"
    "lit ''/telemetry/parquet'' \<noteq> lit ''/metrics''"
    by (simp_all add: lit_def)
  have greet: "hello d (handler_clock v) = recording d [greeting (fst (handler_clock v)), sessions (snd (handler_clock v))]
      (text_response 200 (lit ''hello from tonggeret''))"
    by (rule ext) (rule hello_records)
  have order: "orders_endpoint d fe v = (case query_params v of
      Inl rejection \<Rightarrow> recording d [] rejection
    | Inr q \<Rightarrow> if timer_fired v then recording d (fst (order_outcome fe v q)) (snd (order_outcome fe v q)) else Pair Dropped)"
    by (rule ext) (simp add: orders_endpoint_def order_records order_outcome_def recording_nothing
        create_order_def [of d fe _ False] split: sum.split)
  have dropped: "axum_track d fe (layer_clock v) (time_taken v) r_status (on_process (Pair (Dropped :: http_response fut)))
      (req\<lparr>route := Some (lit ''/orders'')\<rparr>) (g, s) = (Dropped, g, s)"
    by (simp add: axum_track_def on_process_def)
  show ?thesis
    using distinct dropped
    by (simp add: example_serve_def example_routes_def parquet_route_def example_cold_dir greet order
        layer_records [OF assms] layer_reads [OF assms] ascii split: sum.split)
qed

definition demo_visit :: visit where
  "demo_visit = \<lparr>handler_clock = (1, 2), layer_clock = (3, 4), timer_fired = True, time_worked = (0, 12000000),
     time_taken = (0, 13000000), query_params = Inr \<lparr>fail_param = None\<rparr>\<rparr>"

theorem example_requests_recorded_witness:
  "example_serve (example_routes demo_deps exact_floats demo_dir (\<lambda>p _. text_response 200 (path_display p))
      Map.empty demo_visit) (lit ''/orders'') (demo_request None []) (None, process_start) =
    Some (Done (text_response 200 (lit ''order created'')), None, process_start)"
proof -
  have "has_cut 256 (http_method (demo_request None []))" by (simp add: demo_request_def lit_def has_cut_ascii)
  from example_requests_recorded [OF this, of demo_deps exact_floats demo_dir
      "\<lambda>p _. text_response 200 (path_display p)" Map.empty demo_visit None process_start]
  show ?thesis
    by (simp add: demo_visit_def order_outcome_def tracked_def on_process_def recording_def
        global_record_noop process_start_def)
qed

end
