(* ===== verification/Spec2Isabelle.thy ===== *)
theory Spec2Isabelle
  imports Pipeline Middleware Schedules Passes Progress Starting Registration ExampleServer
begin

text \<open>
  The \<open>tonggeret\<close> crate: telemetry whose observations go to a Prometheus registry and,
  over a bounded channel, to a writer thread that stores them in an embedded Fjall
  keyspace; a compaction task moves expired samples to Parquet files; visitors are counted
  per region with HyperLogLog sketches; middlewares feed requests in.

  \<^bold>\<open>Theories and source files.\<close>
  \<^item> \<open>Prelude\<close>: machine integers, panics (\<open>res\<close>), locks with poisoning, list and word
    lemmas, and the locale \<open>event_system\<close> for systems that a list of events drives:
    invariants and measures along a run, interpreted in \<open>Threads\<close>, \<open>Registration\<close>,
    \<open>Starting\<close> and \<open>Passes\<close>. \<open>RustStr\<close>: strings as lists of
    characters, with the byte lengths, byte cuts and UTF-8 of Rust.
  \<^item> \<open>Types\<close> (\<open>types.rs\<close>, \<open>error.rs\<close>): entries and their sanitizing; what is kept, where
    it is cut, and when the cut panics. Sanitized entries are fixed points.
  \<^item> \<open>Config\<close> (\<open>config.rs\<close>): configurations, presets, paths and the exact validation.
  \<^item> \<open>KeyCodec\<close>, \<open>ValueCodec\<close> (\<open>storage/fjall_engine.rs\<close>, \<open>decode_value\<close> of
    \<open>storage/parquet_exporter.rs\<close>): composite keys and JSON payloads. The locale
    \<open>timed_key_codec\<close> states what the store relies on (decoding, chronological order, the
    scan bound) and is interpreted on the code as \<open>fjall_key\<close>.
  \<^item> \<open>PromRegistry\<close> (\<open>prometheus.rs\<close>): the registry with its caches and locks, a refinement
    of an abstract registry of families and samples. The locale \<open>collector_family\<close>
    carries the proof once for counters, gauges and histograms. \<open>Registration\<close>: its
    updates on several threads, each lookup, registration and application a step.
  \<^item> \<open>Interfaces\<close>: the operations of the channel and of the keyspace that the code calls,
    what they promise, and a reference implementation of each.
  \<^item> \<open>Writer\<close> (\<open>writer_loop\<close> and what it calls): turns, batches and sequence numbers.
  \<^item> \<open>Engine\<close>, \<open>Lifecycle\<close>, \<open>Pipeline\<close> (\<open>engine.rs\<close>, macros of \<open>lib.rs\<close>): the handle and
    the hot path; \<open>init\<close>, the compaction task's start and \<open>shutdown\<close> over the statics,
    the record \<open>process\<close>; interleavings of records and writer turns (\<open>pipe_reach\<close>) and
    their invariant, that accepted samples are the stored ones followed by the queued ones.
    \<open>Starting\<close>: several calls of \<open>init\<close> at once, each use of a static, the store or the
    runtime a step, among records; one call owns the engine.
  \<^item> \<open>Compaction\<close> (\<open>storage/parquet_exporter.rs\<close>): a pass with its batches and its file, the
    background loop, the newest export. The invariant \<open>pass_inv\<close> says which scanned pairs
    are written and removed and which are buffered.
  \<^item> \<open>Hll\<close>, \<open>Visitors\<close> (\<open>visitors.rs\<close>): the sketch (locale \<open>sketch\<close>, interpreted as
    \<open>hll_sketch\<close>: a function of the set of hashes), regions, the tracker with its cap and
    lock, the snapshot task.
  \<^item> \<open>Middleware\<close> (\<open>middleware/axum.rs\<close>, \<open>middleware/actix.rs\<close>): request tracking,
    visitor tracking, scrape handlers and the export route; actix's services are records,
    and the layers on them functions between services. \<open>ExampleServer\<close>
    (\<open>examples/axum_server.rs\<close>): the server in the repository, handlers, routes and start.
  \<^item> \<open>Rows\<close>: which row a stored sample becomes, for the compositions below.
  \<^item> \<open>Threads\<close> (\<open>EngineHandle::record\<close>, \<open>shutdown\<close>, \<open>writer_loop\<close>,
    \<open>run_compaction_once_blocking\<close>): the same functions as step functions over program
    counters, one operation on shared state at a time, and a system of recording threads,
    the writer, one \<open>shutdown\<close> and a pass that any list of events schedules.
    \<open>Schedules\<close>: the functions of the other theories are schedules of it.
  \<^item> \<open>Accounting\<close>: the invariant \<open>sys_inv\<close> of every schedule, that each recorded sample is
    inserted, in the writer's batch, queued, counted as dropped, or among the few that a
    racing \<open>shutdown\<close> loses. \<open>Durability\<close>: what compaction makes of the inserted ones, the
    invariant \<open>durable_sys\<close>, and the two ways a sample does get lost. \<open>Passes\<close>:
    several passes at once, each a frame for the others (\<open>pass_ok_frame\<close>); nothing is lost,
    but a sample can be published twice. \<open>Progress\<close>: the measure
    \<open>work\<close>, by which \<open>shutdown\<close> comes to its end once its sentinel is queued.
  \<^item> this theory: the composition of writer, codecs and compaction.

  \<^bold>\<open>State.\<close> \<open>process\<close> holds \<open>GLOBAL\<close>, \<open>WRITER_JOIN\<close>, \<open>COMPACTION_TASK\<close> and
  \<open>SHUTDOWN\<close>, the writer thread and the spawned tasks; the handle holds the channel and the
  partition that the writer shares. A pass keeps the record \<open>pass_state\<close>; the tracker is its
  own record beside the process. \<open>sys\<close> adds to the process the program counters of its
  threads and the files; \<open>sys_run\<close> runs a list of \<open>event\<close>s.

  \<^bold>\<open>Arguments.\<close> The crates \<open>prometheus\<close>, \<open>tokio\<close>'s channel, \<open>fjall\<close>, \<open>serde_json\<close>,
  \<open>arrow\<close>, \<open>parquet\<close>, \<open>chrono\<close>, the web frameworks, the file system, clocks, the
  standard library's hash and logarithm, rounding of floats, contention of \<open>try_lock\<close> and
  the iteration order of hash maps are arguments. \<open>prom_spec\<close>, \<open>chan_spec\<close>, \<open>fjall_spec\<close>,
  \<open>json_floats\<close>, \<open>json_exact\<close>, \<open>parquet_spec\<close> and \<open>float_ok\<close> state what is documented of
  them; each has an instance on which the properties are evaluated.

  \<^bold>\<open>Bounds.\<close> \<open>writer_run\<close> has fuel; one more than the queued messages is enough, since a
  turn that goes on takes a message. \<open>shutdown\<close> makes the 100 attempts of the code, and its
  join has fuel in the same sense; \<open>Hangs\<close> is a join that never returns. A call of
  \<open>record\<close> has at most five steps, an update of the registry three and \<open>init\<close> six.
  Everything else is structural or has a measure.

  \<^bold>\<open>Abstractions.\<close> In \<open>Engine\<close>, \<open>Lifecycle\<close> and \<open>Pipeline\<close> one \<open>record\<close> and one
  writer turn are atomic; in \<open>Threads\<close> the atomic steps are one update of the registry, one
  operation of the channel, one insert, one item of a scan with the flush it causes, and one
  operation on a static; in \<open>Registration\<close> an update is three steps. \<open>Threads\<close> has one pass
  and one \<open>shutdown\<close> at a time, and starts after \<open>init\<close>; \<open>Starting\<close> is the part before,
  where no writer, pass or \<open>shutdown\<close> runs yet. \<open>Passes\<close> has any number
  of passes and the writer's inserts. Atomics are sequentially consistent, a scan is the
  contents at its start, and a sketch computes with reals under an explicit rounding
  function. Log output is left out.

  \<^bold>\<open>Not modelled.\<close> Module declarations and re-exports, \<open>Debug\<close> implementations, the
  accessor of the inner registry, the set-up of logging in the example, and the tests: no
  behaviour of the crate of their own. Two passes that open in the same second, and so
  write to one temporary file, are outside \<open>parquet_spec\<close>, which speaks of one writer to
  a file.
\<close>

section \<open>Properties\<close>

text \<open>
  C7: what was recorded is what is exported: after a batch has been flushed to an empty
  store, a compaction pass that succeeds with every sample past its retention publishes a
  file with exactly one row per sample (its timestamp in microseconds, name, kind, labels
  and finite value), ordered by timestamp, and leaves the store empty.
\<close>

theorem samples_become_rows:
  assumes "fjall_spec cont db" and "fjall_reliable db" and "parquet_spec fv wv pq" and "json_floats jn"
    and "cont part = Map.empty" and "es \<noteq> []" and "length es \<le> 2 ^ 32" and "list_all (exportable jn) es"
    and "cutoff_micros env cfg = Ret (Inr cutoff)" and "\<forall>e \<in> set es. entry_micros e < cutoff"
    and "run_compaction_once_blocking pq db jn env cfg (fst (flush_batch jn db es part seq)) fs
      = (Ret (Inr n), part', fs')"
  shows "\<exists>rows. fv fs' (final_path cfg (publish_stamp env)) = Some rows \<and> n = length es \<and>
    mset rows = mset (map (row_of_entry jn) es) \<and> sorted (map r_ts rows) \<and> cont part' = Map.empty"
proof -
  let ?part = "fst (flush_batch jn db es part seq)"
  obtain kvs where kvs: "expired (cont ?part) cutoff kvs" "n = length (expired_rows jn kvs)"
    "if expired_rows jn kvs = [] then fv fs' = fv fs \<and> cont part' = cont ?part
     else fv fs' (final_path cfg (publish_stamp env)) = Some (expired_rows jn kvs) \<and>
       (\<forall>q. q \<noteq> tmp_path cfg (open_stamp env) \<and> q \<noteq> final_path cfg (publish_stamp env) \<longrightarrow> fv fs' q = fv fs q) \<and>
       (\<forall>k. k \<notin> fst ` set kvs \<longrightarrow> cont part' k = cont ?part k) \<and>
       (\<forall>k \<in> fst ` set kvs. decode_key k \<noteq> None \<longrightarrow> cont part' k = None)"
    using compaction_exports [OF assms(3,1,2,11)] assms(9) by auto
  note rows = expired_stored [OF assms(1,2,5,7,4,8,10) kvs(1)]
  then have len: "length (expired_rows jn kvs) = length es" by (metis length_map size_mset)
  then have ne: "expired_rows jn kvs \<noteq> []" using assms(6) by auto
  then have published: "fv fs' (final_path cfg (publish_stamp env)) = Some (expired_rows jn kvs)"
    using kvs(3) by simp
  note gone = kvs(3) [unfolded if_not_P [OF ne], THEN conjunct2, THEN conjunct2]
  have "cont part' k = None" for k
  proof (cases "k \<in> fst ` set kvs")
    case True
    then have "decode_key k \<noteq> None" using rows(4) by fastforce
    then show ?thesis by (rule mp [OF bspec [OF conjunct2 [OF gone] True]])
  next
    case False
    then have "cont ?part k = None" using rows(3) by (metis fst_conv image_eqI not_None_eq)
    then show ?thesis using False gone by simp
  qed
  then have "cont part' = Map.empty" by (simp add: fun_eq_iff)
  then show ?thesis using published kvs(2) len rows(1,2) by blast
qed

theorem samples_become_rows_witness:
  "\<exists>part' fs'. run_compaction_once_blocking (ref_parquet True) ref_fjall (json_table demo_table) demo_env demo_cfg
      (fst (flush_batch (json_table demo_table) ref_fjall [demo_sample, demo_sample] store_empty 5)) Map.empty
      = (Ret (Inr 2), part', fs') \<and>
    fs' (final_path demo_cfg (lit ''20240101T000001'')) =
      Some (replicate 2 (row_of_entry (json_table demo_table) demo_sample))"
proof -
  let ?jn = "json_table demo_table" and ?es = "[demo_sample, demo_sample]"
  have "fst (finalize_export (ref_parquet True) demo_env demo_cfg t w fs) = Inr ()" for t w fs
    by (simp add: finalize_export_def ref_parquet_def)
  then obtain n part' fs' where run: "run_compaction_once_blocking (ref_parquet True) ref_fjall ?jn
      demo_env demo_cfg (fst (flush_batch ?jn ref_fjall ?es store_empty 5)) Map.empty = (Ret (Inr n), part', fs')"
    using run_returns [OF ref_parquet_spec ref_fjall_spec ref_fjall_reliable ref_parquet_writable demo_cutoff] by blast
  have e: "list_all (exportable ?jn) ?es"
    using json_exact_demo by (simp add: exportable_def demo_sample_def lit_def is_scalar_def)
  have old: "\<forall>e \<in> set ?es. entry_micros e < 10" by (simp add: demo_keys)
  have empty: "store_map store_empty = Map.empty" by (simp add: store_map_def store_empty.rep_eq)
  have "length ?es \<le> 2 ^ 32" "?es \<noteq> []" by simp_all
  from samples_become_rows [OF ref_fjall_spec ref_fjall_reliable ref_parquet_spec json_floats_table empty this(2,1) e
      demo_cutoff old run]
  obtain rows where rows: "fs' (final_path demo_cfg (publish_stamp demo_env)) = Some rows" "n = 2"
    "mset rows = mset (map (row_of_entry ?jn) ?es)" by auto
  have "rows = replicate 2 (row_of_entry ?jn demo_sample)"
    using mset_eq_length [OF rows(3)] mset_eq_setD [OF rows(3)] by (intro replicate_eqI) auto
  moreover have "publish_stamp demo_env = lit ''20240101T000001''" by (simp add: demo_env_def)
  ultimately show ?thesis using run rows(1,2) by auto
qed

end
